(* ===== verification/Prelude.thy ===== *)
theory Prelude
  imports Main "HOL-Library.Word"
begin

text \<open>
  Shared vocabulary of the development: machine integer types, the faults a C routine of the
  kernel can end in, the result type of fallible routines, and generic lemmas on words, bits
  and lists.  Component theories add their own facts to the collections declared here.
\<close>

unbundle bit_operations_syntax

named_theorems res_simps \<open>unfolding of the result type\<close>
named_theorems word_nat \<open>reading words as natural numbers\<close>

section \<open>Machine integers\<close>

type_synonym u8 = "8 word"
type_synonym u16 = "16 word"
type_synonym u32 = "32 word"
type_synonym u64 = "64 word"

section \<open>Faults and results\<close>

text \<open>
  \<open>Panic msg\<close> is a call of \<open>panic(msg)\<close>, which disables interrupts and halts for ever.
  \<open>OutOfBounds\<close> is an access beyond the end of a C array (undefined behaviour in C: nothing is
  claimed about what follows).  \<open>Spin\<close> is a loop that never leaves its body.
\<close>

datatype fault = Panic string | OutOfBounds | Spin

type_synonym 'a res = "fault + 'a"

definition bind_res :: "'a res \<Rightarrow> ('a \<Rightarrow> 'b res) \<Rightarrow> 'b res" where
  "bind_res r f = (case r of Inl e \<Rightarrow> Inl e | Inr x \<Rightarrow> f x)"

lemma bind_res_simps [simp, res_simps]:
  "bind_res (Inl e) f = Inl e"
  "bind_res (Inr x) f = f x"
  by (simp_all add: bind_res_def)

lemma bind_res_eq_Inr [res_simps]:
  "bind_res r f = Inr y \<longleftrightarrow> (\<exists>x. r = Inr x \<and> f x = Inr y)"
  by (cases r) simp_all

lemma bind_res_eq_Inl [res_simps]:
  "bind_res r f = Inl e \<longleftrightarrow> r = Inl e \<or> (\<exists>x. r = Inr x \<and> f x = Inl e)"
  by (cases r) auto

section \<open>Words as numbers\<close>

lemma unat_add_no_wrap [word_nat]:
  fixes a b :: "'a::len word"
  assumes "unat a + unat b < 2 ^ LENGTH('a)"
  shows "unat (a + b) = unat a + unat b"
  using assms by (simp add: unat_word_ariths)

lemma unat_less_64 [simp]: "unat (a :: u64) < 18446744073709551616"
  by (rule order_less_le_trans [OF unsigned_less]) simp

lemma unat_less_32 [simp]: "unat (a :: u32) < 4294967296"
  by (rule order_less_le_trans [OF unsigned_less]) simp

lemma unat_of_nat_64 [word_nat]:
  "n < 18446744073709551616 \<Longrightarrow> unat (of_nat n :: u64) = n"
  by (simp add: unat_of_nat)

lemma unat_of_nat_32 [word_nat]:
  "n < 4294967296 \<Longrightarrow> unat (of_nat n :: u32) = n"
  by (simp add: unat_of_nat)

section \<open>Bits of words\<close>

text \<open>The simplifier reads \<open>1 << n\<close> as \<open>2 ^ n\<close>.\<close>

lemma and_exp_zero_iff:
  fixes w :: "'a::len word"
  shows "w AND 2 ^ n = 0 \<longleftrightarrow> \<not> bit w n"
  by (simp add: and_exp_eq_0_iff_not_bit)

lemma bit_or_exp:
  fixes w :: "'a::len word"
  assumes "n < LENGTH('a)"
  shows "bit (w OR 2 ^ n) m \<longleftrightarrow> bit w m \<or> m = n"
  using assms by (auto simp: bit_simps)

lemma bit_and_not_exp:
  fixes w :: "'a::len word"
  shows "bit (w AND NOT (2 ^ n)) m \<longleftrightarrow> bit w m \<and> m \<noteq> n"
  by (auto simp: bit_simps dest: bit_imp_le_length)

lemma all_bits_set_iff:
  fixes w :: "'a::len word"
  shows "w = - 1 \<longleftrightarrow> (\<forall>n < LENGTH('a). bit w n)"
  by (auto intro!: bit_eqI simp: bit_simps dest: bit_imp_le_length)

section \<open>Lists read by index\<close>

lemma find_upt_Some:
  "find P [0..<n] = Some i \<longleftrightarrow> i < n \<and> P i \<and> (\<forall>j < i. \<not> P j)"
  by (auto simp: find_Some_iff)

lemma find_upt_None: "find P [0..<n] = None \<longleftrightarrow> (\<forall>i < n. \<not> P i)"
  by (auto simp: find_None_iff)

text \<open>
  The values of a counting loop \<open>for (i = a; i < b; i++)\<close>.  Kept as a constant of its own so
  that the simplifier does not unroll loops with literal bounds.
\<close>

definition for_range :: "nat \<Rightarrow> nat \<Rightarrow> nat list" where
  "for_range a b = [a..<b]"

lemma set_for_range [simp]: "set (for_range a b) = {a..<b}"
  and distinct_for_range [simp]: "distinct (for_range a b)"
  and length_for_range [simp]: "length (for_range a b) = b - a"
  by (simp_all add: for_range_def)

text \<open>A loop that leaves at the first index with a property.\<close>

lemma find_append: "find P (xs @ ys) = (case find P xs of None \<Rightarrow> find P ys | Some x \<Rightarrow> Some x)"
  by (induction xs) auto

lemma find_for_range_Some:
  "find P (for_range a b) = Some i \<longleftrightarrow> a \<le> i \<and> i < b \<and> P i \<and> (\<forall>j. a \<le> j \<and> j < i \<longrightarrow> \<not> P j)"
  unfolding for_range_def
proof (induction b arbitrary: i)
  case (Suc b)
  show ?case
  proof (cases "find P [a..<b]")
    case None
    then have "\<forall>j. a \<le> j \<and> j < b \<longrightarrow> \<not> P j" by (auto simp: find_None_iff)
    with None show ?thesis by (auto simp: find_append less_Suc_eq)
  next
    case (Some k)
    then have k: "a \<le> k" "k < b" "P k" "\<forall>j. a \<le> j \<and> j < k \<longrightarrow> \<not> P j"
      using Suc.IH [of k] by simp_all
    then have "i = k" if "a \<le> i" "P i" "\<forall>j. a \<le> j \<and> j < i \<longrightarrow> \<not> P j"
      using that by (metis not_less_iff_gr_or_eq)
    with Some k show ?thesis by (auto simp: find_append)
  qed
qed simp

lemma find_for_range_None: "find P (for_range a b) = None \<longleftrightarrow> (\<forall>i. a \<le> i \<and> i < b \<longrightarrow> \<not> P i)"
  by (auto simp: find_None_iff)

end
