(* ===== verification/Phys_Mem.thy ===== *)
theory Phys_Mem
  imports Prelude
begin

text \<open>
  Physical memory as the kernel sees it: a byte for every 64-bit address, with 64-bit loads
  and stores in little-endian order (the only byte order of x86-64), and tables of 512
  eight-byte entries (page tables, and pages cleared or copied entry by entry).  The lemmas
  say what a load returns after a store, at the same place and elsewhere.
\<close>

type_synonym pmem = "u64 \<Rightarrow> u8"

section \<open>Loads and stores of 64-bit words\<close>

definition load64 :: "pmem \<Rightarrow> u64 \<Rightarrow> u64" where
  "load64 m a =
     ucast (m a) OR push_bit 8 (ucast (m (a + 1))) OR push_bit 16 (ucast (m (a + 2)))
     OR push_bit 24 (ucast (m (a + 3))) OR push_bit 32 (ucast (m (a + 4)))
     OR push_bit 40 (ucast (m (a + 5))) OR push_bit 48 (ucast (m (a + 6)))
     OR push_bit 56 (ucast (m (a + 7)))"

definition store64 :: "pmem \<Rightarrow> u64 \<Rightarrow> u64 \<Rightarrow> pmem" where
  "store64 m a v =
     m(a := ucast v, a + 1 := ucast (drop_bit 8 v), a + 2 := ucast (drop_bit 16 v),
       a + 3 := ucast (drop_bit 24 v), a + 4 := ucast (drop_bit 32 v),
       a + 5 := ucast (drop_bit 40 v), a + 6 := ucast (drop_bit 48 v),
       a + 7 := ucast (drop_bit 56 v))"

text \<open>Two addresses at least eight bytes apart, in either direction round the address space.\<close>

definition apart8 :: "u64 \<Rightarrow> u64 \<Rightarrow> bool" where
  "apart8 a b \<longleftrightarrow> 8 \<le> unat (a - b) \<and> 8 \<le> unat (b - a)"

lemma store64_bytes:
  "store64 m a v a = ucast v" "store64 m a v (a + 1) = ucast (drop_bit 8 v)"
  "store64 m a v (a + 2) = ucast (drop_bit 16 v)" "store64 m a v (a + 3) = ucast (drop_bit 24 v)"
  "store64 m a v (a + 4) = ucast (drop_bit 32 v)" "store64 m a v (a + 5) = ucast (drop_bit 40 v)"
  "store64 m a v (a + 6) = ucast (drop_bit 48 v)" "store64 m a v (a + 7) = ucast (drop_bit 56 v)"
  by (simp_all add: store64_def)

lemma bit_byte_at:
  "k \<le> 56 \<Longrightarrow>
     bit (push_bit k (ucast (ucast (drop_bit k (v :: u64)) :: u8)) :: u64) n
     \<longleftrightarrow> k \<le> n \<and> n < k + 8 \<and> bit v n"
  by (auto simp: bit_simps)

lemma bit_low_byte:
  "bit (ucast (ucast (v :: u64) :: u8) :: u64) n \<longleftrightarrow> n < 8 \<and> bit v n"
  by (auto simp: bit_simps)

lemma load64_store64_same [simp]: "load64 (store64 m a v) a = v"
proof (rule bit_word_eqI)
  fix n assume "n < LENGTH(64)"
  then have "n < 64" by simp
  then show "bit (load64 (store64 m a v) a) n = bit v n"
    unfolding load64_def store64_bytes bit_or_iff bit_low_byte
    by (simp only: bit_byte_at) linarith
qed

lemma apart8_neq:
  assumes "apart8 a b" and "unat i < 8" and "unat j < 8"
  shows "a + i \<noteq> b + j"
proof
  assume eq: "a + i = b + j"
  show False
  proof (cases "unat i \<le> unat j")
    case True
    from eq have "a - b = j - i" by (simp add: algebra_simps)
    moreover have "unat (j - i) = unat j - unat i"
      using True by (simp add: unat_sub word_le_nat_alt)
    ultimately have "unat (a - b) \<le> unat j" by simp
    with assms show False by (simp add: apart8_def)
  next
    case False
    from eq have "b - a = i - j" by (simp add: algebra_simps)
    moreover have "unat (i - j) = unat i - unat j"
      using False by (simp add: unat_sub word_le_nat_alt)
    ultimately have "unat (b - a) \<le> unat i" by simp
    with assms show False by (simp add: apart8_def)
  qed
qed

lemma store64_elsewhere:
  assumes "8 \<le> unat (b - a)"
  shows "store64 m a v b = m b"
proof -
  have "b \<noteq> a + i" if "unat i < 8" for i
    using that assms by auto
  from this [of 0] this [of 1] this [of 2] this [of 3] this [of 4] this [of 5] this [of 6] this [of 7]
  show ?thesis by (simp add: store64_def)
qed

lemma load64_store64_apart [simp]:
  assumes "apart8 a b"
  shows "load64 (store64 m a v) b = load64 m b"
proof -
  have *: "store64 m a v (b + j) = m (b + j)" if "unat j < 8" for j
  proof -
    have "b + j \<noteq> a + i" if "unat i < 8" for i
      using apart8_neq [OF assms that \<open>unat j < 8\<close>] by auto
    from this [of 0] this [of 1] this [of 2] this [of 3] this [of 4] this [of 5] this [of 6] this [of 7]
    show ?thesis by (simp add: store64_def)
  qed
  from * [of 0] * [of 1] * [of 2] * [of 3] * [of 4] * [of 5] * [of 6] * [of 7]
  show ?thesis by (simp add: load64_def)
qed

lemma unat_diff_64:
  "unat (a - b :: u64) = (if unat b \<le> unat a then unat a - unat b
     else unat a + 18446744073709551616 - unat b)"
  by (simp add: unat_sub_if')

lemma apart8_if_mult8:
  assumes "8 dvd unat a" and "8 dvd unat b" and "a \<noteq> b"
  shows "apart8 a b"
proof -
  have "8 \<le> unat (x - y)" if "8 dvd unat x" "8 dvd unat y" "x \<noteq> y" for x y :: u64
  proof -
    have "8 dvd unat (x - y)"
      using that by (simp add: unat_diff_64 dvd_diff_nat)
    moreover have "0 < unat (x - y)"
      using that(3) by (simp add: unat_gt_0)
    ultimately show ?thesis by (auto intro: dvd_imp_le)
  qed
  from this [of a b] this [of b a] assms show ?thesis
    by (simp add: apart8_def)
qed

section \<open>Clearing and copying\<close>

text \<open>\<open>for (i = 0; i < n; i++) ptr[i] = 0\<close> over 64-bit words, and the byte copy loop.\<close>

definition clear_words :: "pmem \<Rightarrow> u64 \<Rightarrow> nat \<Rightarrow> pmem" where
  "clear_words m a n = fold (\<lambda>i m. store64 m (a + 8 * of_nat i) 0) [0..<n] m"

definition copy_bytes :: "pmem \<Rightarrow> u64 \<Rightarrow> u64 \<Rightarrow> nat \<Rightarrow> pmem" where
  "copy_bytes m dst src n = fold (\<lambda>i m. m(dst + of_nat i := m (src + of_nat i))) [0..<n] m"

lemma store64_zero: "store64 m a 0 b = (if unat (b - a) < 8 then 0 else m b)"
proof (cases "unat (b - a) < 8")
  case True
  have "b - a = of_nat (unat (b - a))" by simp
  moreover from True have "unat (b - a) \<in> {0, 1, 2, 3, 4, 5, 6, 7}" by auto
  ultimately have "b - a \<in> of_nat ` {0, 1, 2, 3, 4, 5, 6, 7}" by (rule image_eqI)
  then have "b - a \<in> {0, 1, 2, 3, 4, 5, 6, 7}" by simp
  then have "b \<in> {a, a + 1, a + 2, a + 3, a + 4, a + 5, a + 6, a + 7}"
    by (auto simp: algebra_simps diff_eq_eq)
  with True show ?thesis by (auto simp: store64_def)
next
  case False
  then show ?thesis by (simp add: store64_elsewhere)
qed

lemma clear_words_apply:
  assumes "8 * n \<le> 18446744073709551616"
  shows "clear_words m a n b = (if unat (b - a) < 8 * n then 0 else m b)"
  using assms
proof (induction n)
  case 0
  then show ?case by (simp add: clear_words_def)
next
  case (Suc n)
  have k: "unat (8 * of_nat n :: u64) = 8 * n"
    using Suc.prems unat_of_nat_64 [of "8 * n"] by simp
  have shift: "b - (a + 8 * of_nat n) = (b - a) - 8 * of_nat n" by simp
  have "unat (b - (a + 8 * of_nat n)) < 8 \<longleftrightarrow>
      8 * n \<le> unat (b - a) \<and> unat (b - a) < 8 * n + 8"
    using Suc.prems k unat_less_64 [of "b - a"] unat_diff_64 [of "b - a" "8 * of_nat n"]
    unfolding shift by (simp split: if_splits; linarith)
  with Suc show ?case
    by (auto simp: clear_words_def store64_zero)
qed

lemma copy_bytes_apply:
  assumes "n \<le> 18446744073709551616"
    and "\<And>i j. i < n \<Longrightarrow> j < n \<Longrightarrow> dst + of_nat i \<noteq> src + of_nat j"
  shows "copy_bytes m dst src n b = (if unat (b - dst) < n then m (src + (b - dst)) else m b)"
  using assms
proof (induction n arbitrary: b)
  case 0
  then show ?case by (simp add: copy_bytes_def)
next
  case (Suc n)
  have IH: "copy_bytes m dst src n c = (if unat (c - dst) < n then m (src + (c - dst)) else m c)" for c
    using Suc.prems by (intro Suc.IH) auto
  have step: "copy_bytes m dst src (Suc n) b =
      (if b = dst + of_nat n then copy_bytes m dst src n (src + of_nat n) else copy_bytes m dst src n b)"
    by (simp add: copy_bytes_def)
  have k: "unat (of_nat n :: u64) = n"
    using Suc.prems by (intro unat_of_nat_64) simp
  have src: "copy_bytes m dst src n (src + of_nat n) = m (src + of_nat n)"
  proof (cases "unat (src + of_nat n - dst) < n")
    case True
    let ?i = "unat (src + of_nat n - dst)"
    have "dst + of_nat ?i = src + of_nat n" by simp
    with Suc.prems(2) [of ?i n] True show ?thesis by simp
  qed (simp add: IH)
  have eq: "b = dst + of_nat n \<longleftrightarrow> unat (b - dst) = n"
    using k by (metis add.commute add_diff_cancel_left' diff_add_cancel of_nat_unat ucast_id)
  show ?case
  proof (cases "b = dst + of_nat n")
    case True
    then show ?thesis using src step k by simp
  next
    case False
    then have "unat (b - dst) < Suc n \<longleftrightarrow> unat (b - dst) < n" using eq by auto
    with False show ?thesis using IH [of b] step by simp
  qed
qed

section \<open>Pages and tables of 512 entries\<close>

definition page_aligned :: "u64 \<Rightarrow> bool" where
  "page_aligned a \<longleftrightarrow> 4096 dvd unat a"

text \<open>\<open>table[i]\<close> for a \<open>uint64_t*\<close> table.\<close>

definition entry :: "pmem \<Rightarrow> u64 \<Rightarrow> nat \<Rightarrow> u64" where
  "entry m t i = load64 m (t + 8 * of_nat i)"

definition set_entry :: "pmem \<Rightarrow> u64 \<Rightarrow> nat \<Rightarrow> u64 \<Rightarrow> pmem" where
  "set_entry m t i v = store64 m (t + 8 * of_nat i) v"

lemma page_aligned_bound:
  assumes "page_aligned t"
  shows "unat t + 4096 \<le> 18446744073709551616"
proof -
  from assms obtain k where "unat t = 4096 * k" by (auto simp: page_aligned_def)
  with unat_less_64 [of t] have "k < 4503599627370496" by simp
  with \<open>unat t = 4096 * k\<close> show ?thesis by simp
qed

lemma unat_page_offset:
  assumes "page_aligned t" and "unat x < 4096"
  shows "unat (t + x) = unat t + unat x"
  using page_aligned_bound [OF assms(1)] assms(2) by (intro unat_add_no_wrap) simp

lemma unat_8_of_nat: "i < 512 \<Longrightarrow> unat (8 * of_nat i :: u64) = 8 * i"
  using unat_of_nat_64 [of "8 * i"] by simp

lemma unat_entry_addr:
  "page_aligned t \<Longrightarrow> i < 512 \<Longrightarrow> unat (t + 8 * of_nat i) = unat t + 8 * i"
  by (simp add: unat_page_offset unat_8_of_nat)

lemma entry_addr_mult8:
  assumes "page_aligned t" and "i < 512"
  shows "8 dvd unat (t + 8 * of_nat i)"
proof -
  have "8 dvd unat t"
    using assms(1) unfolding page_aligned_def by (rule dvd_trans [rotated]) simp
  with assms show ?thesis by (simp add: unat_entry_addr)
qed

lemma entry_addr_eq_iff:
  assumes "page_aligned t" "page_aligned t'" "i < 512" "j < 512"
  shows "t + 8 * of_nat i = t' + 8 * of_nat j \<longleftrightarrow> t = t' \<and> i = j"
proof
  assume "t + 8 * of_nat i = t' + 8 * of_nat j"
  then have "unat t + 8 * i = unat t' + 8 * j"
    using assms by (metis unat_entry_addr)
  moreover obtain k k' where k: "unat t = 4096 * k" "unat t' = 4096 * k'"
    using assms(1,2) unfolding page_aligned_def by (elim dvdE)
  ultimately have eq: "4096 * k + 8 * i = 4096 * k' + 8 * j" by simp
  have "(4096 * k + 8 * i) div 4096 = k" "(4096 * k' + 8 * j) div 4096 = k'"
    using assms(3,4) by simp_all
  with eq have "k = k'" by simp
  with eq k show "t = t' \<and> i = j" by (auto intro: word_unat_eq_iff [THEN iffD2])
qed simp

text \<open>The law page tables rest on: a store to one entry changes that entry and no other.\<close>

lemma entry_set_entry:
  assumes "page_aligned t" "page_aligned t'" "i < 512" "j < 512"
  shows "entry (set_entry m t i v) t' j = (if t = t' \<and> i = j then v else entry m t' j)"
proof (cases "t = t' \<and> i = j")
  case False
  then have "apart8 (t + 8 * of_nat i) (t' + 8 * of_nat j)"
    using assms by (intro apart8_if_mult8) (simp_all add: entry_addr_mult8 entry_addr_eq_iff)
  with False show ?thesis by (auto simp: entry_def set_entry_def)
qed (simp add: entry_def set_entry_def)

lemma page_disjoint:
  assumes "page_aligned p" "page_aligned q" "p \<noteq> q" "unat (b - p) < 4096"
  shows "4096 \<le> unat (b - q)"
proof -
  obtain k l where k: "unat p = 4096 * k" "unat q = 4096 * l"
    using assms(1,2) unfolding page_aligned_def by (elim dvdE)
  have "k \<noteq> l" using k assms(3) by (auto simp: word_unat_eq_iff)
  have b: "unat b = unat p + unat (b - p)"
    using unat_page_offset [OF assms(1,4)] by simp
  have q: "unat q + 4096 \<le> 18446744073709551616"
    using assms(2) by (rule page_aligned_bound)
  have d: "unat (b - q) = (if unat q \<le> unat b then unat b - unat q
      else unat b + 18446744073709551616 - unat q)"
    by (rule unat_diff_64)
  from \<open>k \<noteq> l\<close> have "k + 1 \<le> l \<or> l + 1 \<le> k" by linarith
  then show ?thesis
  proof
    assume "k + 1 \<le> l"
    with k b assms(4) have "unat b < unat q" by simp
    with d q show ?thesis by simp
  next
    assume "l + 1 \<le> k"
    with k b have "unat q + 4096 \<le> unat b" by simp
    with d show ?thesis by simp
  qed
qed

text \<open>Clearing a page: its entries read zero, every other page is as before.\<close>

lemma entry_clear_page:
  assumes "page_aligned p" "page_aligned t" "i < 512"
  shows "entry (clear_words m p 512) t i = (if t = p then 0 else entry m t i)"
proof -
  have off: "t + 8 * of_nat i + of_nat j = t + (8 * of_nat i + of_nat j)" for j :: nat
    by (simp add: add.assoc)
  have u: "unat (8 * of_nat i + of_nat j :: u64) = 8 * i + j" if "j < 8" for j
    using that assms(3) unat_of_nat_64 [of "8 * i + j"] by simp
  have byte: "clear_words m p 512 (t + 8 * of_nat i + of_nat j) =
      (if t = p then 0 else m (t + 8 * of_nat i + of_nat j))" if "j < 8" for j :: nat
  proof (cases "t = p")
    case True
    then show ?thesis using u [OF that] that assms(3)
      by (simp add: clear_words_apply off)
  next
    case False
    have "unat (t + 8 * of_nat i + of_nat j - t) < 4096"
      using u [OF that] that assms(3) by (simp add: off)
    from page_disjoint [OF assms(2,1) False this] False show ?thesis
      by (simp add: clear_words_apply)
  qed
  from byte [of 0] byte [of 1] byte [of 2] byte [of 3] byte [of 4] byte [of 5] byte [of 6] byte [of 7]
  show ?thesis by (simp add: entry_def load64_def)
qed

end
