(* ===== verification/Machine.thy ===== *)
theory Machine
  imports Phys_Mem
begin

text \<open>
  The base of the kernel's state: physical memory and the console.  The console is the sequence
  of characters handed to \<open>terminal_putchar\<close> so far; what the terminal makes of them is the
  subject of the terminal and virtual-terminal theories.  Each component extends this record
  with its own static variables.
\<close>

record machine =
  phys_mem :: pmem
  console :: string

definition terminal_putchar_log :: "char \<Rightarrow> 'a machine_scheme \<Rightarrow> 'a machine_scheme" where
  "terminal_putchar_log c s = s\<lparr>console := console s @ [c]\<rparr>"

definition terminal_writestring :: "string \<Rightarrow> 'a machine_scheme \<Rightarrow> 'a machine_scheme" where
  "terminal_writestring str s = fold terminal_putchar_log str s"

lemma terminal_writestring_eq:
  "terminal_writestring str s = s\<lparr>console := console s @ str\<rparr>"
  by (induction str arbitrary: s) (simp_all add: terminal_writestring_def terminal_putchar_log_def)

lemma terminal_writestring_phys_mem [simp]:
  "phys_mem (terminal_writestring str s) = phys_mem s"
  by (simp add: terminal_writestring_eq)

end
