(* ===== verification/Pmm.thy ===== *)
theory Pmm
  imports Machine
begin

text \<open>
  The physical memory manager (\<open>src/src/mm/pmm.c\<close>, \<open>src/include/mm/pmm.h\<close>): a bitmap with one
  bit per 4096-byte page frame (1 = used), a frame counter, first-fit allocation of one frame
  or of a run of frames, and release with three panics.  The contract of the allocator is the
  locale \<open>frame_allocator\<close>; its clients (page tables) rest on the interpretation.
\<close>

section \<open>State and bitmap primitives\<close>

abbreviation (input) PAGE_SIZE :: nat where "PAGE_SIZE \<equiv> 4096"
abbreviation (input) PMM_START :: nat where "PMM_START \<equiv> 0x400000"
abbreviation (input) BITMAP_SIZE :: nat where "BITMAP_SIZE \<equiv> 128 * 1024"

record pmm = machine +
  pmm_bitmap :: "u32 list"
  pmm_total_pages :: u64
  pmm_free_pages :: u64
  pmm_reserved_pages :: u64

text \<open>The two nested loops of \<open>bitmap_find_free\<close>; \<open>None\<close> is the result -1.\<close>

definition first_clear_bit :: "u32 \<Rightarrow> nat option" where
  "first_clear_bit w = find (\<lambda>b. w AND push_bit b 1 = 0) [0..<32]"

fun bitmap_find_free :: "u32 list \<Rightarrow> nat \<Rightarrow> nat option" where
  "bitmap_find_free [] i = None"
| "bitmap_find_free (w # ws) i =
     (if w \<noteq> 0xFFFFFFFF then
        (case first_clear_bit w of
           Some b \<Rightarrow> Some (i * 32 + b)
         | None \<Rightarrow> bitmap_find_free ws (Suc i))
      else bitmap_find_free ws (Suc i))"

definition bitmap_set :: "nat \<Rightarrow> u32 list \<Rightarrow> u32 list" where
  "bitmap_set page bm =
     (let idx = page div 32; b = page mod 32
      in bm[idx := bm ! idx OR push_bit b 1])"

definition bitmap_clear :: "nat \<Rightarrow> u32 list \<Rightarrow> u32 list res" where
  "bitmap_clear page bm =
     (let idx = page div 32; b = page mod 32
      in if idx < length bm then Inr (bm[idx := bm ! idx AND NOT (push_bit b 1)])
         else Inl OutOfBounds)"

definition bitmap_test :: "nat \<Rightarrow> u32 list \<Rightarrow> bool res" where
  "bitmap_test page bm =
     (let idx = page div 32; b = page mod 32
      in if idx < length bm then Inr (bm ! idx AND push_bit b 1 \<noteq> 0)
         else Inl OutOfBounds)"

section \<open>Operations\<close>

fun pmm_init_loop :: "nat list \<Rightarrow> u32 list \<Rightarrow> u64 \<Rightarrow> (u32 list \<times> u64) res" where
  "pmm_init_loop [] bm n = Inr (bm, n)"
| "pmm_init_loop (page # pages) bm n =
     bind_res (bitmap_clear page bm) (\<lambda>bm'. pmm_init_loop pages bm' (n + 1))"

definition pmm_init :: "u64 \<Rightarrow> 'a pmm_scheme \<Rightarrow> 'a pmm_scheme res" where
  "pmm_init memory_size s =
     (let total = memory_size div 4096;
          bm = replicate (BITMAP_SIZE div 4) 0xFFFFFFFF;
          first_free_page = PMM_START div PAGE_SIZE;
          last_page = (if BITMAP_SIZE * 32 < unat total then BITMAP_SIZE * 32 else unat total)
      in bind_res (pmm_init_loop [first_free_page..<last_page] bm 0) (\<lambda>(bm', free).
           Inr (terminal_writestring '' MB free\<newline>'' (terminal_writestring '' MB total, ''
             (terminal_writestring ''PMM initialized: ''
               (s\<lparr>pmm_bitmap := bm', pmm_total_pages := total, pmm_free_pages := free,
                  pmm_reserved_pages := of_nat first_free_page\<rparr>))))))"

text \<open>A NULL result is the address 0.\<close>

definition pmm_alloc_page :: "'a pmm_scheme \<Rightarrow> u64 \<times> 'a pmm_scheme" where
  "pmm_alloc_page s =
     (case bitmap_find_free (pmm_bitmap s) 0 of
        None \<Rightarrow> (0, s)
      | Some page \<Rightarrow>
          (let addr = of_nat page * 4096
           in (addr, s\<lparr>pmm_bitmap := bitmap_set page (pmm_bitmap s),
                       pmm_free_pages := pmm_free_pages s - 1,
                       phys_mem := clear_words (phys_mem s) addr (PAGE_SIZE div 8)\<rparr>)))"

definition pmm_free_page :: "u64 \<Rightarrow> 'a pmm_scheme \<Rightarrow> 'a pmm_scheme res" where
  "pmm_free_page addr s =
     (if addr mod 4096 \<noteq> 0 \<or> addr < 0x400000 then
        Inl (Panic ''pmm_free_page: Invalid page address'')
      else let page = addr div 4096
      in if pmm_total_pages s \<le> page then Inl (Panic ''pmm_free_page: Page out of range'')
      else bind_res (bitmap_test (unat page) (pmm_bitmap s)) (\<lambda>used.
        if \<not> used then Inl (Panic ''pmm_free_page: Double free detected'')
        else bind_res (bitmap_clear (unat page) (pmm_bitmap s)) (\<lambda>bm'.
          Inr (s\<lparr>pmm_bitmap := bm', pmm_free_pages := pmm_free_pages s + 1\<rparr>))))"

text \<open>The scan for a run of free frames: the inner loop stops at the first used frame.\<close>

fun pages_all_free :: "u64 \<Rightarrow> nat list \<Rightarrow> u32 list \<Rightarrow> bool res" where
  "pages_all_free start [] bm = Inr True"
| "pages_all_free start (i # is) bm =
     bind_res (bitmap_test (unat (start + of_nat i)) bm) (\<lambda>used.
       if used then Inr False else pages_all_free start is bm)"

text \<open>
  The outer loop runs \<open>start\<close> upwards while \<open>start + count \<le> pmm_total_pages\<close>; the fuel is one
  more than the number of values \<open>start + count\<close> can take below that limit.
\<close>

fun find_run :: "nat \<Rightarrow> u64 \<Rightarrow> u64 \<Rightarrow> u64 \<Rightarrow> u32 list \<Rightarrow> u64 option res" where
  "find_run 0 start count limit bm = Inl Spin"
| "find_run (Suc fuel) start count limit bm =
     (if start + count \<le> limit then
        bind_res (pages_all_free start [0..<unat count] bm) (\<lambda>found.
          if found then Inr (Some start) else find_run fuel (start + 1) count limit bm)
      else Inr None)"

definition pmm_alloc_pages :: "u64 \<Rightarrow> 'a pmm_scheme \<Rightarrow> (u64 \<times> 'a pmm_scheme) res" where
  "pmm_alloc_pages count s =
     (if count = 0 then Inr (0, s)
      else bind_res
        (find_run (unat (pmm_total_pages s) + 2) 1024 count (pmm_total_pages s) (pmm_bitmap s))
        (\<lambda>r. case r of
           None \<Rightarrow> Inr (0, s)
         | Some start \<Rightarrow>
             (let addr = start * 4096
              in Inr (addr,
                   s\<lparr>pmm_bitmap := fold (\<lambda>i. bitmap_set (unat (start + of_nat i)))
                                     [0..<unat count] (pmm_bitmap s),
                     pmm_free_pages := pmm_free_pages s - count,
                     phys_mem := clear_words (phys_mem s) addr (unat (count * 4096 div 8))\<rparr>))))"

fun pmm_free_pages_loop :: "nat list \<Rightarrow> u64 \<Rightarrow> 'a pmm_scheme \<Rightarrow> 'a pmm_scheme res" where
  "pmm_free_pages_loop [] addr s = Inr s"
| "pmm_free_pages_loop (i # is) addr s =
     bind_res (pmm_free_page (addr + of_nat i * 4096) s) (pmm_free_pages_loop is addr)"

definition pmm_free_pages_op :: "u64 \<Rightarrow> u64 \<Rightarrow> 'a pmm_scheme \<Rightarrow> 'a pmm_scheme res" where
  "pmm_free_pages_op addr count s =
     (if count = 0 then Inr s else pmm_free_pages_loop [0..<unat count] addr s)"

text \<open>\<open>pmm_get_stats\<close> with all three result pointers non-null: total, free and used frames.\<close>

definition pmm_get_stats :: "'a pmm_scheme \<Rightarrow> u64 \<times> u64 \<times> u64" where
  "pmm_get_stats s = (pmm_total_pages s, pmm_free_pages s, pmm_total_pages s - pmm_free_pages s)"

section \<open>The bitmap as a set of frames\<close>

definition frame_used :: "u32 list \<Rightarrow> nat \<Rightarrow> bool" where
  "frame_used bm p \<longleftrightarrow> bit (bm ! (p div 32)) (p mod 32)"

definition free_frames :: "'a pmm_scheme \<Rightarrow> nat set" where
  "free_frames s = {p. p < 32 * length (pmm_bitmap s) \<and> \<not> frame_used (pmm_bitmap s) p}"

definition pmm_inv :: "'a pmm_scheme \<Rightarrow> bool" where
  "pmm_inv s \<longleftrightarrow>
     length (pmm_bitmap s) = 32768 \<and>
     unat (pmm_total_pages s) \<le> 1048576 \<and>
     (\<forall>p \<in> free_frames s. 1024 \<le> p \<and> p < unat (pmm_total_pages s)) \<and>
     unat (pmm_free_pages s) = card (free_frames s)"

named_theorems bitmap_simps \<open>bits of the frame bitmap after an update\<close>

lemma frame_used_Cons: "frame_used (w # ws) p = (if p < 32 then bit w p else frame_used ws (p - 32))"
proof (cases "p < 32")
  case False
  then obtain q where q: "p = 32 + q" using le_Suc_ex [of 32 p] by auto
  have "p div 32 = Suc (q div 32)" and "p mod 32 = q mod 32" by (simp_all add: q)
  then show ?thesis using q by (simp add: frame_used_def)
qed (simp add: frame_used_def)

lemma length_bitmap_set [simp]: "length (bitmap_set p bm) = length bm"
  by (simp add: bitmap_set_def Let_def)

lemma same_bit_iff: "q = p \<longleftrightarrow> q div 32 = p div 32 \<and> q mod 32 = (p :: nat) mod 32"
  by (metis div_mult_mod_eq)

lemma bitmap_index: "p div 32 < length bm \<longleftrightarrow> p < 32 * length bm"
  by (simp add: div_less_iff_less_mult mult.commute)

lemma frame_used_bitmap_set [bitmap_simps]:
  assumes "p < 32 * length bm"
  shows "frame_used (bitmap_set p bm) q \<longleftrightarrow> q = p \<or> frame_used bm q"
proof (cases "q div 32 = p div 32")
  case True
  then have "frame_used (bitmap_set p bm) q \<longleftrightarrow> frame_used bm q \<or> q mod 32 = p mod 32"
    using assms by (simp add: frame_used_def bitmap_set_def Let_def bitmap_index bit_or_exp)
  with True show ?thesis using same_bit_iff [of q p] by blast
next
  case False
  then show ?thesis by (auto simp: frame_used_def bitmap_set_def Let_def)
qed

lemma bitmap_clear_Inr:
  assumes "p < 32 * length bm"
  obtains bm' where "bitmap_clear p bm = Inr bm'" "length bm' = length bm"
    "\<And>q. frame_used bm' q \<longleftrightarrow> q \<noteq> p \<and> frame_used bm q"
proof
  let ?bm = "bm[p div 32 := bm ! (p div 32) AND NOT (push_bit (p mod 32) 1)]"
  show "bitmap_clear p bm = Inr ?bm"
    using assms by (simp add: bitmap_clear_def Let_def bitmap_index)
  show "length ?bm = length bm" by simp
  show "frame_used ?bm q \<longleftrightarrow> q \<noteq> p \<and> frame_used bm q" for q
  proof (cases "q div 32 = p div 32")
    case True
    then have "frame_used ?bm q \<longleftrightarrow> frame_used bm q \<and> q mod 32 \<noteq> p mod 32"
      using assms by (simp add: frame_used_def bitmap_index bit_and_not_exp)
    with True show ?thesis using same_bit_iff [of q p] by blast
  next
    case False
    then show ?thesis by (auto simp: frame_used_def)
  qed
qed

lemma bitmap_test_eq [bitmap_simps]:
  "bitmap_test p bm = (if p < 32 * length bm then Inr (frame_used bm p) else Inl OutOfBounds)"
proof -
  show ?thesis
    by (simp add: bitmap_test_def Let_def frame_used_def and_exp_zero_iff bitmap_index)
qed

lemma first_clear_bit_Some:
  "first_clear_bit w = Some b \<longleftrightarrow> b < 32 \<and> \<not> bit w b \<and> (\<forall>c < b. bit w c)"
  unfolding first_clear_bit_def find_upt_Some by (auto simp: and_exp_zero_iff)

lemma first_clear_bit_None: "first_clear_bit w = None \<longleftrightarrow> w = 0xFFFFFFFF"
proof -
  have "first_clear_bit w = None \<longleftrightarrow> (\<forall>b < 32. bit w b)"
    unfolding first_clear_bit_def find_upt_None by (auto simp: and_exp_zero_iff)
  also have "\<dots> \<longleftrightarrow> w = - 1" by (simp add: all_bits_set_iff)
  also have "(- 1 :: u32) = 0xFFFFFFFF" by simp
  finally show ?thesis .
qed

text \<open>The scan returns the lowest clear bit.\<close>

lemma bitmap_find_free_shift:
  "bitmap_find_free ws i = map_option (\<lambda>q. 32 * i + q) (bitmap_find_free ws 0)"
proof (induction ws arbitrary: i)
  case (Cons w ws)
  show ?case
    using Cons.IH [of "Suc i"] Cons.IH [of "Suc 0"]
    by (cases "bitmap_find_free ws 0") (auto split: option.split)
qed simp

lemma bitmap_find_free_Some:
  "bitmap_find_free bm 0 = Some p \<longleftrightarrow>
     p < 32 * length bm \<and> \<not> frame_used bm p \<and> (\<forall>q < p. frame_used bm q)"
proof (induction bm arbitrary: p)
  case (Cons w ws)
  show ?case
  proof (cases "w = 0xFFFFFFFF")
    case True
    then have all: "bit w b" if "b < 32" for b
      using that all_bits_set_iff [of w] by simp
    have "bitmap_find_free (w # ws) 0 = Some p \<longleftrightarrow>
        (\<exists>q. p = 32 + q \<and> bitmap_find_free ws 0 = Some q)"
      using True bitmap_find_free_shift [of ws 1] by auto
    also have "\<dots> \<longleftrightarrow> p < 32 * length (w # ws) \<and> \<not> frame_used (w # ws) p \<and> (\<forall>q < p. frame_used (w # ws) q)"
    proof (cases "p < 32")
      case True
      then show ?thesis using all by (simp add: frame_used_Cons)
    next
      case False
      then obtain q where q: "p = 32 + q" by (metis le_Suc_ex not_less)
      have "(\<forall>r < 32 + q. frame_used (w # ws) r) \<longleftrightarrow> (\<forall>r < q. frame_used ws r)"
      proof safe
        fix r assume *: "\<forall>r < 32 + q. frame_used (w # ws) r" and "r < q"
        from spec [OF *, of "32 + r"] \<open>r < q\<close> show "frame_used ws r"
          by (simp add: frame_used_Cons)
      qed (use all in \<open>auto simp: frame_used_Cons\<close>)
      with q show ?thesis by (simp add: Cons.IH frame_used_Cons)
    qed
    finally show ?thesis .
  next
    case False
    then obtain b where b: "first_clear_bit w = Some b"
      using first_clear_bit_None [of w] by auto
    then have c: "b < 32" "\<not> bit w b" "\<forall>c < b. bit w c" by (simp_all add: first_clear_bit_Some)
    have "bitmap_find_free (w # ws) 0 = Some p \<longleftrightarrow> p = b" using False b by auto
    also have "\<dots> \<longleftrightarrow> p < 32 * length (w # ws) \<and> \<not> frame_used (w # ws) p \<and> (\<forall>q < p. frame_used (w # ws) q)"
      (is "_ \<longleftrightarrow> ?R")
    proof
      assume "p = b"
      then show ?R using c by (simp add: frame_used_Cons)
    next
      assume r: ?R
      show "p = b"
      proof (rule linorder_cases [of p b])
        assume "p < b" then show ?thesis using r c by (simp add: frame_used_Cons)
      next
        assume "b < p"
        with r have "frame_used (w # ws) b" by blast
        with c show ?thesis by (simp add: frame_used_Cons)
      qed
    qed
    finally show ?thesis .
  qed
qed simp

lemma bitmap_find_free_None:
  "bitmap_find_free bm 0 = None \<longleftrightarrow> (\<forall>p < 32 * length bm. frame_used bm p)"
proof
  assume none: "bitmap_find_free bm 0 = None"
  show "\<forall>p < 32 * length bm. frame_used bm p"
  proof (intro allI impI)
    fix p assume "p < 32 * length bm"
    then show "frame_used bm p"
    proof (induction p rule: less_induct)
      case (less p)
      then have "\<forall>q < p. frame_used bm q" by simp
      with none less.prems bitmap_find_free_Some [of bm p] show ?case by auto
    qed
  qed
next
  assume all: "\<forall>p < 32 * length bm. frame_used bm p"
  show "bitmap_find_free bm 0 = None"
  proof (cases "bitmap_find_free bm 0")
    case (Some p)
    with all bitmap_find_free_Some [of bm p] show ?thesis by blast
  qed simp
qed

section \<open>What the operations do to the set of free frames\<close>

lemma finite_free_frames [simp]: "finite (free_frames s)"
  by (rule finite_subset [of _ "{..<32 * length (pmm_bitmap s)}"]) (auto simp: free_frames_def)

lemma free_frames_bound: "pmm_inv s \<Longrightarrow> p \<in> free_frames s \<Longrightarrow> 1024 \<le> p \<and> p < 1048576"
  unfolding pmm_inv_def by (meson le_trans less_le_trans)

lemma unat_frame_addr: "p < 1048576 \<Longrightarrow> unat (of_nat p * 4096 :: u64) = p * 4096"
  using unat_of_nat_64 [of "p * 4096"] by simp

lemma frame_addr_div: "p < 1048576 \<Longrightarrow> (of_nat p * 4096 :: u64) div 4096 = of_nat p"
  by (simp add: word_unat_eq_iff unat_div unat_frame_addr unat_of_nat_64)

lemma page_aligned_frame: "p < 1048576 \<Longrightarrow> page_aligned (of_nat p * 4096)"
  by (simp add: page_aligned_def unat_frame_addr)

lemma pmm_init_loop_ok:
  assumes "\<forall>p \<in> set ps. p < 32 * length bm"
  obtains bm' where "pmm_init_loop ps bm n = Inr (bm', n + of_nat (length ps))"
    "length bm' = length bm" "\<And>q. frame_used bm' q \<longleftrightarrow> q \<notin> set ps \<and> frame_used bm q"
  using assms
proof (induction ps arbitrary: bm n thesis)
  case Nil
  show ?case by (rule Nil.prems(1) [of bm]) simp_all
next
  case (Cons p ps)
  from Cons.prems(2) have "p < 32 * length bm" by simp
  then obtain b1 where b1: "bitmap_clear p bm = Inr b1" "length b1 = length bm"
      "\<And>q. frame_used b1 q \<longleftrightarrow> q \<noteq> p \<and> frame_used bm q"
    by (rule bitmap_clear_Inr) blast
  have "\<forall>q \<in> set ps. q < 32 * length b1" using Cons.prems(2) b1(2) by simp
  then obtain b2 where b2: "pmm_init_loop ps b1 (n + 1) = Inr (b2, n + 1 + of_nat (length ps))"
      "length b2 = length b1" "\<And>q. frame_used b2 q \<longleftrightarrow> q \<notin> set ps \<and> frame_used b1 q"
    using Cons.IH [of b1 "n + 1"] by blast
  show ?case
    by (rule Cons.prems(1) [of b2]) (use b1 b2 in \<open>auto simp: algebra_simps\<close>)
qed

lemma pmm_init_loop_out_of_bounds:
  assumes "p \<in> set ps" and "32 * length bm \<le> p"
  shows "pmm_init_loop ps bm n = Inl OutOfBounds"
  using assms
proof (induction ps arbitrary: bm n)
  case (Cons q ps)
  show ?case
  proof (cases "q < 32 * length bm")
    case True
    then obtain b1 where "bitmap_clear q bm = Inr b1" "length b1 = length bm"
      by (rule bitmap_clear_Inr) blast
    with True Cons show ?thesis by auto
  next
    case False
    then have "bitmap_clear q bm = Inl OutOfBounds"
      by (simp add: bitmap_clear_def Let_def bitmap_index)
    then show ?thesis by simp
  qed
qed simp

lemma pmm_init_ok:
  fixes s :: "'a pmm_scheme"
  assumes "memory_size \<le> 0x100000000"
  obtains s' where "pmm_init memory_size s = Inr s'" "pmm_inv s'"
    "free_frames s' = {1024..<unat memory_size div 4096}"
    "unat (pmm_total_pages s') = unat memory_size div 4096"
    "phys_mem s' = phys_mem s"
proof -
  let ?t = "unat memory_size div 4096"
  let ?bm = "replicate 32768 (0xFFFFFFFF :: u32)"
  have t: "?t \<le> 1048576"
    using assms by (simp add: word_le_nat_alt)
  have ones: "frame_used ?bm q" if "q < 1048576" for q
  proof -
    have "bit (0xFFFFFFFF :: u32) (q mod 32)"
      using all_bits_set_iff [of "0xFFFFFFFF :: u32"] by simp
    then show ?thesis using that by (simp add: frame_used_def)
  qed
  obtain bm' where bm': "pmm_init_loop [1024..<?t] ?bm 0 = Inr (bm', of_nat (?t - 1024))"
      "length bm' = 32768" "\<And>q. frame_used bm' q \<longleftrightarrow> q \<notin> {1024..<?t} \<and> frame_used ?bm q"
    using pmm_init_loop_ok [of "[1024..<?t]" ?bm 0] t by auto
  define s0 where "s0 = s\<lparr>pmm_bitmap := bm', pmm_total_pages := memory_size div 4096,
    pmm_free_pages := of_nat (?t - 1024), pmm_reserved_pages := 1024\<rparr>"
  define s' where "s' = terminal_writestring '' MB free\<newline>'' (terminal_writestring '' MB total, ''
    (terminal_writestring ''PMM initialized: '' s0))"
  have init: "pmm_init memory_size s = Inr s'"
    using bm'(1) t by (simp add: pmm_init_def Let_def unat_div s'_def s0_def)
  have fields: "pmm_bitmap s' = bm'" "pmm_total_pages s' = memory_size div 4096"
      "pmm_free_pages s' = of_nat (?t - 1024)" "phys_mem s' = phys_mem s"
    by (simp_all add: s'_def s0_def terminal_writestring_eq)
  have free: "free_frames s' = {1024..<?t}"
    using bm' ones t by (auto simp: free_frames_def fields)
  have "pmm_inv s'"
    using bm'(2) t free by (simp add: pmm_inv_def fields unat_div unat_of_nat_64)
  show ?thesis
    by (rule that [OF init \<open>pmm_inv s'\<close> free]) (simp_all add: fields unat_div)
qed

lemma pmm_alloc_page_null:
  "free_frames s = {} \<Longrightarrow> pmm_alloc_page s = (0, s)"
proof -
  assume "free_frames s = {}"
  then have "bitmap_find_free (pmm_bitmap s) 0 = None"
    by (auto simp: bitmap_find_free_None free_frames_def)
  then show ?thesis by (simp add: pmm_alloc_page_def)
qed

lemma pmm_alloc_page_some:
  fixes s :: "'a pmm_scheme"
  assumes inv: "pmm_inv s" and "free_frames s \<noteq> {}"
  defines "p \<equiv> Min (free_frames s)"
  obtains s' where "pmm_alloc_page s = (of_nat p * 4096, s')" "pmm_inv s'"
    "free_frames s' = free_frames s - {p}"
    "phys_mem s' = clear_words (phys_mem s) (of_nat p * 4096) 512"
    "pmm_total_pages s' = pmm_total_pages s" "pmm_free_pages s' = pmm_free_pages s - 1"
    "p \<in> free_frames s"
proof -
  have p: "p \<in> free_frames s" "\<And>q. q \<in> free_frames s \<Longrightarrow> p \<le> q"
    using assms by (simp_all add: p_def)
  then have used: "p < 32 * length (pmm_bitmap s)" "\<not> frame_used (pmm_bitmap s) p"
    by (simp_all add: free_frames_def)
  have "frame_used (pmm_bitmap s) q" if "q < p" for q
    using p(2) [of q] that used(1) by (auto simp: free_frames_def)
  with used have find: "bitmap_find_free (pmm_bitmap s) 0 = Some p"
    by (simp add: bitmap_find_free_Some)
  define s' where "s' = s\<lparr>pmm_bitmap := bitmap_set p (pmm_bitmap s),
    pmm_free_pages := pmm_free_pages s - 1,
    phys_mem := clear_words (phys_mem s) (of_nat p * 4096) 512\<rparr>"
  have alloc: "pmm_alloc_page s = (of_nat p * 4096, s')"
    by (simp add: pmm_alloc_page_def find s'_def Let_def)
  have free: "free_frames s' = free_frames s - {p}"
    using used by (auto simp: free_frames_def s'_def bitmap_simps)
  have "card (free_frames s) \<noteq> 0" using p(1) by auto
  with inv have "unat (pmm_free_pages s - 1) = card (free_frames s) - 1"
    by (subst unat_minus_one) (auto simp: pmm_inv_def)
  with inv free p(1) have inv': "pmm_inv s'"
    by (simp add: pmm_inv_def s'_def)
  show ?thesis
    by (rule that [OF alloc inv' free]) (simp_all add: s'_def p(1))
qed

text \<open>Releasing a frame: the three panics and the normal case.\<close>

lemma pmm_free_page_cases:
  fixes s :: "'a pmm_scheme"
  assumes inv: "pmm_inv s"
  shows "pmm_free_page addr s =
    (if \<not> page_aligned addr \<or> addr < 0x400000 then Inl (Panic ''pmm_free_page: Invalid page address'')
     else if unat (pmm_total_pages s) \<le> unat addr div 4096 then
       Inl (Panic ''pmm_free_page: Page out of range'')
     else if unat addr div 4096 \<in> free_frames s then
       Inl (Panic ''pmm_free_page: Double free detected'')
     else bind_res (bitmap_clear (unat addr div 4096) (pmm_bitmap s)) (\<lambda>bm'.
       Inr (s\<lparr>pmm_bitmap := bm', pmm_free_pages := pmm_free_pages s + 1\<rparr>)))"
proof -
  have al: "page_aligned addr \<longleftrightarrow> addr mod 4096 = 0"
    by (simp add: page_aligned_def word_unat_eq_iff unat_mod dvd_eq_mod_eq_0)
  have "unat addr div 4096 < 1048576" if "unat addr div 4096 < unat (pmm_total_pages s)"
    using that inv by (simp add: pmm_inv_def)
  with inv show ?thesis
    by (auto simp: pmm_free_page_def Let_def al word_le_nat_alt unat_div bitmap_test_eq
        pmm_inv_def free_frames_def)
qed

lemma pmm_free_page_ok:
  fixes s :: "'a pmm_scheme"
  assumes inv: "pmm_inv s" and "page_aligned addr" "0x400000 \<le> addr"
    and range: "unat addr div 4096 < unat (pmm_total_pages s)"
    and used: "unat addr div 4096 \<notin> free_frames s"
  obtains s' where "pmm_free_page addr s = Inr s'" "pmm_inv s'"
    "free_frames s' = insert (unat addr div 4096) (free_frames s)"
    "phys_mem s' = phys_mem s" "pmm_total_pages s' = pmm_total_pages s"
proof -
  let ?p = "unat addr div 4096"
  have p: "?p < 1048576" "1024 \<le> ?p"
    using range inv assms(3) by (simp_all add: pmm_inv_def word_le_nat_alt)
  then have "?p < 32 * length (pmm_bitmap s)" using inv by (simp add: pmm_inv_def)
  then obtain bm' where bm': "bitmap_clear ?p (pmm_bitmap s) = Inr bm'"
      "length bm' = length (pmm_bitmap s)"
      "\<And>q. frame_used bm' q \<longleftrightarrow> q \<noteq> ?p \<and> frame_used (pmm_bitmap s) q"
    by (rule bitmap_clear_Inr) blast
  define s' where "s' = s\<lparr>pmm_bitmap := bm', pmm_free_pages := pmm_free_pages s + 1\<rparr>"
  have res: "pmm_free_page addr s = Inr s'"
    using assms bm'(1) by (simp add: pmm_free_page_cases s'_def)
  have free: "free_frames s' = insert ?p (free_frames s)"
    using bm' inv p by (auto simp: free_frames_def s'_def pmm_inv_def)
  have "free_frames s \<subseteq> {..<1048576}"
    using inv by (auto dest: free_frames_bound)
  then have "card (free_frames s) \<le> 1048576"
    using card_mono [of "{..<1048576::nat}" "free_frames s"] by simp
  with inv have "unat (pmm_free_pages s + 1) = card (free_frames s) + 1"
    by (subst unat_add_no_wrap) (simp_all add: pmm_inv_def)
  with inv free used range p have "pmm_inv s'"
    by (simp add: pmm_inv_def) (simp add: s'_def bm'(2))
  then show ?thesis
    by (intro that [OF res _ free]) (simp_all add: s'_def)
qed

lemma clear_frames_bytes:
  assumes "p + n \<le> 1048576"
  shows "clear_words m (of_nat p * 4096) (512 * n) b = (if p \<le> unat b div 4096 \<and> unat b div 4096 < p + n then 0 else m b)"
proof (cases "n = 0")
  case True
  then show ?thesis by (auto simp: clear_words_apply)
next
  case False
  let ?a = "of_nat p * 4096 :: u64"
  have a: "unat ?a = p * 4096" using assms False by (intro unat_frame_addr) simp
  have "unat (b - ?a) < 4096 * n \<longleftrightarrow> p * 4096 \<le> unat b \<and> unat b < (p + n) * 4096"
    using assms unat_less_64 [of b] unfolding unat_diff_64 a by (auto simp: algebra_simps)
  also have "\<dots> \<longleftrightarrow> p \<le> unat b div 4096 \<and> unat b div 4096 < p + n"
    by (simp add: less_eq_div_iff_mult_less_eq div_less_iff_less_mult)
  finally show ?thesis using assms by (simp add: clear_words_apply)
qed

lemmas clear_frame_bytes = clear_frames_bytes [where n = 1, simplified]

section \<open>Runs of frames\<close>

definition free_run :: "u32 list \<Rightarrow> nat \<Rightarrow> nat \<Rightarrow> bool" where
  "free_run bm q n \<longleftrightarrow> (\<forall>i < n. \<not> frame_used bm (q + i))"

lemma pages_all_free_eq:
  assumes "\<forall>i \<in> set is. unat (start + of_nat i) < 32 * length bm"
  shows "pages_all_free start is bm = Inr (\<forall>i \<in> set is. \<not> frame_used bm (unat (start + of_nat i)))"
  using assms by (induction "is") (auto simp: bitmap_test_eq)

lemma find_run_cases:
  assumes "unat start + unat count < 18446744073709551616"
    and "unat limit \<le> 32 * length bm" and "32 * length bm < 18446744073709551616 - 1"
    and "unat limit + 2 \<le> fuel + (unat start + unat count)" and "fuel \<noteq> 0"
  shows "(\<exists>q. find_run fuel start count limit bm = Inr (Some (of_nat q)) \<and> unat start \<le> q \<and>
            q + unat count \<le> unat limit \<and> free_run bm q (unat count) \<and>
            (\<forall>r. unat start \<le> r \<and> r < q \<longrightarrow> \<not> free_run bm r (unat count)))
       \<or> find_run fuel start count limit bm = Inr None \<and>
            (\<forall>q. unat start \<le> q \<and> q + unat count \<le> unat limit \<longrightarrow> \<not> free_run bm q (unat count))"
  using assms
proof (induction fuel arbitrary: start)
  case (Suc fuel)
  have sum: "unat (start + count) = unat start + unat count"
    using Suc.prems(1) by (intro unat_add_no_wrap) simp
  show ?case
  proof (cases "start + count \<le> limit")
    case False
    then have "unat limit < unat start + unat count" using sum by (simp add: word_le_nat_alt)
    with False show ?thesis by auto
  next
    case True
    then have le: "unat start + unat count \<le> unat limit" using sum by (simp add: word_le_nat_alt)
    have idx: "unat (start + of_nat i) = unat start + i" if "i < unat count" for i
    proof -
      have "unat (of_nat i :: u64) = i" using that by (intro unat_of_nat_64) (meson less_trans unat_less_64)
      with that Suc.prems(1) show ?thesis by (subst unat_add_no_wrap) simp_all
    qed
    have all: "pages_all_free start [0..<unat count] bm = Inr (free_run bm (unat start) (unat count))"
      using le Suc.prems(2) idx by (subst pages_all_free_eq) (auto simp: free_run_def)
    show ?thesis
    proof (cases "free_run bm (unat start) (unat count)")
      case run: True
      have "find_run (Suc fuel) start count limit bm = Inr (Some (of_nat (unat start)))"
        using True all run by simp
      with run le show ?thesis by (intro disjI1 exI [of _ "unat start"]) auto
    next
      case no_run: False
      have s1: "unat (start + 1) = unat start + 1"
        using le Suc.prems(2,3) by (subst unat_add_no_wrap) auto
      have step: "find_run (Suc fuel) start count limit bm = find_run fuel (start + 1) count limit bm"
        using True all no_run by simp
      have "unat (start + 1) + unat count < 18446744073709551616"
        using le s1 Suc.prems(2,3) by linarith
      moreover have "unat limit + 2 \<le> fuel + (unat (start + 1) + unat count)"
        using s1 Suc.prems(4) by simp
      moreover have "fuel \<noteq> 0" using le Suc.prems(4) by auto
      ultimately have IH: "(\<exists>q. find_run fuel (start + 1) count limit bm = Inr (Some (of_nat q)) \<and>
            unat start + 1 \<le> q \<and> q + unat count \<le> unat limit \<and> free_run bm q (unat count) \<and>
            (\<forall>r. unat start + 1 \<le> r \<and> r < q \<longrightarrow> \<not> free_run bm r (unat count)))
          \<or> find_run fuel (start + 1) count limit bm = Inr None \<and>
            (\<forall>q. unat start + 1 \<le> q \<and> q + unat count \<le> unat limit \<longrightarrow> \<not> free_run bm q (unat count))"
        using Suc.IH [of "start + 1"] Suc.prems(2,3) unfolding s1 by blast
      have later: "unat start + 1 \<le> r" if "unat start \<le> r" "free_run bm r (unat count)" for r
        using that no_run by (cases "r = unat start") simp_all
      from IH show ?thesis
      proof
        assume "\<exists>q. find_run fuel (start + 1) count limit bm = Inr (Some (of_nat q)) \<and>
            unat start + 1 \<le> q \<and> q + unat count \<le> unat limit \<and> free_run bm q (unat count) \<and>
            (\<forall>r. unat start + 1 \<le> r \<and> r < q \<longrightarrow> \<not> free_run bm r (unat count))"
        then show ?thesis using later by (metis (no_types) add_leD1 step)
      qed (use later step in metis)
    qed
  qed
qed simp

lemma frame_used_set_run:
  assumes "q + n \<le> 32 * length bm" and "\<forall>i < n. f i = q + i"
  shows "length (fold (\<lambda>i. bitmap_set (f i)) [0..<n] bm) = length bm \<and>
    (\<forall>r. frame_used (fold (\<lambda>i. bitmap_set (f i)) [0..<n] bm) r \<longleftrightarrow> r \<in> {q..<q + n} \<or> frame_used bm r)"
  using assms by (induction n) (auto simp: frame_used_bitmap_set)

lemma card_free_frames: "pmm_inv s \<Longrightarrow> card (free_frames s) \<le> 1048576"
  using card_mono [of "{..<1048576::nat}" "free_frames s"] by (auto dest: free_frames_bound)

lemma free_run_frames:
  assumes "length (pmm_bitmap s) = 32768" and "q + n \<le> 1048576"
  shows "free_run (pmm_bitmap s) q n \<longleftrightarrow> {q..<q + n} \<subseteq> free_frames s"
proof -
  have "{q..<q + n} \<subseteq> free_frames s \<longleftrightarrow> (\<forall>i < n. q + i \<in> free_frames s)"
    by (auto simp: subset_iff) (metis le_Suc_ex nat_add_left_cancel_less)
  with assms show ?thesis by (auto simp: free_run_def free_frames_def)
qed

lemma pmm_alloc_pages_none:
  fixes s :: "'a pmm_scheme"
  assumes inv: "pmm_inv s" and "count \<noteq> 0" and "unat count \<le> 18446744073709549568"
    and none: "\<nexists>q. {q..<q + unat count} \<subseteq> free_frames s"
  shows "pmm_alloc_pages count s = Inr (0, s)"
proof -
  let ?t = "unat (pmm_total_pages s)"
  have bm: "length (pmm_bitmap s) = 32768" "?t \<le> 1048576" using inv by (simp_all add: pmm_inv_def)
  have no: "\<not> free_run (pmm_bitmap s) q (unat count)" if "q + unat count \<le> ?t" for q
    using that none bm free_run_frames [of s q "unat count"] by auto
  have "find_run (?t + 2) 1024 count (pmm_total_pages s) (pmm_bitmap s) = Inr None"
    using find_run_cases [of 1024 count "pmm_total_pages s" "pmm_bitmap s" "?t + 2"] bm assms(3) no
    by auto
  with assms(2) show ?thesis by (simp add: pmm_alloc_pages_def)
qed

lemma pmm_alloc_pages_some:
  fixes s :: "'a pmm_scheme"
  assumes inv: "pmm_inv s" and "count \<noteq> 0"
    and some: "{r..<r + unat count} \<subseteq> free_frames s"
  obtains q s' where "pmm_alloc_pages count s = Inr (of_nat q * 4096, s')" "q \<le> r"
    "{q..<q + unat count} \<subseteq> free_frames s" "pmm_inv s'"
    "free_frames s' = free_frames s - {q..<q + unat count}"
    "phys_mem s' = clear_words (phys_mem s) (of_nat q * 4096) (512 * unat count)"
    "pmm_total_pages s' = pmm_total_pages s"
proof -
  let ?t = "unat (pmm_total_pages s)" and ?n = "unat count" and ?bm = "pmm_bitmap s"
  have bm: "length ?bm = 32768" "?t \<le> 1048576" using inv by (simp_all add: pmm_inv_def)
  have n0: "?n \<noteq> 0" using assms(2) by (simp add: unat_eq_0)
  then have "r \<in> free_frames s" "r + (?n - 1) \<in> free_frames s" using some by (auto simp: subset_iff)
  then have r: "1024 \<le> r" "r + ?n \<le> ?t" using inv n0 unfolding pmm_inv_def by force+
  have run: "free_run ?bm r ?n" using some r bm free_run_frames [of s r ?n] by simp
  obtain q where q: "find_run (?t + 2) 1024 count (pmm_total_pages s) ?bm = Inr (Some (of_nat q))"
      "1024 \<le> q" "q + ?n \<le> ?t" "free_run ?bm q ?n" "\<forall>r. 1024 \<le> r \<and> r < q \<longrightarrow> \<not> free_run ?bm r ?n"
    using find_run_cases [of 1024 count "pmm_total_pages s" ?bm "?t + 2"] bm r run by auto
  have qr: "q \<le> r" using q(5) run r(1) by (meson not_le)
  have sub: "{q..<q + ?n} \<subseteq> free_frames s" using q bm free_run_frames [of s q ?n] by simp
  define bm' where "bm' = fold (\<lambda>i. bitmap_set (unat (of_nat q + of_nat i :: u64))) [0..<?n] ?bm"
  have idx: "unat (of_nat q + of_nat i :: u64) = q + i" if "i < ?n" for i
    using unat_of_nat_64 [of "q + i"] that q(3) bm by simp
  have bm': "length bm' = 32768" "\<And>r. frame_used bm' r \<longleftrightarrow> r \<in> {q..<q + ?n} \<or> frame_used ?bm r"
    using frame_used_set_run [of q ?n ?bm "\<lambda>i. unat (of_nat q + of_nat i :: u64)"] idx q(3) bm
    unfolding bm'_def by simp_all
  have len: "unat (count * 4096 div 8) = 512 * ?n"
  proof -
    have "unat (count * 4096) = ?n * 4096"
      using unat_frame_addr [of ?n] q(3) bm n0 q(2) by simp
    then show ?thesis by (simp add: unat_div)
  qed
  define s' where "s' = s\<lparr>pmm_bitmap := bm', pmm_free_pages := pmm_free_pages s - count,
      phys_mem := clear_words (phys_mem s) (of_nat q * 4096) (512 * ?n)\<rparr>"
  have res: "pmm_alloc_pages count s = Inr (of_nat q * 4096, s')"
    using assms(2) q(1) len by (simp add: pmm_alloc_pages_def s'_def bm'_def Let_def)
  have free: "free_frames s' = free_frames s - {q..<q + ?n}"
    by (rule set_eqI) (simp add: free_frames_def s'_def bm(1) bm' conj_ac)
  have "?n \<le> card (free_frames s)" using card_mono [OF finite_free_frames sub] by simp
  then have card: "unat (pmm_free_pages s - count) = card (free_frames s - {q..<q + ?n})"
    using inv sub by (subst unat_sub) (auto simp: pmm_inv_def word_le_nat_alt card_Diff_subset)
  have fields: "pmm_bitmap s' = bm'" "pmm_total_pages s' = pmm_total_pages s"
      "pmm_free_pages s' = pmm_free_pages s - count" by (simp_all add: s'_def)
  have "pmm_inv s'"
    using inv bm'(1) card unfolding pmm_inv_def free fields by blast
  then show ?thesis by (intro that [OF res qr sub _ free]) (simp_all add: s'_def)
qed

lemma pmm_free_pages_loop_ok:
  fixes s :: "'a pmm_scheme"
  assumes "pmm_inv s" "1024 \<le> q" "distinct is"
    and "\<forall>i \<in> set is. q + i < unat (pmm_total_pages s) \<and> q + i \<notin> free_frames s"
  shows "\<exists>s'. pmm_free_pages_loop is (of_nat q * 4096) s = Inr s' \<and> pmm_inv s' \<and>
    free_frames s' = free_frames s \<union> (+) q ` set is \<and> phys_mem s' = phys_mem s"
  using assms
proof (induction "is" arbitrary: s)
  case (Cons i "is")
  let ?a = "of_nat q * 4096 + of_nat i * 4096 :: u64"
  have lim: "q + i < unat (pmm_total_pages s)" "q + i < 1048576"
    using Cons.prems(1,4) by (auto simp: pmm_inv_def)
  have a: "?a = of_nat (q + i) * 4096" by (simp add: algebra_simps)
  have u: "unat ?a = (q + i) * 4096" using unat_frame_addr [OF lim(2)] unfolding a .
  have "page_aligned ?a" "0x400000 \<le> ?a" "unat ?a div 4096 < unat (pmm_total_pages s)"
      "unat ?a div 4096 \<notin> free_frames s"
    using Cons.prems lim(1) by (simp_all add: page_aligned_def word_le_nat_alt u)
  with Cons.prems(1) obtain t where t: "pmm_free_page ?a s = Inr t" "pmm_inv t"
      "free_frames t = insert (unat ?a div 4096) (free_frames s)" "phys_mem t = phys_mem s"
      "pmm_total_pages t = pmm_total_pages s"
    by (rule pmm_free_page_ok)
  have ft: "free_frames t = insert (q + i) (free_frames s)" using t(3) u by simp
  have "\<forall>j \<in> set is. q + j < unat (pmm_total_pages t) \<and> q + j \<notin> free_frames t"
    using Cons.prems(3,4) t(5) ft by auto
  with Cons.IH [OF t(2) Cons.prems(2)] Cons.prems(3) obtain s' where
    "pmm_free_pages_loop is (of_nat q * 4096) t = Inr s'" "pmm_inv s'"
    "free_frames s' = free_frames t \<union> (+) q ` set is" "phys_mem s' = phys_mem t" by auto
  with t(1,4) ft show ?case by auto
qed simp

section \<open>The contract of the allocator\<close>

text \<open>
  What the page-table code relies on: a successful allocation hands out a free frame, aligned
  and non-null, takes it out of the free set and clears it; without free frames the result is
  NULL and nothing changes.
\<close>

locale frame_allocator =
  fixes alloc :: "'s \<Rightarrow> u64 \<times> 's" and frames :: "'s \<Rightarrow> u64 set"
    and mem :: "'s \<Rightarrow> pmem" and ok :: "'s \<Rightarrow> bool"
  assumes alloc_null: "ok s \<Longrightarrow> frames s = {} \<Longrightarrow> alloc s = (0, s)"
    and alloc_frame: "ok s \<Longrightarrow> frames s \<noteq> {} \<Longrightarrow> alloc s = (a, s') \<Longrightarrow>
      a \<in> frames s \<and> frames s' = frames s - {a} \<and> ok s' \<and> mem s' = clear_words (mem s) a 512"
    and frame_addr: "ok s \<Longrightarrow> a \<in> frames s \<Longrightarrow> page_aligned a \<and> a \<noteq> 0"
begin

lemma alloc_ok: "ok s \<Longrightarrow> alloc s = (a, s') \<Longrightarrow> ok s'"
  using alloc_null alloc_frame by (metis prod.inject)

lemma alloc_zero: "ok s \<Longrightarrow> alloc s = (0, s') \<Longrightarrow> frames s = {} \<and> s' = s"
  using alloc_null alloc_frame frame_addr by (metis prod.inject)

lemma alloc_taken:
  assumes "ok s" "alloc s = (a, s')" "a \<noteq> 0"
  shows "a \<in> frames s" "a \<notin> frames s'" "frames s' = frames s - {a}" "page_aligned a"
    "mem s' = clear_words (mem s) a 512"
proof -
  have "frames s \<noteq> {}" using assms alloc_null by fastforce
  with assms alloc_frame [of s a s'] frame_addr [of s a]
  show "a \<in> frames s" "a \<notin> frames s'" "frames s' = frames s - {a}" "page_aligned a"
    "mem s' = clear_words (mem s) a 512" by auto
qed

lemma alloc_frames_mono: "ok s \<Longrightarrow> alloc s = (a, s') \<Longrightarrow> frames s' \<subseteq> frames s"
  using alloc_zero alloc_taken(3) by (cases "a = 0") auto

lemma new_table_empty:
  assumes "ok s" "alloc s = (a, s')" "a \<noteq> 0" "i < 512"
  shows "entry (mem s') a i = 0"
  using alloc_taken [OF assms(1-3)] assms(4) by (simp add: entry_clear_page)

lemma other_table_kept:
  assumes "ok s" "alloc s = (a, s')" "page_aligned t" "t \<notin> frames s" "i < 512"
  shows "entry (mem s') t i = entry (mem s) t i"
proof (cases "a = 0")
  case True
  then show ?thesis using alloc_zero assms(1,2) by blast
next
  case False
  with alloc_taken [OF assms(1,2)] assms(3-5) show ?thesis
    by (subst (1) \<open>a \<noteq> 0 \<Longrightarrow> mem s' = clear_words (mem s) a 512\<close>) (auto simp: entry_clear_page)
qed

text \<open>A sequence of allocations never hands out a frame twice.\<close>

primrec alloc_seq :: "nat \<Rightarrow> 's \<Rightarrow> u64 list \<times> 's" where
  "alloc_seq 0 s = ([], s)"
| "alloc_seq (Suc n) s = (case alloc s of (a, s') \<Rightarrow> case alloc_seq n s' of (as, s'') \<Rightarrow> (a # as, s''))"

lemma alloc_seq_distinct:
  "ok s \<Longrightarrow> alloc_seq n s = (as, s') \<Longrightarrow> 0 \<notin> set as \<Longrightarrow>
     distinct as \<and> set as \<subseteq> frames s \<and> frames s' = frames s - set as \<and> ok s'"
proof (induction n arbitrary: s as)
  case (Suc n)
  obtain a s1 where a: "alloc s = (a, s1)" by (cases "alloc s")
  obtain bs where bs: "alloc_seq n s1 = (bs, s')" "as = a # bs"
    using Suc.prems(2) a by (auto split: prod.splits)
  have "a \<noteq> 0" "0 \<notin> set bs" using Suc.prems(3) bs(2) by auto
  moreover have "ok s1" using alloc_ok [OF Suc.prems(1) a] .
  ultimately show ?case
    using Suc.IH [OF _ bs(1)] alloc_taken [OF Suc.prems(1) a] bs(2) by auto
qed simp

end

definition free_addrs :: "'a pmm_scheme \<Rightarrow> u64 set" where
  "free_addrs s = (\<lambda>p. of_nat p * 4096) ` free_frames s"

lemma frame_addr_inj:
  assumes "p < 1048576" "q < 1048576"
  shows "(of_nat p * 4096 :: u64) = of_nat q * 4096 \<longleftrightarrow> p = q"
proof
  assume "(of_nat p * 4096 :: u64) = of_nat q * 4096"
  then have "unat (of_nat p * 4096 :: u64) = unat (of_nat q * 4096 :: u64)" by (rule arg_cong)
  then show "p = q" unfolding unat_frame_addr [OF assms(1)] unat_frame_addr [OF assms(2)] by simp
qed (rule arg_cong)

lemma free_addrs_remove:
  assumes "pmm_inv s" "p \<in> free_frames s" "free_frames s' = free_frames s - {p}"
  shows "free_addrs s' = free_addrs s - {of_nat p * 4096}"
  using assms(2,3) free_frames_bound [OF assms(1)] frame_addr_inj unfolding free_addrs_def by blast

interpretation frames: frame_allocator pmm_alloc_page free_addrs phys_mem pmm_inv
proof
  fix s :: "'a pmm_scheme" assume inv: "pmm_inv s"
  show "pmm_alloc_page s = (0, s)" if "free_addrs s = {}"
    using that by (intro pmm_alloc_page_null) (simp add: free_addrs_def)
  show "page_aligned a \<and> a \<noteq> 0" if "a \<in> free_addrs s" for a
  proof -
    from that obtain p where p: "a = of_nat p * 4096" "1024 \<le> p" "p < 1048576"
      using free_frames_bound [OF inv] unfolding free_addrs_def by blast
    then have "unat a \<noteq> 0" by (simp add: unat_frame_addr)
    with p show ?thesis by (auto simp: page_aligned_frame)
  qed
  show "a \<in> free_addrs s \<and> free_addrs s' = free_addrs s - {a} \<and> pmm_inv s' \<and>
      phys_mem s' = clear_words (phys_mem s) a 512"
    if ne: "free_addrs s \<noteq> {}" and al: "pmm_alloc_page s = (a, s')" for a s'
  proof -
    have "free_frames s \<noteq> {}" using ne by (simp add: free_addrs_def)
    from inv this obtain t where t: "pmm_alloc_page s = (of_nat (Min (free_frames s)) * 4096, t)"
        "pmm_inv t" "free_frames t = free_frames s - {Min (free_frames s)}"
        "phys_mem t = clear_words (phys_mem s) (of_nat (Min (free_frames s)) * 4096) 512"
        "Min (free_frames s) \<in> free_frames s"
      by (rule pmm_alloc_page_some) blast
    from al t(1) have eq: "a = of_nat (Min (free_frames s)) * 4096" "s' = t" by simp_all
    have "a \<in> free_addrs s" unfolding free_addrs_def eq using t(5) by (rule imageI)
    moreover have "free_addrs t = free_addrs s - {a}"
      unfolding eq using inv t(5,3) by (rule free_addrs_remove)
    ultimately show ?thesis using t(2,4) eq by simp
  qed
qed

section \<open>Correctness\<close>

text \<open>The statics before \<open>pmm_init\<close> runs: zero-initialised.\<close>

definition pmm_boot :: pmm where
  "pmm_boot = \<lparr>phys_mem = \<lambda>_. 0, console = [], pmm_bitmap = replicate 32768 0,
     pmm_total_pages = 0, pmm_free_pages = 0, pmm_reserved_pages = 0\<rparr>"

text \<open>
  For a memory of at most 4 GiB, \<open>pmm_init\<close> returns with exactly the frames from
  \<open>PMM_START\<close> to the end of memory free, the bitmap and the counters consistent, and the
  statistics reporting those numbers; memory itself is not touched.
\<close>

theorem pmm_init_correct:
  assumes "memory_size \<le> 0x100000000"
  shows "\<exists>s'. pmm_init memory_size s = Inr s' \<and> pmm_inv s' \<and>
    free_frames s' = {1024..<unat memory_size div 4096} \<and> phys_mem s' = phys_mem s \<and>
    (case pmm_get_stats s' of (total_pages, free_pages, used_pages) \<Rightarrow>
      unat total_pages = unat memory_size div 4096 \<and>
      unat free_pages = unat memory_size div 4096 - 1024 \<and>
      unat used_pages = min 1024 (unat memory_size div 4096))"
proof -
  let ?t = "unat memory_size div 4096"
  obtain s' where s': "pmm_init memory_size s = Inr s'" "pmm_inv s'" "free_frames s' = {1024..<?t}"
      "unat (pmm_total_pages s') = ?t" "phys_mem s' = phys_mem s"
    using assms by (rule pmm_init_ok)
  then have free: "unat (pmm_free_pages s') = ?t - 1024" by (simp add: pmm_inv_def)
  then have "pmm_free_pages s' \<le> pmm_total_pages s'" using s'(4) by (simp add: word_le_nat_alt)
  then have "unat (pmm_total_pages s' - pmm_free_pages s') = ?t - (?t - 1024)"
    using free s'(4) by (simp add: unat_sub)
  moreover have "?t - (?t - 1024) = min 1024 ?t" by linarith
  ultimately show ?thesis using s' free by (simp add: pmm_get_stats_def)
qed

theorem pmm_init_correct_witness:
  "\<exists>s'. pmm_init 0x4000000 pmm_boot = Inr s' \<and> pmm_inv s' \<and> free_frames s' = {1024..<16384}"
proof -
  have "(0x4000000 :: u64) \<le> 0x100000000" by simp
  from pmm_init_correct [OF this, of pmm_boot] show ?thesis by auto
qed

text \<open>
  \<open>pmm_init\<close> limits the number of frames to \<open>BITMAP_SIZE * 32\<close>, but the bitmap holds
  \<open>BITMAP_SIZE * 8\<close> bits: as soon as memory has one frame beyond 4 GiB the initialisation
  writes outside the bitmap.
\<close>

theorem pmm_init_overrun:
  assumes "0x100001000 \<le> memory_size"
  shows "pmm_init memory_size s = Inl OutOfBounds"
proof -
  let ?t = "unat (memory_size div 4096)"
  let ?last = "if 4194304 < ?t then 4194304 else ?t"
  have "4294971392 \<le> unat memory_size" using assms by (simp add: word_le_nat_alt)
  then have "1048577 \<le> ?t" using div_le_mono [of 4294971392 "unat memory_size" 4096]
    by (simp add: unat_div)
  then have "1048576 \<in> set [1024..<?last]" by simp
  then have loop: "pmm_init_loop [1024..<?last] (replicate 32768 0xFFFFFFFF) 0 = Inl OutOfBounds"
    by (rule pmm_init_loop_out_of_bounds) simp
  have sizes: "128 * 1024 * 32 = (4194304 :: nat)" "128 * 1024 div 4 = (32768 :: nat)"
    "0x400000 div 4096 = (1024 :: nat)" by simp_all
  show ?thesis unfolding pmm_init_def Let_def sizes loop by simp
qed

theorem pmm_init_overrun_witness: "pmm_init 0x200000000 pmm_boot = Inl OutOfBounds"
  by (rule pmm_init_overrun) simp

text \<open>
  C20: \<open>pmm_alloc_page\<close> returns NULL and changes nothing when no frame is free; otherwise it
  returns the lowest free frame, marks exactly that frame used, clears its 4096 bytes and no
  other byte of memory, and keeps the bitmap and the counters consistent.
\<close>

theorem pmm_alloc_page_correct:
  assumes "pmm_inv s"
  shows "if free_frames s = {} then pmm_alloc_page s = (0, s)
    else \<exists>s'. pmm_alloc_page s = (of_nat (Min (free_frames s)) * 4096, s') \<and> pmm_inv s' \<and>
      Min (free_frames s) \<in> free_frames s \<and>
      free_frames s' = free_frames s - {Min (free_frames s)} \<and>
      pmm_total_pages s' = pmm_total_pages s \<and> pmm_free_pages s' = pmm_free_pages s - 1 \<and>
      (\<forall>a. phys_mem s' a = (if unat a div 4096 = Min (free_frames s) then 0 else phys_mem s a))"
proof (cases "free_frames s = {}")
  case False
  let ?p = "Min (free_frames s)"
  from assms False obtain s' where s': "pmm_alloc_page s = (of_nat ?p * 4096, s')" "pmm_inv s'"
    "free_frames s' = free_frames s - {?p}" "phys_mem s' = clear_words (phys_mem s) (of_nat ?p * 4096) 512"
    "pmm_total_pages s' = pmm_total_pages s" "pmm_free_pages s' = pmm_free_pages s - 1"
    "?p \<in> free_frames s" by (rule pmm_alloc_page_some) blast
  have p: "?p < 1048576" using free_frames_bound [OF assms s'(7)] by simp
  have "phys_mem s' a = (if unat a div 4096 = ?p then 0 else phys_mem s a)" for a
    using p unfolding s'(4) by (simp add: clear_frame_bytes)
  with s' False show ?thesis by simp
qed (simp add: pmm_alloc_page_null)

lemma pmm_boot_inv: "pmm_init 0x4000000 pmm_boot = Inr s \<Longrightarrow> pmm_inv s \<and> free_frames s = {1024..<16384}"
proof -
  have "(0x4000000 :: u64) \<le> 0x100000000" by simp
  then obtain t where "pmm_init 0x4000000 pmm_boot = Inr t" "pmm_inv t" "free_frames t = {1024..<16384}"
    by (rule pmm_init_ok [of _ pmm_boot]) simp
  then show "pmm_init 0x4000000 pmm_boot = Inr s \<Longrightarrow> pmm_inv s \<and> free_frames s = {1024..<16384}" by simp
qed

lemma pmm_boot_ok: "\<exists>s. pmm_init 0x4000000 pmm_boot = Inr s"
proof -
  have "(0x4000000 :: u64) \<le> 0x100000000" by simp
  then show ?thesis by (rule pmm_init_ok [of _ pmm_boot]) blast
qed

theorem pmm_alloc_page_correct_witness:
  "\<exists>s s'. pmm_init 0x4000000 pmm_boot = Inr s \<and> pmm_alloc_page s = (0x400000, s') \<and>
     free_frames s' = {1025..<16384}"
proof -
  obtain s where s: "pmm_init 0x4000000 pmm_boot = Inr s" using pmm_boot_ok by blast
  with pmm_boot_inv have inv: "pmm_inv s" "free_frames s = {1024..<16384}" by blast+
  have min: "Min {1024..<16384::nat} = 1024" by (rule Min_eqI) auto
  have "{1024..<16384} - {1024} = {1025..<16384::nat}" by auto
  with pmm_alloc_page_correct [OF inv(1)] s inv(2) min show ?thesis by auto
qed

text \<open>
  C40: releasing a frame.  An address that is not page aligned or lies below \<open>PMM_START\<close>, an
  address beyond the end of memory and a frame that is already free each end in their own
  panic; every other call returns, adds exactly that frame to the free set and leaves memory
  alone.
\<close>

theorem pmm_free_page_correct:
  assumes "pmm_inv s"
  shows "if \<not> page_aligned addr \<or> unat addr < PMM_START then
       pmm_free_page addr s = Inl (Panic ''pmm_free_page: Invalid page address'')
     else if unat (pmm_total_pages s) \<le> unat addr div PAGE_SIZE then
       pmm_free_page addr s = Inl (Panic ''pmm_free_page: Page out of range'')
     else if unat addr div PAGE_SIZE \<in> free_frames s then
       pmm_free_page addr s = Inl (Panic ''pmm_free_page: Double free detected'')
     else \<exists>s'. pmm_free_page addr s = Inr s' \<and> pmm_inv s' \<and> phys_mem s' = phys_mem s \<and>
       pmm_total_pages s' = pmm_total_pages s \<and>
       free_frames s' = insert (unat addr div PAGE_SIZE) (free_frames s)"
proof -
  have below: "unat addr < PMM_START \<longleftrightarrow> addr < 0x400000" by (simp add: word_less_nat_alt)
  show ?thesis
  proof (cases "page_aligned addr \<and> \<not> unat addr < PMM_START \<and>
      \<not> unat (pmm_total_pages s) \<le> unat addr div PAGE_SIZE \<and> unat addr div PAGE_SIZE \<notin> free_frames s")
    case True
    then have "page_aligned addr" "0x400000 \<le> addr" "unat addr div 4096 < unat (pmm_total_pages s)"
        "unat addr div 4096 \<notin> free_frames s"
      by (simp_all add: word_le_nat_alt)
    from assms this obtain s' where "pmm_free_page addr s = Inr s'" "pmm_inv s'"
        "free_frames s' = insert (unat addr div 4096) (free_frames s)"
        "phys_mem s' = phys_mem s" "pmm_total_pages s' = pmm_total_pages s"
      by (rule pmm_free_page_ok)
    with True show ?thesis by simp
  next
    case False
    with pmm_free_page_cases [OF assms, of addr] show ?thesis unfolding below by presburger
  qed
qed

theorem pmm_free_page_correct_witness:
  "\<exists>s. pmm_init 0x4000000 pmm_boot = Inr s \<and>
     pmm_free_page 0x400000 s = Inl (Panic ''pmm_free_page: Double free detected'') \<and>
     pmm_free_page 0x400001 s = Inl (Panic ''pmm_free_page: Invalid page address'')"
proof -
  obtain s where s: "pmm_init 0x4000000 pmm_boot = Inr s" using pmm_boot_ok by blast
  with pmm_boot_inv have inv: "pmm_inv s" "free_frames s = {1024..<16384}" by blast+
  have "1024 \<in> free_frames s" using inv(2) by simp
  then have "1024 < unat (pmm_total_pages s)" using inv(1) by (auto simp: pmm_inv_def)
  with pmm_free_page_correct [OF inv(1), of "0x400000"] pmm_free_page_correct [OF inv(1), of "0x400001"]
    s inv(2) show ?thesis by (simp add: page_aligned_def)
qed

text \<open>
  C24: allocating a run of frames.  A count of zero and a count for which there is no run of
  that many adjacent free frames give NULL and change nothing; otherwise the result is the
  lowest such run, all of it becomes used, exactly its bytes are cleared, and the bitmap and
  the counters stay consistent.  The scan always ends.
\<close>

theorem pmm_alloc_pages_correct:
  assumes "pmm_inv s" and "unat count \<le> 2 ^ 64 - 2048"
  shows "if count = 0 \<or> (\<nexists>q. {q..<q + unat count} \<subseteq> free_frames s) then
       pmm_alloc_pages count s = Inr (0, s)
     else \<exists>q s'. pmm_alloc_pages count s = Inr (of_nat q * 4096, s') \<and> pmm_inv s' \<and>
       q = (LEAST q. {q..<q + unat count} \<subseteq> free_frames s) \<and>
       {q..<q + unat count} \<subseteq> free_frames s \<and>
       free_frames s' = free_frames s - {q..<q + unat count} \<and>
       (\<forall>b. phys_mem s' b = (if unat b div 4096 \<in> {q..<q + unat count} then 0 else phys_mem s b))"
proof (cases "count = 0 \<or> (\<nexists>q. {q..<q + unat count} \<subseteq> free_frames s)")
  case True
  then show ?thesis
    using pmm_alloc_pages_none [OF assms(1), of count] assms(2) by (auto simp: pmm_alloc_pages_def)
next
  case False
  let ?L = "LEAST q. {q..<q + unat count} \<subseteq> free_frames s"
  have L: "{?L..<?L + unat count} \<subseteq> free_frames s" using False by (metis (mono_tags, lifting) LeastI)
  have c: "count \<noteq> 0" "unat count \<noteq> 0" using False by (auto simp: unat_eq_0)
  obtain q s' where q: "pmm_alloc_pages count s = Inr (of_nat q * 4096, s')" "q \<le> ?L"
    "{q..<q + unat count} \<subseteq> free_frames s" "pmm_inv s'"
    "free_frames s' = free_frames s - {q..<q + unat count}"
    "phys_mem s' = clear_words (phys_mem s) (of_nat q * 4096) (512 * unat count)"
    using assms(1) c(1) L by (rule pmm_alloc_pages_some)
  have "?L = q" using q(2,3) by (simp add: Least_le le_antisym)
  moreover have "q + (unat count - 1) \<in> free_frames s" using q(3) c by (auto simp: subset_iff)
  then have "q + unat count \<le> 1048576" using free_frames_bound [OF assms(1)] c(2) by fastforce
  then have "phys_mem s' b = (if unat b div 4096 \<in> {q..<q + unat count} then 0 else phys_mem s b)" for b
    unfolding q(6) by (simp add: clear_frames_bytes)
  ultimately show ?thesis using q False by simp
qed

theorem pmm_alloc_pages_correct_witness:
  "\<exists>s s'. pmm_init 0x4000000 pmm_boot = Inr s \<and> pmm_alloc_pages 3 s = Inr (0x400000, s') \<and>
     free_frames s' = {1027..<16384}"
proof -
  obtain s where s: "pmm_init 0x4000000 pmm_boot = Inr s" using pmm_boot_ok by blast
  with pmm_boot_inv have inv: "pmm_inv s" "free_frames s = {1024..<16384}" by blast+
  have least: "(LEAST q. {q..<q + 3} \<subseteq> {1024..<16384::nat}) = 1024"
    by (rule Least_equality) (auto simp: subset_iff)
  have "{1024..<1024 + 3} \<subseteq> {1024..<16384::nat}" by simp
  then have "\<exists>q. {q..<q + 3} \<subseteq> {1024..<16384::nat}" by blast
  moreover have "{1024..<16384} - {1024..<1024 + 3} = {1027..<16384::nat}" by auto
  ultimately show ?thesis using pmm_alloc_pages_correct [OF inv(1), of 3] s inv(2) least by auto
qed

text \<open>
  A run obtained from \<open>pmm_alloc_pages\<close> can be given back: \<open>pmm_free_pages\<close> on the same
  address and count returns without a panic and restores the free set, and a second release of
  the run is detected as a double free.
\<close>

theorem pmm_alloc_free_pages_roundtrip:
  assumes "pmm_inv s" and "unat count \<le> 2 ^ 64 - 2048"
    and "pmm_alloc_pages count s = Inr (addr, s1)" and "addr \<noteq> 0"
  shows "\<exists>s2. pmm_free_pages_op addr count s1 = Inr s2 \<and> pmm_inv s2 \<and>
    free_frames s2 = free_frames s \<and>
    pmm_free_pages_op addr count s2 = Inl (Panic ''pmm_free_page: Double free detected'')"
proof -
  let ?n = "unat count"
  have c: "count \<noteq> 0" "?n \<noteq> 0" using assms(3,4) by (auto simp: pmm_alloc_pages_def unat_eq_0)
  have "\<exists>r. {r..<r + ?n} \<subseteq> free_frames s"
    using pmm_alloc_pages_none [OF assms(1) c(1)] assms(2-4) by auto
  then obtain r where "{r..<r + ?n} \<subseteq> free_frames s" by blast
  with assms(1) c(1) obtain q s' where q: "pmm_alloc_pages count s = Inr (of_nat q * 4096, s')"
      "{q..<q + ?n} \<subseteq> free_frames s" "pmm_inv s'" "pmm_total_pages s' = pmm_total_pages s"
      "free_frames s' = free_frames s - {q..<q + ?n}"
    by (rule pmm_alloc_pages_some) blast
  have eq: "addr = of_nat q * 4096" "s1 = s'" using q(1) assms(3) by simp_all
  have in_free: "q + i \<in> free_frames s" if "i < ?n" for i using q(2) that by (auto simp: subset_iff)
  then have lim: "1024 \<le> q + i \<and> q + i < unat (pmm_total_pages s)" if "i < ?n" for i
    using assms(1) that unfolding pmm_inv_def by blast
  have ge: "1024 \<le> q" using lim [of 0] c(2) by simp
  have "\<forall>i \<in> set [0..<?n]. q + i < unat (pmm_total_pages s') \<and> q + i \<notin> free_frames s'"
    using lim q(4,5) by auto
  then obtain s2 where s2: "pmm_free_pages_loop [0..<?n] (of_nat q * 4096) s' = Inr s2" "pmm_inv s2"
      "free_frames s2 = free_frames s' \<union> (+) q ` set [0..<?n]"
    using pmm_free_pages_loop_ok [OF q(3) ge, of "[0..<?n]"] by auto
  have "(+) q ` set [0..<?n] = {q..<q + ?n}" by (simp add: add.commute)
  then have free2: "free_frames s2 = free_frames s" using s2(3) q(2,5) by auto
  have qf: "q \<in> free_frames s2" using in_free [of 0] c(2) free2 by simp
  then have lq: "q < 1048576" "q < unat (pmm_total_pages s2)"
    using free_frames_bound [OF s2(2)] s2(2) by (auto simp: pmm_inv_def)
  have "pmm_free_page (of_nat q * 4096) s2 = Inl (Panic ''pmm_free_page: Double free detected'')"
    using pmm_free_page_cases [OF s2(2), of "of_nat q * 4096"] qf lq ge
    by (simp add: page_aligned_frame unat_frame_addr word_less_nat_alt)
  moreover obtain ns where "[0..<?n] = 0 # ns" using c(2) by (auto simp: upt_rec)
  ultimately show ?thesis using s2 free2 c(1) unfolding eq by (simp add: pmm_free_pages_op_def)
qed

theorem pmm_alloc_free_pages_roundtrip_witness:
  "\<exists>s s1 s2. pmm_init 0x4000000 pmm_boot = Inr s \<and> pmm_alloc_pages 3 s = Inr (0x400000, s1) \<and>
     pmm_free_pages_op 0x400000 3 s1 = Inr s2 \<and> free_frames s2 = {1024..<16384}"
proof -
  obtain s where s: "pmm_init 0x4000000 pmm_boot = Inr s" using pmm_boot_ok by blast
  with pmm_boot_inv have inv: "pmm_inv s" "free_frames s = {1024..<16384}" by blast+
  have sub: "{1024..<1024 + unat (3 :: u64)} \<subseteq> free_frames s" by (simp add: inv(2))
  obtain q s1 where q: "pmm_alloc_pages 3 s = Inr (of_nat q * 4096, s1)" "q \<le> 1024"
      "{q..<q + unat (3 :: u64)} \<subseteq> free_frames s"
    by (rule pmm_alloc_pages_some [OF inv(1) _ sub]) simp_all
  then have "q = 1024" using inv(2) by (auto simp: subset_iff)
  with q(1) have a: "pmm_alloc_pages 3 s = Inr (0x400000, s1)" by simp
  from pmm_alloc_free_pages_roundtrip [OF inv(1) _ a] s a inv(2) show ?thesis by auto
qed

end
