(* ===== verification/Process_Defs.thy ===== *)
theory Process_Defs
  imports Prelude
begin

text \<open>
  The process control block of \<open>src/include/kernel/process.h\<close>.  Pointers are 64-bit addresses
  with 0 for NULL; the name is the character string held by the 32-byte array; entry points are
  code addresses.
\<close>

datatype process_state =
    PROCESS_STATE_READY | PROCESS_STATE_RUNNING | PROCESS_STATE_BLOCKED
  | PROCESS_STATE_WAITING | PROCESS_STATE_ZOMBIE | PROCESS_STATE_TERMINATED

record context_t =
  r15 :: u64
  r14 :: u64
  r13 :: u64
  r12 :: u64
  rbx :: u64
  rbp :: u64
  rsp :: u64
  rip :: u64
  rflags :: u64

record process =
  pid :: u32
  pname :: string
  pcontext :: context_t
  pstate :: process_state
  page_table :: u64
  heap_start :: u64
  heap_current :: u64
  heap_max :: u64
  stack_bottom :: u64
  stack_top :: u64
  pages_allocated :: u64
  page_faults :: u64
  kernel_stack :: u64
  kernel_stack_size :: u64
  ticks_total :: u64
  ticks_remaining :: u64
  priority :: u32
  parent_pid :: u32
  exit_status :: int
  fd_table :: u64
  pnext :: u64
  pprev :: u64
  entry_point :: u64

text \<open>A control block of all zero bytes, as \<open>kzalloc\<close> returns it.\<close>

definition zero_context :: context_t where
  "zero_context = \<lparr>r15 = 0, r14 = 0, r13 = 0, r12 = 0, rbx = 0, rbp = 0, rsp = 0, rip = 0, rflags = 0\<rparr>"

definition zero_process :: process where
  "zero_process = \<lparr>pid = 0, pname = [], pcontext = zero_context, pstate = PROCESS_STATE_READY,
     page_table = 0, heap_start = 0, heap_current = 0, heap_max = 0, stack_bottom = 0, stack_top = 0,
     pages_allocated = 0, page_faults = 0, kernel_stack = 0, kernel_stack_size = 0, ticks_total = 0,
     ticks_remaining = 0, priority = 0, parent_pid = 0, exit_status = 0, fd_table = 0,
     pnext = 0, pprev = 0, entry_point = 0\<rparr>"

end
