(* ===== verification/Vmm.thy ===== *)
theory Vmm
  imports Pmm Process_Defs
begin

text \<open>
  The virtual memory manager (\<open>src/src/mm/vmm.c\<close>, \<open>src/include/mm/vmm.h\<close>).  Page tables are
  pages of 512 entries in physical memory, read and written through their physical address as
  the C code does.  An address space is abstracted to the function from the four table indices
  to the page-table entry found there (0 when a table on the way is missing); mapping,
  unmapping, creation, clearing and cloning are shown to act on that function.  The TLB is not
  part of the state.
\<close>

section \<open>Constants and address arithmetic\<close>

abbreviation (input) PAGE_PRESENT :: u64 where "PAGE_PRESENT \<equiv> 1"
abbreviation (input) PAGE_WRITABLE :: u64 where "PAGE_WRITABLE \<equiv> 2"
abbreviation (input) PAGE_USER :: u64 where "PAGE_USER \<equiv> 4"
abbreviation (input) USER_STACK_TOP :: u64 where "USER_STACK_TOP \<equiv> 0x00007FFFFFFFE000"
abbreviation (input) USER_STACK_SIZE :: u64 where "USER_STACK_SIZE \<equiv> 0x100000"
abbreviation (input) USER_HEAP_START :: u64 where "USER_HEAP_START \<equiv> 0x400000"
abbreviation (input) KERNEL_BASE :: u64 where "KERNEL_BASE \<equiv> 0xFFFF800000000000"

definition PML4_INDEX :: "u64 \<Rightarrow> nat" where "PML4_INDEX addr = unat (drop_bit 39 addr AND 0x1FF)"
definition PDPT_INDEX :: "u64 \<Rightarrow> nat" where "PDPT_INDEX addr = unat (drop_bit 30 addr AND 0x1FF)"
definition PD_INDEX :: "u64 \<Rightarrow> nat" where "PD_INDEX addr = unat (drop_bit 21 addr AND 0x1FF)"
definition PT_INDEX :: "u64 \<Rightarrow> nat" where "PT_INDEX addr = unat (drop_bit 12 addr AND 0x1FF)"

text \<open>\<open>x & ~0xFFF\<close> and the test \<open>entry & PAGE_PRESENT\<close>.\<close>

definition page_base :: "u64 \<Rightarrow> u64" where "page_base a = a AND NOT 0xFFF"

definition present :: "u64 \<Rightarrow> bool" where "present e \<longleftrightarrow> e AND PAGE_PRESENT \<noteq> 0"

section \<open>State and operations\<close>

record vmm = pmm +
  pml4 :: u64
  cr3 :: u64

text \<open>\<open>table[index] = v\<close>\<close>

definition write_entry :: "u64 \<Rightarrow> nat \<Rightarrow> u64 \<Rightarrow> 'a machine_scheme \<Rightarrow> 'a machine_scheme" where
  "write_entry t i v s = s\<lparr>phys_mem := set_entry (phys_mem s) t i v\<rparr>"

definition vmm_get_or_create_table :: "u64 \<Rightarrow> nat \<Rightarrow> u64 \<Rightarrow> 'a pmm_scheme \<Rightarrow> u64 \<times> 'a pmm_scheme" where
  "vmm_get_or_create_table parent_table index flags s =
     (let e = entry (phys_mem s) parent_table index
      in if \<not> present e then
           (case pmm_alloc_page s of (new_table, s1) \<Rightarrow>
              if new_table = 0 then (0, s1)
              else (new_table,
                    write_entry parent_table index (page_base new_table OR flags OR PAGE_PRESENT) s1))
         else (page_base e, s))"

definition vmm_create_address_space :: "'a vmm_scheme \<Rightarrow> u64 \<times> 'a vmm_scheme" where
  "vmm_create_address_space s =
     (case pmm_alloc_page s of (new_pml4, s1) \<Rightarrow>
        if new_pml4 = 0 then (0, s1)
        else (new_pml4,
              fold (\<lambda>i s. write_entry new_pml4 i (entry (phys_mem s) (pml4 s) i) s) (for_range 256 512) s1))"

definition vmm_destroy_address_space :: "u64 \<Rightarrow> 'a vmm_scheme \<Rightarrow> 'a vmm_scheme res" where
  "vmm_destroy_address_space pml4_to_destroy s =
     (if pml4_to_destroy = 0 \<or> pml4_to_destroy = pml4 s then Inr s
      else pmm_free_page pml4_to_destroy s)"

definition table_flags :: "u64 \<Rightarrow> u64" where
  "table_flags virt =
     (let pdpt_flags = PAGE_WRITABLE OR PAGE_USER
      in if KERNEL_BASE \<le> virt then pdpt_flags AND NOT PAGE_USER else pdpt_flags)"

definition vmm_map_page :: "u64 \<Rightarrow> u64 \<Rightarrow> u64 \<Rightarrow> u64 \<Rightarrow> 'a pmm_scheme \<Rightarrow> int \<times> 'a pmm_scheme" where
  "vmm_map_page pml4_table virt0 phys0 flags s =
     (let virt = page_base virt0; phys = page_base phys0; pdpt_flags = table_flags virt
      in case vmm_get_or_create_table pml4_table (PML4_INDEX virt) pdpt_flags s of (pdpt, s1) \<Rightarrow>
         if pdpt = 0 then (-1, s1)
         else case vmm_get_or_create_table pdpt (PDPT_INDEX virt) pdpt_flags s1 of (pd, s2) \<Rightarrow>
         if pd = 0 then (-1, s2)
         else case vmm_get_or_create_table pd (PD_INDEX virt) pdpt_flags s2 of (pt, s3) \<Rightarrow>
         if pt = 0 then (-1, s3)
         else (0, write_entry pt (PT_INDEX virt) (page_base phys OR flags OR PAGE_PRESENT) s3))"

definition vmm_unmap_page :: "u64 \<Rightarrow> u64 \<Rightarrow> 'a machine_scheme \<Rightarrow> 'a machine_scheme" where
  "vmm_unmap_page pml4_table virt0 s =
     (let virt = page_base virt0; m = phys_mem s;
          e4 = entry m pml4_table (PML4_INDEX virt); pdpt = page_base e4
      in if pdpt = 0 \<or> \<not> present e4 then s
      else let e3 = entry m pdpt (PDPT_INDEX virt); pd = page_base e3
      in if pd = 0 \<or> \<not> present e3 then s
      else let e2 = entry m pd (PD_INDEX virt); pt = page_base e2
      in if pt = 0 \<or> \<not> present e2 then s
      else write_entry pt (PT_INDEX virt) 0 s)"

definition vmm_get_physical :: "u64 \<Rightarrow> u64 \<Rightarrow> 'a machine_scheme \<Rightarrow> u64" where
  "vmm_get_physical pml4_table virt s =
     (let m = phys_mem s; e4 = entry m pml4_table (PML4_INDEX virt)
      in if \<not> present e4 then 0
      else let e3 = entry m (page_base e4) (PDPT_INDEX virt)
      in if \<not> present e3 then 0
      else let e2 = entry m (page_base e3) (PD_INDEX virt)
      in if \<not> present e2 then 0
      else let e1 = entry m (page_base e2) (PT_INDEX virt)
      in if \<not> present e1 then 0
      else page_base e1 OR (virt AND 0xFFF))"

definition vmm_switch_address_space :: "u64 \<Rightarrow> 'a vmm_scheme \<Rightarrow> 'a vmm_scheme" where
  "vmm_switch_address_space new_pml4 s = s\<lparr>cr3 := new_pml4\<rparr>"

text \<open>
  \<open>vmm_alloc_user_pages\<close>: the loop over the pages, with its three ways out.  The process is the
  control block the pointer refers to; the result holds its updated value.
\<close>

fun alloc_user_pages_loop ::
  "nat list \<Rightarrow> u64 \<Rightarrow> process \<Rightarrow> 'a pmm_scheme \<Rightarrow> (int \<times> process \<times> 'a pmm_scheme) res" where
  "alloc_user_pages_loop [] virt_addr p s = Inr (0, p, s)"
| "alloc_user_pages_loop (i # is) virt_addr p s =
     (case pmm_alloc_page s of (phys_page, s1) \<Rightarrow>
        if phys_page = 0 then Inr (-1, p, s1)
        else case vmm_map_page (page_table p) (virt_addr + of_nat i * 4096) phys_page
                    (PAGE_PRESENT OR PAGE_WRITABLE OR PAGE_USER) s1 of (r, s2) \<Rightarrow>
          if r < 0 then bind_res (pmm_free_page phys_page s2) (\<lambda>s3. Inr (-1, p, s3))
          else alloc_user_pages_loop is virt_addr (p\<lparr>pages_allocated := pages_allocated p + 1\<rparr>) s2)"

definition vmm_alloc_user_pages ::
  "process \<Rightarrow> u64 \<Rightarrow> u64 \<Rightarrow> 'a pmm_scheme \<Rightarrow> (int \<times> process \<times> 'a pmm_scheme) res" where
  "vmm_alloc_user_pages p virt_addr count s =
     (if KERNEL_BASE \<le> virt_addr then Inr (-1, p, s)
      else alloc_user_pages_loop [0..<unat count] virt_addr p s)"

definition vmm_setup_user_stack :: "process \<Rightarrow> 'a pmm_scheme \<Rightarrow> (int \<times> process \<times> 'a pmm_scheme) res" where
  "vmm_setup_user_stack p s =
     (let p' = p\<lparr>stack_top := USER_STACK_TOP, stack_bottom := USER_STACK_TOP - USER_STACK_SIZE\<rparr>
      in vmm_alloc_user_pages p' (stack_bottom p') (USER_STACK_SIZE div 4096) s)"

definition vmm_setup_user_heap :: "process \<Rightarrow> int \<times> process" where
  "vmm_setup_user_heap p =
     (0, p\<lparr>heap_start := USER_HEAP_START, heap_current := USER_HEAP_START,
           heap_max := USER_HEAP_START + 0x10000000\<rparr>)"

text \<open>
  Cloning for \<open>fork\<close>.  A result 0 is failure.  The three table levels share one loop shape:
  \<open>clone_table_loop\<close> is the loop of \<open>clone_pt\<close>, \<open>clone_pd\<close> and \<open>clone_pdpt\<close> for a given way
  of producing the child entry from the parent entry (0 on failure).  \<open>clone_pt\<close> stores the
  child entry before it tests it, the other two after: the flag \<open>store_first\<close>.
\<close>

definition clone_page :: "u64 \<Rightarrow> u64 \<Rightarrow> 'a pmm_scheme \<Rightarrow> u64 \<times> 'a pmm_scheme" where
  "clone_page parent_page_phys flags s =
     (case pmm_alloc_page s of (child_page, s1) \<Rightarrow>
        if child_page = 0 then (0, s1)
        else (child_page OR flags,
              s1\<lparr>phys_mem := copy_bytes (phys_mem s1) child_page parent_page_phys PAGE_SIZE\<rparr>))"

fun clone_table_loop ::
  "bool \<Rightarrow> (u64 \<Rightarrow> 'a pmm_scheme \<Rightarrow> (u64 \<times> 'a pmm_scheme) res) \<Rightarrow> nat list \<Rightarrow> u64 \<Rightarrow> u64 \<Rightarrow>
    'a pmm_scheme \<Rightarrow> (bool \<times> 'a pmm_scheme) res" where
  "clone_table_loop store_first clone_entry [] parent child s = Inr (True, s)"
| "clone_table_loop store_first clone_entry (i # is) parent child s =
     (let e = entry (phys_mem s) parent i
      in if present e then
           bind_res (clone_entry e s) (\<lambda>(e', s1).
             if e' = 0 then
               bind_res (pmm_free_page child (if store_first then write_entry child i e' s1 else s1))
                 (\<lambda>s2. Inr (False, s2))
             else clone_table_loop store_first clone_entry is parent child (write_entry child i e' s1))
         else clone_table_loop store_first clone_entry is parent child (write_entry child i 0 s))"

definition clone_table ::
  "bool \<Rightarrow> (u64 \<Rightarrow> 'a pmm_scheme \<Rightarrow> (u64 \<times> 'a pmm_scheme) res) \<Rightarrow> u64 \<Rightarrow> 'a pmm_scheme \<Rightarrow>
    (u64 \<times> 'a pmm_scheme) res" where
  "clone_table store_first clone_entry parent s =
     (case pmm_alloc_page s of (child, s1) \<Rightarrow>
        if child = 0 then Inr (0, s1)
        else bind_res (clone_table_loop store_first clone_entry (for_range 0 512) parent child s1)
          (\<lambda>(ok, s2). Inr (if ok then child else 0, s2)))"

definition clone_pt :: "u64 \<Rightarrow> 'a pmm_scheme \<Rightarrow> (u64 \<times> 'a pmm_scheme) res" where
  "clone_pt parent_pt_phys s =
     clone_table True (\<lambda>e s. Inr (clone_page (page_base e) (e AND 0xFFF) s)) parent_pt_phys s"

definition clone_pd :: "u64 \<Rightarrow> 'a pmm_scheme \<Rightarrow> (u64 \<times> 'a pmm_scheme) res" where
  "clone_pd parent_pd_phys s =
     clone_table False (\<lambda>e s. bind_res (clone_pt (page_base e) s) (\<lambda>(child_pt, s1).
       Inr (if child_pt = 0 then 0 else child_pt OR (e AND 0xFFF), s1))) parent_pd_phys s"

definition clone_pdpt :: "u64 \<Rightarrow> 'a pmm_scheme \<Rightarrow> (u64 \<times> 'a pmm_scheme) res" where
  "clone_pdpt parent_pdpt_phys s =
     clone_table False (\<lambda>e s. bind_res (clone_pd (page_base e) s) (\<lambda>(child_pd, s1).
       Inr (if child_pd = 0 then 0 else child_pd OR (e AND 0xFFF), s1))) parent_pdpt_phys s"

fun clone_pml4_loop :: "nat list \<Rightarrow> u64 \<Rightarrow> u64 \<Rightarrow> 'a vmm_scheme \<Rightarrow> (u64 \<times> 'a vmm_scheme) res" where
  "clone_pml4_loop [] parent_pml4 child_pml4 s = Inr (child_pml4, s)"
| "clone_pml4_loop (i # is) parent_pml4 child_pml4 s =
     (let e = entry (phys_mem s) parent_pml4 i
      in if present e then
           bind_res (clone_pdpt (page_base e) s) (\<lambda>(child_pdpt, s1).
             if child_pdpt = 0 then
               bind_res (vmm_destroy_address_space child_pml4 s1) (\<lambda>s2. Inr (0, s2))
             else clone_pml4_loop is parent_pml4 child_pml4
               (write_entry child_pml4 i (child_pdpt OR (entry (phys_mem s1) parent_pml4 i AND 0xFFF)) s1))
         else clone_pml4_loop is parent_pml4 child_pml4 s)"

definition vmm_clone_address_space :: "u64 \<Rightarrow> 'a vmm_scheme \<Rightarrow> (u64 \<times> 'a vmm_scheme) res" where
  "vmm_clone_address_space parent_pml4 s =
     (case pmm_alloc_page s of (child_pml4, s1) \<Rightarrow>
        if child_pml4 = 0 then Inr (0, s1)
        else let s2 = fold (\<lambda>i. write_entry child_pml4 i 0) (for_range 0 512) s1;
                 s3 = fold (\<lambda>i s. write_entry child_pml4 i (entry (phys_mem s) parent_pml4 i) s)
                        (for_range 256 512) s2
             in clone_pml4_loop (for_range 0 256) parent_pml4 child_pml4 s3)"

definition vmm_clear_user_space :: "u64 \<Rightarrow> 'a machine_scheme \<Rightarrow> 'a machine_scheme" where
  "vmm_clear_user_space t s =
     fold (\<lambda>i s. if present (entry (phys_mem s) t i) then write_entry t i 0 s else s) (for_range 0 256) s"

section \<open>Address arithmetic\<close>

lemma page_aligned_bits: "page_aligned a \<longleftrightarrow> (\<forall>n < 12. \<not> bit a n)"
proof -
  have "page_aligned a \<longleftrightarrow> take_bit 12 a = 0"
    by (simp add: page_aligned_def dvd_eq_mod_eq_0 word_unat_eq_iff unsigned_take_bit_eq take_bit_eq_mod unat_mod)
  also have "\<dots> \<longleftrightarrow> (\<forall>n < 12. \<not> bit a n)"
    by (auto simp: bit_eq_iff bit_take_bit_iff)
  finally show ?thesis .
qed

lemma bit_low12 [simp]: "bit (4095 :: int) n \<longleftrightarrow> n < 12"
proof -
  have "(4095 :: int) = mask 12" by (simp add: mask_eq_exp_minus_1)
  then have "bit (4095 :: int) n \<longleftrightarrow> bit (mask 12 :: int) n" by (rule arg_cong)
  also have "\<dots> \<longleftrightarrow> n < 12" by (simp only: bit_mask_iff) (simp add: possible_bit_def)
  finally show ?thesis .
qed

lemma bit_not_low12 [simp]: "bit (- 4096 :: int) n \<longleftrightarrow> 12 \<le> n"
proof -
  have "(- 4096 :: int) = NOT 4095" by simp
  then have "bit (- 4096 :: int) n \<longleftrightarrow> bit (NOT 4095 :: int) n" by (rule arg_cong)
  also have "\<dots> \<longleftrightarrow> \<not> bit (4095 :: int) n" by (simp only: bit_not_iff) (simp add: possible_bit_def)
  finally show ?thesis by auto
qed

lemma bit_page_base: "bit (page_base a) n \<longleftrightarrow> bit a n \<and> 12 \<le> n \<and> n < 64"
  by (auto simp: page_base_def bit_and_iff bit_not_iff dest: bit_imp_le_length)

lemma page_aligned_page_base [simp]: "page_aligned (page_base a)"
  by (simp add: page_aligned_bits bit_page_base)

lemma page_base_aligned [simp]: "page_aligned a \<Longrightarrow> page_base a = a"
  by (rule bit_word_eqI) (auto simp: page_aligned_bits bit_page_base not_less)

lemma page_base_or_flags:
  "f AND NOT 0xFFF = 0 \<Longrightarrow> page_base (a OR f) = page_base a"
  by (rule bit_word_eqI)
    (auto simp: bit_page_base bit_or_iff bit_and_iff bit_not_iff bit_eq_iff not_less dest: bit_imp_le_length)

lemma present_bit: "present e \<longleftrightarrow> bit e 0"
  using and_exp_zero_iff [of e 0] by (simp add: present_def)

lemma present_or_1 [simp]: "present (e OR 1)"
  by (simp add: present_bit bit_or_iff)

section \<open>Address spaces as functions\<close>

text \<open>
  \<open>walk m t p\<close> is the table reached from table \<open>t\<close> along the indices \<open>p\<close>; \<open>pte\<close> is the entry
  of the last level for four indices, 0 when a table is missing.
\<close>

fun walk :: "pmem \<Rightarrow> u64 \<Rightarrow> nat list \<Rightarrow> u64 option" where
  "walk m t [] = Some t"
| "walk m t (i # is) =
     (if present (entry m t i) then walk m (page_base (entry m t i)) is else None)"

definition pte :: "pmem \<Rightarrow> u64 \<Rightarrow> nat \<Rightarrow> nat \<Rightarrow> nat \<Rightarrow> nat \<Rightarrow> u64" where
  "pte m t a b c d = (case walk m t [a, b, c] of None \<Rightarrow> 0 | Some pt \<Rightarrow> entry m pt d)"

definition is_path :: "nat list \<Rightarrow> bool" where
  "is_path p \<longleftrightarrow> length p \<le> 3 \<and> (\<forall>i \<in> set p. i < 512)"

text \<open>
  The tables of an address space form a tree: no table is NULL or a free frame, and no table is
  reached along two paths.
\<close>

definition pt_tree :: "pmem \<Rightarrow> u64 set \<Rightarrow> u64 \<Rightarrow> bool" where
  "pt_tree m F t \<longleftrightarrow> page_aligned t \<and>
     (\<forall>p r. is_path p \<longrightarrow> walk m t p = Some r \<longrightarrow> r \<noteq> 0 \<and> r \<notin> F) \<and>
     (\<forall>p q r. is_path p \<longrightarrow> is_path q \<longrightarrow> walk m t p = Some r \<longrightarrow> walk m t q = Some r \<longrightarrow> p = q)"

lemma walk_append: "walk m t (p @ q) = (case walk m t p of None \<Rightarrow> None | Some r \<Rightarrow> walk m r q)"
  by (induction p arbitrary: t) auto

lemma walk_snoc:
  "walk m t (p @ [i]) = (case walk m t p of None \<Rightarrow> None
     | Some r \<Rightarrow> if present (entry m r i) then Some (page_base (entry m r i)) else None)"
  by (simp add: walk_append split: option.split)

lemma walk_aligned: "page_aligned t \<Longrightarrow> walk m t p = Some r \<Longrightarrow> page_aligned r"
proof (induction p arbitrary: t)
  case (Cons i p)
  then show ?case using Cons.IH [OF page_aligned_page_base] by (auto split: if_splits)
qed simp

lemma pt_tree_aligned: "pt_tree m F t \<Longrightarrow> walk m t p = Some r \<Longrightarrow> page_aligned r"
  unfolding pt_tree_def by (blast intro: walk_aligned)

lemma is_path_prefix: "is_path (p @ q) \<Longrightarrow> is_path p"
  by (simp add: is_path_def)

lemma is_path_Nil [simp]: "is_path []" by (simp add: is_path_def)

lemma is_path_snoc: "is_path (p @ [i]) \<longleftrightarrow> length p \<le> 2 \<and> i < 512 \<and> is_path p"
  by (auto simp: is_path_def)

lemma not_present_0 [simp]: "\<not> present 0" by (simp add: present_bit)

lemma vmm_get_physical_pte:
  "vmm_get_physical t v s =
     (let e = pte (phys_mem s) t (PML4_INDEX v) (PDPT_INDEX v) (PD_INDEX v) (PT_INDEX v)
      in if present e then page_base e OR (v AND 0xFFF) else 0)"
  by (simp add: vmm_get_physical_def pte_def Let_def)

declare walk.simps(2) [simp del]

text \<open>Memory that agrees on the tables of a space gives the same space.\<close>

lemma walk_cong:
  assumes "is_path p"
    and "\<And>q r i. is_path q \<Longrightarrow> walk m t q = Some r \<Longrightarrow> i < 512 \<Longrightarrow> entry m' r i = entry m r i"
  shows "walk m' t p = walk m t p"
  using assms(1)
proof (induction p rule: rev_induct)
  case (snoc i p)
  then have "walk m' t p = walk m t p" "is_path p" "i < 512" by (simp_all add: is_path_snoc)
  with assms(2) [of p] show ?case by (auto simp: walk_snoc split: option.split)
qed simp

lemma pte_cong:
  assumes "a < 512" "b < 512" "c < 512" "d < 512"
    and "\<And>q r i. is_path q \<Longrightarrow> walk m t q = Some r \<Longrightarrow> i < 512 \<Longrightarrow> entry m' r i = entry m r i"
  shows "pte m' t a b c d = pte m t a b c d"
proof -
  have p: "is_path [a, b, c]" using assms(1-3) by (simp add: is_path_def)
  have w: "walk m' t [a, b, c] = walk m t [a, b, c]" using p assms(5) by (rule walk_cong)
  show ?thesis
    unfolding pte_def w using assms(4,5) p by (auto split: option.split)
qed

lemma pt_tree_cong:
  assumes "pt_tree m F t" "F' \<subseteq> F"
    and "\<And>q r i. is_path q \<Longrightarrow> walk m t q = Some r \<Longrightarrow> i < 512 \<Longrightarrow> entry m' r i = entry m r i"
  shows "pt_tree m' F' t"
proof -
  have w: "walk m' t p = walk m t p" if "is_path p" for p using that assms(3) by (rule walk_cong)
  show ?thesis
    using assms(1,2) unfolding pt_tree_def by (simp add: w) (metis subsetD)
qed

text \<open>One entry of one table of the tree changes.\<close>

lemma walk_set_entry_other:
  assumes tree: "pt_tree m F t" and p: "is_path p" "walk m t p = Some r" "i < 512"
    and q: "is_path q" "\<nexists>q'. q = p @ i # q'"
  shows "walk (set_entry m r i v) t q = walk m t q"
  using q
proof (induction q rule: rev_induct)
  case (snoc j q)
  have q: "is_path q" "j < 512" using snoc.prems(1) by (simp_all add: is_path_snoc)
  have "\<nexists>q'. q = p @ i # q'" using snoc.prems(2) by auto
  with snoc.IH q(1) have IH: "walk (set_entry m r i v) t q = walk m t q" by simp
  have "entry (set_entry m r i v) u j = entry m u j" if u: "walk m t q = Some u" for u
  proof -
    have "page_aligned u" "page_aligned r" using pt_tree_aligned [OF tree] u p(2) by blast+
    moreover have "\<not> (r = u \<and> i = j)"
    proof
      assume "r = u \<and> i = j"
      with tree u p q(1) have "q = p" unfolding pt_tree_def by blast
      with \<open>r = u \<and> i = j\<close> snoc.prems(2) show False by simp
    qed
    ultimately show ?thesis using p(3) q(2) by (auto simp: entry_set_entry)
  qed
  with IH show ?case by (auto simp: walk_snoc split: option.split)
qed simp

lemma walk_set_entry_below:
  assumes tree: "pt_tree m F t" and p: "is_path p" "walk m t p = Some r" "i < 512"
  shows "walk (set_entry m r i v) t (p @ i # q) =
    (if present v then walk (set_entry m r i v) (page_base v) q else None)"
proof -
  have "walk (set_entry m r i v) t p = Some r"
    using walk_set_entry_other [OF tree p p(1)] p(2) by simp
  moreover have "page_aligned r" using tree p(2) by (rule pt_tree_aligned)
  ultimately show ?thesis using p(3) by (simp add: walk_append walk.simps entry_set_entry)
qed

section \<open>Growing the tree\<close>

lemma write_entry_phys_mem [simp]: "phys_mem (write_entry t i v s) = set_entry (phys_mem s) t i v"
  by (simp add: write_entry_def)

lemma write_entry_pmm [simp]:
  fixes s :: "'a pmm_scheme"
  shows "pmm_bitmap (write_entry t i v s) = pmm_bitmap s"
    "pmm_total_pages (write_entry t i v s) = pmm_total_pages s"
    "pmm_free_pages (write_entry t i v s) = pmm_free_pages s"
  by (simp_all add: write_entry_def)

lemma free_frames_write_entry [simp]:
  fixes s :: "'a pmm_scheme"
  shows "free_frames (write_entry t i v s) = free_frames s"
  by (simp add: free_frames_def)

lemma write_entry_inv [simp]:
  fixes s :: "'a pmm_scheme"
  shows "pmm_inv (write_entry t i v s) = pmm_inv s" "free_addrs (write_entry t i v s) = free_addrs s"
  by (simp_all add: pmm_inv_def free_addrs_def)

text \<open>
  What adding tables to a space keeps: the allocator's invariant, the tree, every entry of the
  last level and every table; the new tables come from the free frames.
\<close>

definition space_grows :: "u64 \<Rightarrow> 'a pmm_scheme \<Rightarrow> 'a pmm_scheme \<Rightarrow> bool" where
  "space_grows t s s' \<longleftrightarrow> pmm_inv s' \<and> pt_tree (phys_mem s') (free_addrs s') t \<and>
     (\<forall>a < 512. \<forall>b < 512. \<forall>c < 512. \<forall>d < 512.
        pte (phys_mem s') t a b c d = pte (phys_mem s) t a b c d) \<and>
     (\<forall>q u. is_path q \<longrightarrow> walk (phys_mem s) t q = Some u \<longrightarrow> walk (phys_mem s') t q = Some u) \<and>
     (\<forall>q u. is_path q \<longrightarrow> walk (phys_mem s') t q = Some u \<longrightarrow>
        walk (phys_mem s) t q = Some u \<or> u \<in> free_addrs s) \<and>
     free_addrs s' \<subseteq> free_addrs s"

lemma space_grows_refl: "pmm_inv s \<Longrightarrow> pt_tree (phys_mem s) (free_addrs s) t \<Longrightarrow> space_grows t s s"
  by (simp add: space_grows_def)

lemma space_grows_trans: "space_grows t s s1 \<Longrightarrow> space_grows t s1 s2 \<Longrightarrow> space_grows t s s2"
  unfolding space_grows_def by auto blast

lemma alloc_keeps_space:
  assumes inv: "pmm_inv s" and tree: "pt_tree (phys_mem s) (free_addrs s) t"
    and al: "pmm_alloc_page s = (a, s1)"
  shows "space_grows t s s1"
    and "\<And>q u i. is_path q \<Longrightarrow> walk (phys_mem s) t q = Some u \<Longrightarrow> i < 512 \<Longrightarrow>
      entry (phys_mem s1) u i = entry (phys_mem s) u i"
    and "pt_tree (phys_mem s1) (free_addrs s) t"
proof -
  show same: "entry (phys_mem s1) u i = entry (phys_mem s) u i"
    if "is_path q" "walk (phys_mem s) t q = Some u" "i < 512" for q u i
  proof (rule frames.other_table_kept [OF inv al])
    show "page_aligned u" using tree that(2) by (rule pt_tree_aligned)
    show "u \<notin> free_addrs s" using tree that(1,2) unfolding pt_tree_def by blast
  qed (fact that(3))
  have mono: "free_addrs s1 \<subseteq> free_addrs s" using frames.alloc_frames_mono [OF inv al] .
  show "pt_tree (phys_mem s1) (free_addrs s) t" using tree subset_refl same by (rule pt_tree_cong)
  have "pt_tree (phys_mem s1) (free_addrs s1) t" using tree mono same by (rule pt_tree_cong)
  moreover have "pte (phys_mem s1) t a b c d = pte (phys_mem s) t a b c d"
    if "a < 512" "b < 512" "c < 512" "d < 512" for a b c d
    using that same by (rule pte_cong)
  moreover have "walk (phys_mem s1) t q = walk (phys_mem s) t q" if "is_path q" for q
    using that same by (rule walk_cong)
  ultimately show "space_grows t s s1"
    using frames.alloc_ok [OF inv al] mono unfolding space_grows_def by simp
qed

lemma entry_flags: "flags AND NOT 0xFFF = 0 \<Longrightarrow> page_base (page_base a OR flags OR 1) = page_base a"
proof -
  assume "flags AND NOT 0xFFF = 0"
  then have "(flags OR 1) AND NOT 0xFFF = 0" by (simp add: bit.conj_disj_distrib2)
  then show ?thesis by (simp add: page_base_or_flags)
qed

text \<open>A fresh, empty table is hung below an empty entry.\<close>

lemma new_table_grows:
  fixes s :: "'a pmm_scheme"
  assumes grow: "space_grows t s0 s"
    and tree: "pt_tree (phys_mem s) (free_addrs s0) t" "a \<in> free_addrs s0" "a \<notin> free_addrs s"
    and a: "page_aligned a" "a \<noteq> 0" "\<And>j. j < 512 \<Longrightarrow> entry (phys_mem s) a j = 0"
    and p: "is_path (p @ [i])" "walk (phys_mem s) t p = Some r" "\<not> present (entry (phys_mem s) r i)"
    and v: "present v" "page_base v = a"
  shows "space_grows t s0 (write_entry r i v s)" and "walk (phys_mem (write_entry r i v s)) t (p @ [i]) = Some a"
proof -
  let ?m = "phys_mem s" and ?m' = "set_entry (phys_mem s) r i v"
  have inv: "pmm_inv s" and sub: "free_addrs s \<subseteq> free_addrs s0" using grow by (simp_all add: space_grows_def)
  have ip: "is_path p" "i < 512" using p(1) by (simp_all add: is_path_snoc)
  have r: "page_aligned r" "r \<noteq> a" using tree p(2) ip walk_aligned unfolding pt_tree_def by blast+
  have zero: "entry ?m' a j = 0" if "j < 512" for j
    using that a r ip by (simp add: entry_set_entry)
  have below: "walk ?m' t (p @ i # q) = (if q = [] then Some a else None)" if "is_path (p @ i # q)" for q
  proof -
    have "j < 512" if "q = j # q'" for j q' using that \<open>is_path (p @ i # q)\<close> by (simp add: is_path_def)
    then have "walk ?m' a q = (if q = [] then Some a else None)" by (cases q) (simp_all add: zero walk.simps)
    then show ?thesis using walk_set_entry_below [OF tree(1) ip(1) p(2) ip(2), of v q] v by simp
  qed
  have other: "walk ?m' t q = walk ?m t q" if "is_path q" "\<nexists>q'. q = p @ i # q'" for q
    using walk_set_entry_other [OF tree(1) ip(1) p(2) ip(2) that] .
  have gone: "walk ?m t (p @ i # q) = None" for q using p(2,3) by (simp add: walk_append walk.simps)
  have walks: "walk ?m' t q = (if q = p @ [i] then Some a else walk ?m t q)" if "is_path q" for q
  proof (cases "\<exists>q'. q = p @ i # q'")
    case True
    then obtain q' where "q = p @ i # q'" by blast
    with that below [of q'] gone [of q'] show ?thesis by simp
  qed (use that other in auto)
  have fresh: "walk ?m t q \<noteq> Some a" if "is_path q" for q using that tree unfolding pt_tree_def by blast
  have tree': "pt_tree ?m' (free_addrs s) t"
    unfolding pt_tree_def
  proof (intro conjI allI impI)
    show "page_aligned t" using tree(1) by (simp add: pt_tree_def)
  next
    fix q u assume "is_path q" "walk ?m' t q = Some u"
    then show "u \<noteq> 0" "u \<notin> free_addrs s"
      using tree a(2) sub unfolding walks [OF \<open>is_path q\<close>] pt_tree_def by (auto split: if_splits)
  next
    fix q q' u assume q: "is_path q" "is_path q'" "walk ?m' t q = Some u" "walk ?m' t q' = Some u"
    show "q = q'"
      using q(3,4) fresh [OF q(1)] fresh [OF q(2)] tree(1) q(1,2)
      unfolding walks [OF q(1)] walks [OF q(2)] pt_tree_def by (auto split: if_splits)
  qed
  have pte': "pte ?m' t x y z d = pte ?m t x y z d" if "x < 512" "y < 512" "z < 512" "d < 512" for x y z d
  proof -
    have path: "is_path [x, y, z]" using that by (simp add: is_path_def)
    show ?thesis
    proof (cases "[x, y, z] = p @ [i]")
      case True
      then have "walk ?m' t [x, y, z] = Some a" using walks [OF path] by presburger
      moreover have "walk ?m t [x, y, z] = None" unfolding True by (rule gone)
      ultimately show ?thesis unfolding pte_def using zero that(4) by simp
    next
      case False
      then have w: "walk ?m' t [x, y, z] = walk ?m t [x, y, z]" using walks [OF path] by presburger
      show ?thesis
      proof (cases "walk ?m t [x, y, z]")
        case (Some u)
        have "u \<noteq> r"
        proof
          assume "u = r"
          then have "[x, y, z] = p" using tree(1) ip(1) path p(2) Some unfolding pt_tree_def by blast
          then have "length p = 3" by auto
          then show False using p(1) by (simp add: is_path_def)
        qed
        moreover have "page_aligned u" using tree(1) Some by (rule pt_tree_aligned)
        ultimately show ?thesis unfolding pte_def w using r ip that(4) Some by (simp add: entry_set_entry)
      qed (simp add: pte_def w)
    qed
  qed
  show "walk (phys_mem (write_entry r i v s)) t (p @ [i]) = Some a" using walks [OF p(1)] by simp
  have old: "is_path q \<Longrightarrow> walk (phys_mem s0) t q = Some u \<Longrightarrow> walk ?m t q = Some u"
    and new: "is_path q \<Longrightarrow> walk ?m t q = Some u \<Longrightarrow> walk (phys_mem s0) t q = Some u \<or> u \<in> free_addrs s0"
    and pte0: "x < 512 \<Longrightarrow> y < 512 \<Longrightarrow> z < 512 \<Longrightarrow> d < 512 \<Longrightarrow> pte ?m t x y z d = pte (phys_mem s0) t x y z d"
    for q u x y z d using grow unfolding space_grows_def by blast+
  have "walk ?m' t q = Some u" if "is_path q" "walk (phys_mem s0) t q = Some u" for q u
    using walks [OF that(1)] old [OF that] gone [of "[]"] by auto
  moreover have "walk (phys_mem s0) t q = Some u \<or> u \<in> free_addrs s0" if "is_path q" "walk ?m' t q = Some u" for q u
    using walks [OF that(1)] new [OF that(1), of u] that(2) tree(2) by (auto split: if_splits)
  ultimately show "space_grows t s0 (write_entry r i v s)"
    using inv sub tree' pte' pte0 unfolding space_grows_def by simp
qed

text \<open>\<open>vmm_get_or_create_table\<close> on a table of the tree.\<close>

lemma get_or_create_spec:
  fixes s :: "'a pmm_scheme"
  assumes inv: "pmm_inv s" and tree: "pt_tree (phys_mem s) (free_addrs s) t"
    and p: "is_path (p @ [i])" "walk (phys_mem s) t p = Some r"
    and flags: "flags AND NOT 0xFFF = 0" and res: "vmm_get_or_create_table r i flags s = (q, s')"
  shows "space_grows t s s'" "q = 0 \<Longrightarrow> s' = s \<and> free_addrs s = {}"
    "q \<noteq> 0 \<Longrightarrow> walk (phys_mem s') t (p @ [i]) = Some q"
    "\<And>u j. page_aligned u \<Longrightarrow> u \<notin> free_addrs s \<Longrightarrow> u \<noteq> r \<Longrightarrow> j < 512 \<Longrightarrow>
      entry (phys_mem s') u j = entry (phys_mem s) u j"
    "\<And>p u. is_path p \<Longrightarrow> walk (phys_mem s') t p = Some u \<Longrightarrow>
      walk (phys_mem s) t p = Some u \<or> u \<in> free_addrs s"
proof -
  let ?e = "entry (phys_mem s) r i"
  have ip: "is_path p" "i < 512" using p(1) by (simp_all add: is_path_snoc)
  have al_r: "page_aligned r" using tree p(2) by (rule pt_tree_aligned)
  have "space_grows t s s' \<and> (q = 0 \<longrightarrow> s' = s \<and> free_addrs s = {}) \<and>
    (q \<noteq> 0 \<longrightarrow> walk (phys_mem s') t (p @ [i]) = Some q) \<and>
    (\<forall>u j. page_aligned u \<longrightarrow> u \<notin> free_addrs s \<longrightarrow> u \<noteq> r \<longrightarrow> j < 512 \<longrightarrow>
      entry (phys_mem s') u j = entry (phys_mem s) u j)"
  proof (cases "present ?e")
    case True
    then have q: "q = page_base ?e" "s' = s" using res by (auto simp: vmm_get_or_create_table_def Let_def)
    have w: "walk (phys_mem s) t (p @ [i]) = Some (page_base ?e)" using True p(2) by (simp add: walk_snoc)
    then have "page_base ?e \<noteq> 0" using tree p(1) unfolding pt_tree_def by blast
    with q w inv tree show ?thesis by (simp add: space_grows_refl)
  next
    case False
    obtain a s1 where al: "pmm_alloc_page s = (a, s1)" by (cases "pmm_alloc_page s")
    show ?thesis
    proof (cases "a = 0")
      case True
      with al False res have "q = 0" "s' = s1" by (simp_all add: vmm_get_or_create_table_def Let_def)
      moreover have "free_addrs s = {}" "s1 = s" using frames.alloc_zero [OF inv] al True by blast+
      ultimately show ?thesis using inv tree by (simp add: space_grows_refl)
    next
      case a: False
      let ?v = "page_base a OR flags OR 1"
      have q: "q = a" "s' = write_entry r i ?v s1"
        using al False a res by (auto simp: vmm_get_or_create_table_def Let_def)
      note taken = frames.alloc_taken [OF inv al a]
      note grow = alloc_keeps_space [OF inv tree al]
      have s1: "pmm_inv s1" "pt_tree (phys_mem s1) (free_addrs s1) t" using grow(1) by (simp_all add: space_grows_def)
      have w1: "walk (phys_mem s1) t p = Some r" using grow(1) ip(1) p(2) by (simp add: space_grows_def)
      have e1: "\<not> present (entry (phys_mem s1) r i)" using False grow(2) [OF ip(1) p(2) ip(2)] by simp
      have v: "present ?v" "page_base ?v = a"
        using entry_flags [OF flags, of a] taken(4) by (simp_all add: present_bit bit_or_iff)
      note new = new_table_grows [OF grow(1,3) taken(1,2,4) a
          frames.new_table_empty [OF inv al a] p(1) w1 e1 v]
      have "entry (phys_mem s') u j = entry (phys_mem s) u j"
        if "page_aligned u" "u \<notin> free_addrs s" "u \<noteq> r" "j < 512" for u j
        using that frames.other_table_kept [OF inv al that(1,2,4)] al_r ip(2) by (simp add: q entry_set_entry)
      moreover have "space_grows t s s'" using new(1) q(2) by simp
      ultimately show ?thesis using new(2) q a by simp
    qed
  qed
  then show "space_grows t s s'" "q = 0 \<Longrightarrow> s' = s \<and> free_addrs s = {}"
    "q \<noteq> 0 \<Longrightarrow> walk (phys_mem s') t (p @ [i]) = Some q"
    "\<And>u j. page_aligned u \<Longrightarrow> u \<notin> free_addrs s \<Longrightarrow> u \<noteq> r \<Longrightarrow> j < 512 \<Longrightarrow>
      entry (phys_mem s') u j = entry (phys_mem s) u j"
    "\<And>p u. is_path p \<Longrightarrow> walk (phys_mem s') t p = Some u \<Longrightarrow>
      walk (phys_mem s) t p = Some u \<or> u \<in> free_addrs s"
    by (blast, blast, blast, blast, unfold space_grows_def, blast)
qed

text \<open>The last write: one entry of a table of the last level.\<close>

lemma set_pte_spec:
  assumes tree: "pt_tree m F t" and w: "walk m t [a, b, c] = Some pt" and idx: "a < 512" "b < 512" "c < 512" "d < 512"
  shows "pt_tree (set_entry m pt d v) F t"
    and "x < 512 \<Longrightarrow> y < 512 \<Longrightarrow> z < 512 \<Longrightarrow> k < 512 \<Longrightarrow>
      pte (set_entry m pt d v) t x y z k = (if [x, y, z, k] = [a, b, c, d] then v else pte m t x y z k)"
    and "\<And>q. is_path q \<Longrightarrow> walk (set_entry m pt d v) t q = walk m t q"
proof -
  have p: "is_path [a, b, c]" using idx by (simp add: is_path_def)
  have al: "page_aligned pt" using tree w by (rule pt_tree_aligned)
  show walks: "walk (set_entry m pt d v) t q = walk m t q" if "is_path q" for q
  proof (rule walk_set_entry_other [OF tree p w idx(4) that])
    have "length ([a, b, c] @ d # q') \<noteq> length q" for q' using that by (simp add: is_path_def)
    then show "\<nexists>q'. q = [a, b, c] @ d # q'" by metis
  qed
  then show "pt_tree (set_entry m pt d v) F t" using tree by (simp add: pt_tree_def)
  show "pte (set_entry m pt d v) t x y z k = (if [x, y, z, k] = [a, b, c, d] then v else pte m t x y z k)"
    if x: "x < 512" "y < 512" "z < 512" "k < 512"
  proof -
    have q: "is_path [x, y, z]" using x by (simp add: is_path_def)
    show ?thesis
    proof (cases "walk m t [x, y, z]")
      case None
      then have "[x, y, z] \<noteq> [a, b, c]" using w by fastforce
      then show ?thesis unfolding pte_def walks [OF q] using None by auto
    next
      case (Some u)
      have "page_aligned u" using tree Some by (rule pt_tree_aligned)
      moreover have "u = pt \<longleftrightarrow> [x, y, z] = [a, b, c]"
        using tree Some w p q unfolding pt_tree_def by (metis option.inject)
      ultimately show ?thesis
        unfolding pte_def walks [OF q] using Some al idx(4) x(4) by (auto simp: entry_set_entry)
    qed
  qed
qed

section \<open>Mapping and unmapping\<close>

lemma bit_511 [simp]: "bit (511 :: int) n \<longleftrightarrow> n < 9"
proof -
  have "(511 :: int) = mask 9" by (simp add: mask_eq_exp_minus_1)
  then have "bit (511 :: int) n \<longleftrightarrow> bit (mask 9 :: int) n" by (rule arg_cong)
  also have "\<dots> \<longleftrightarrow> n < 9" by (simp only: bit_mask_iff) (simp add: possible_bit_def)
  finally show ?thesis .
qed

lemma index_less: "unat (w AND 0x1FF :: u64) < 512"
proof -
  have "w AND 0x1FF \<le> (0x1FF :: u64)" by (rule word_and_le1)
  then show ?thesis by (simp add: word_le_nat_alt)
qed

lemma PML4_INDEX_less [simp]: "PML4_INDEX v < 512" by (simp only: PML4_INDEX_def index_less)
lemma PDPT_INDEX_less [simp]: "PDPT_INDEX v < 512" by (simp only: PDPT_INDEX_def index_less)
lemma PD_INDEX_less [simp]: "PD_INDEX v < 512" by (simp only: PD_INDEX_def index_less)
lemma PT_INDEX_less [simp]: "PT_INDEX v < 512" by (simp only: PT_INDEX_def index_less)

lemma drop_bit_page_base: "12 \<le> n \<Longrightarrow> drop_bit n (page_base v) = drop_bit n v"
  by (rule bit_word_eqI) (auto simp: bit_drop_bit_eq bit_page_base dest: bit_imp_le_length)

lemma index_page_base [simp]:
  "PML4_INDEX (page_base v) = PML4_INDEX v" "PDPT_INDEX (page_base v) = PDPT_INDEX v"
  "PD_INDEX (page_base v) = PD_INDEX v" "PT_INDEX (page_base v) = PT_INDEX v"
  by (simp_all add: PML4_INDEX_def PDPT_INDEX_def PD_INDEX_def PT_INDEX_def drop_bit_page_base)

text \<open>Two virtual addresses lie in the same page of the 48-bit address space.\<close>

definition same_page :: "u64 \<Rightarrow> u64 \<Rightarrow> bool" where
  "same_page v w \<longleftrightarrow> drop_bit 12 (take_bit 48 v) = drop_bit 12 (take_bit 48 w)"

lemma index_eq_bits:
  fixes v w :: u64
  shows "unat (drop_bit n v AND 0x1FF) = unat (drop_bit n w AND 0x1FF) \<longleftrightarrow>
     (\<forall>k < 9. bit v (n + k) = bit w (n + k))"
proof -
  have "unat (drop_bit n v AND 0x1FF) = unat (drop_bit n w AND 0x1FF) \<longleftrightarrow>
      drop_bit n v AND 0x1FF = drop_bit n w AND 0x1FF" by (simp only: word_unat_eq_iff)
  also have "\<dots> \<longleftrightarrow> (\<forall>k < 64. k < 9 \<longrightarrow> bit v (n + k) = bit w (n + k))"
    by (auto simp: bit_eq_iff bit_and_iff bit_drop_bit_eq possible_bit_def)
  finally show ?thesis by auto
qed

lemma same_page_indices:
  "same_page v w \<longleftrightarrow> PML4_INDEX v = PML4_INDEX w \<and> PDPT_INDEX v = PDPT_INDEX w \<and>
     PD_INDEX v = PD_INDEX w \<and> PT_INDEX v = PT_INDEX w"
proof -
  have "same_page v w \<longleftrightarrow> (\<forall>k < 64. 12 + k < 48 \<longrightarrow> bit v (12 + k) = bit w (12 + k))"
    unfolding same_page_def by (auto simp: bit_eq_iff bit_drop_bit_eq bit_take_bit_iff possible_bit_def)
  also have "\<dots> \<longleftrightarrow> (\<forall>j. 12 \<le> j \<and> j < 48 \<longrightarrow> bit v j = bit w j)" (is "?L \<longleftrightarrow> ?R")
  proof
    assume ?L
    show ?R
    proof (intro allI impI)
      fix j :: nat assume "12 \<le> j \<and> j < 48"
      with \<open>?L\<close> [rule_format, of "j - 12"] show "bit v j = bit w j" by simp
    qed
  qed simp
  also have "\<dots> \<longleftrightarrow> (\<forall>k < 9. bit v (39 + k) = bit w (39 + k)) \<and> (\<forall>k < 9. bit v (30 + k) = bit w (30 + k)) \<and>
      (\<forall>k < 9. bit v (21 + k) = bit w (21 + k)) \<and> (\<forall>k < 9. bit v (12 + k) = bit w (12 + k))" (is "?R \<longleftrightarrow> ?S")
  proof
    assume s: ?S
    show ?R
    proof (intro allI impI)
      fix j :: nat assume j: "12 \<le> j \<and> j < 48"
      then consider "j - 39 < 9" "39 \<le> j" | "j - 30 < 9" "30 \<le> j" | "j - 21 < 9" "21 \<le> j" | "j - 12 < 9"
        by linarith
      then show "bit v j = bit w j"
        using s j by cases (metis le_add_diff_inverse)+
    qed
  qed simp
  finally show ?thesis
    unfolding PML4_INDEX_def PDPT_INDEX_def PD_INDEX_def PT_INDEX_def index_eq_bits .
qed

lemma table_flags_low: "table_flags v AND NOT 0xFFF = 0"
  by (simp add: table_flags_def Let_def)

text \<open>The tables that lie on the way to a virtual address.\<close>

definition tables_on_way :: "pmem \<Rightarrow> u64 \<Rightarrow> u64 \<Rightarrow> u64 set" where
  "tables_on_way m t v = {u. walk m t [] = Some u \<or> walk m t [PML4_INDEX v] = Some u \<or>
     walk m t [PML4_INDEX v, PDPT_INDEX v] = Some u \<or>
     walk m t [PML4_INDEX v, PDPT_INDEX v, PD_INDEX v] = Some u}"

lemma grown_table:
  assumes "space_grows t s s'" "is_path q" "walk (phys_mem s') t q = Some u" "u \<notin> free_addrs s"
    and "pt_tree (phys_mem s) (free_addrs s) t" "is_path p" "walk (phys_mem s) t p = Some u"
  shows "p = q"
  using assms unfolding space_grows_def pt_tree_def by meson

lemma vmm_map_page_spec:
  fixes s :: "'a pmm_scheme"
  assumes inv: "pmm_inv s" and tree: "pt_tree (phys_mem s) (free_addrs s) t"
    and res: "vmm_map_page t virt phys flags s = (r, s')"
  shows "pmm_inv s' \<and> pt_tree (phys_mem s') (free_addrs s') t \<and> free_addrs s' \<subseteq> free_addrs s \<and>
    (r = -1 \<and> free_addrs s' = {} \<and> space_grows t s s' \<or>
     r = 0 \<and> (\<exists>s3 pt. space_grows t s s3 \<and>
       walk (phys_mem s3) t [PML4_INDEX virt, PDPT_INDEX virt, PD_INDEX virt] = Some pt \<and>
       s' = write_entry pt (PT_INDEX virt) (page_base phys OR flags OR 1) s3))"
proof -
  let ?f = "table_flags (page_base virt)" and ?a = "PML4_INDEX virt" and ?b = "PDPT_INDEX virt" and ?c = "PD_INDEX virt"
  note low = table_flags_low [of "page_base virt"]
  have paths: "is_path ([] @ [?a])" "is_path ([?a] @ [?b])" "is_path ([?a, ?b] @ [?c])"
    by (simp_all add: is_path_def)
  have fail: ?thesis if "s' = s1" "r = -1" "space_grows t s s1" "free_addrs s1 = {}" for s1
    using that by (simp add: space_grows_def)
  obtain pdpt s1 where 1: "vmm_get_or_create_table t ?a ?f s = (pdpt, s1)"
    by (cases "vmm_get_or_create_table t ?a ?f s")
  note g1 = get_or_create_spec [OF inv tree paths(1) _ low 1, simplified]
  show ?thesis
  proof (cases "pdpt = 0")
    case True
    show ?thesis by (rule fail [of s1]) (use g1 res 1 True in \<open>auto simp: vmm_map_page_def Let_def\<close>)
  next
    case n1: False
    have t1: "pmm_inv s1" "pt_tree (phys_mem s1) (free_addrs s1) t" "walk (phys_mem s1) t [?a] = Some pdpt"
      using g1(1,3) n1 by (simp_all add: space_grows_def)
    obtain pd s2 where 2: "vmm_get_or_create_table pdpt ?b ?f s1 = (pd, s2)"
      by (cases "vmm_get_or_create_table pdpt ?b ?f s1")
    note g2 = get_or_create_spec [OF t1(1,2) paths(2) t1(3) low 2, simplified]
    note g12 = space_grows_trans [OF g1(1) g2(1)]
    show ?thesis
    proof (cases "pd = 0")
      case True
      show ?thesis by (rule fail [of s2]) (use g12 g2 res 1 2 n1 True in \<open>auto simp: vmm_map_page_def Let_def\<close>)
    next
      case n2: False
      have t2: "pmm_inv s2" "pt_tree (phys_mem s2) (free_addrs s2) t" "walk (phys_mem s2) t [?a, ?b] = Some pd"
        using g2(1,3) n2 by (simp_all add: space_grows_def)
      obtain pt s3 where 3: "vmm_get_or_create_table pd ?c ?f s2 = (pt, s3)"
        by (cases "vmm_get_or_create_table pd ?c ?f s2")
      note g3 = get_or_create_spec [OF t2(1,2) paths(3) t2(3) low 3, simplified]
      note g123 = space_grows_trans [OF g12 g3(1)]
      show ?thesis
      proof (cases "pt = 0")
        case True
        show ?thesis
          by (rule fail [of s3]) (use g123 g3 res 1 2 3 n1 n2 True in \<open>auto simp: vmm_map_page_def Let_def\<close>)
      next
        case n3: False
        have t3: "pmm_inv s3" "pt_tree (phys_mem s3) (free_addrs s3) t" "walk (phys_mem s3) t [?a, ?b, ?c] = Some pt"
          "free_addrs s3 \<subseteq> free_addrs s"
          using g3(1,3) g123 n3 by (simp_all add: space_grows_def)
        have s': "r = 0" "s' = write_entry pt (PT_INDEX virt) (page_base phys OR flags OR 1) s3"
          using res 1 2 3 n1 n2 n3 by (auto simp: vmm_map_page_def Let_def)
        have "pt_tree (phys_mem s') (free_addrs s') t"
          using set_pte_spec(1) [OF t3(2,3)] s'(2) by simp
        then show ?thesis using t3 s' g123 by auto
      qed
    qed
  qed
qed

lemma vmm_map_page_pte:
  fixes s :: "'a pmm_scheme"
  assumes inv: "pmm_inv s" and tree: "pt_tree (phys_mem s) (free_addrs s) t"
    and res: "vmm_map_page t virt phys flags s = (0, s')"
    and idx: "a < 512" "b < 512" "c < 512" "d < 512"
  shows "pte (phys_mem s') t a b c d =
    (if [a, b, c, d] = [PML4_INDEX virt, PDPT_INDEX virt, PD_INDEX virt, PT_INDEX virt]
     then page_base phys OR flags OR 1 else pte (phys_mem s) t a b c d)"
proof -
  obtain s3 pt where s3: "space_grows t s s3"
      "walk (phys_mem s3) t [PML4_INDEX virt, PDPT_INDEX virt, PD_INDEX virt] = Some pt"
      "s' = write_entry pt (PT_INDEX virt) (page_base phys OR flags OR 1) s3"
    using vmm_map_page_spec [OF inv tree res] by auto
  have "pt_tree (phys_mem s3) (free_addrs s3) t" using s3(1) by (simp add: space_grows_def)
  from set_pte_spec(2) [OF this s3(2) _ _ _ _ idx] s3(1,3) idx show ?thesis
    by (simp add: space_grows_def)
qed

lemma vmm_map_page_fail_pte:
  fixes s :: "'a pmm_scheme"
  assumes "pmm_inv s" "pt_tree (phys_mem s) (free_addrs s) t"
    and "vmm_map_page t virt phys flags s = (r, s')" "r \<noteq> 0"
    and "a < 512" "b < 512" "c < 512" "d < 512"
  shows "r = -1 \<and> free_addrs s' = {} \<and> pte (phys_mem s') t a b c d = pte (phys_mem s) t a b c d"
  using vmm_map_page_spec [OF assms(1-3)] assms(4-) by (auto simp: space_grows_def)

text \<open>Unmapping clears the entry when there is one.\<close>

lemma vmm_unmap_page_spec:
  fixes s :: "'a pmm_scheme"
  assumes tree: "pt_tree (phys_mem s) F t"
  shows "pt_tree (phys_mem (vmm_unmap_page t virt s)) F t"
    and "a < 512 \<Longrightarrow> b < 512 \<Longrightarrow> c < 512 \<Longrightarrow> d < 512 \<Longrightarrow> pte (phys_mem (vmm_unmap_page t virt s)) t a b c d =
      (if [a, b, c, d] = [PML4_INDEX virt, PDPT_INDEX virt, PD_INDEX virt, PT_INDEX virt]
       then 0 else pte (phys_mem s) t a b c d)"
    and "pmm_inv (vmm_unmap_page t virt s) = pmm_inv s" "free_addrs (vmm_unmap_page t virt s) = free_addrs s"
proof -
  let ?path = "[PML4_INDEX virt, PDPT_INDEX virt, PD_INDEX virt]" and ?m = "phys_mem s"
  have nz: "is_path p \<Longrightarrow> walk ?m t p = Some u \<Longrightarrow> u \<noteq> 0" for p u using tree unfolding pt_tree_def by blast
  have un: "vmm_unmap_page t virt s =
      (case walk ?m t ?path of None \<Rightarrow> s | Some pt \<Rightarrow> write_entry pt (PT_INDEX virt) 0 s)"
  proof -
    let ?e4 = "entry ?m t (PML4_INDEX virt)"
    let ?e3 = "entry ?m (page_base ?e4) (PDPT_INDEX virt)"
    let ?e2 = "entry ?m (page_base ?e3) (PD_INDEX virt)"
    have "page_base ?e4 \<noteq> 0" if "present ?e4"
      using nz [of "[PML4_INDEX virt]"] that by (simp add: walk.simps is_path_def)
    moreover have "page_base ?e3 \<noteq> 0" if "present ?e4" "present ?e3"
      using nz [of "[PML4_INDEX virt, PDPT_INDEX virt]"] that by (simp add: walk.simps is_path_def)
    moreover have "page_base ?e2 \<noteq> 0" if "present ?e4" "present ?e3" "present ?e2"
      using nz [of ?path] that by (simp add: walk.simps is_path_def)
    ultimately show ?thesis
      by (cases "present ?e4"; cases "present ?e3"; cases "present ?e2")
        (simp_all add: vmm_unmap_page_def Let_def walk.simps)
  qed
  show "pmm_inv (vmm_unmap_page t virt s) = pmm_inv s" "free_addrs (vmm_unmap_page t virt s) = free_addrs s"
    unfolding un by (simp_all split: option.split)
  show "pt_tree (phys_mem (vmm_unmap_page t virt s)) F t"
    unfolding un using tree set_pte_spec(1) [OF tree] by (simp split: option.split)
  show "pte (phys_mem (vmm_unmap_page t virt s)) t a b c d =
      (if [a, b, c, d] = [PML4_INDEX virt, PDPT_INDEX virt, PD_INDEX virt, PT_INDEX virt]
       then 0 else pte ?m t a b c d)"
    if "a < 512" "b < 512" "c < 512" "d < 512"
  proof (cases "walk ?m t ?path")
    case None
    then have "pte ?m t (PML4_INDEX virt) (PDPT_INDEX virt) (PD_INDEX virt) d = 0" by (simp add: pte_def)
    with None show ?thesis unfolding un by auto
  next
    case (Some pt)
    from set_pte_spec(2) [OF tree Some _ _ _ _ that] Some show ?thesis unfolding un by simp
  qed
qed

text \<open>At most one frame is used per level, so three free frames are enough to map a page.\<close>

lemma finite_free_addrs [simp]: "finite (free_addrs s)"
  by (simp add: free_addrs_def)

lemma alloc_card:
  assumes "pmm_inv s" "pmm_alloc_page s = (a, s')"
  shows "card (free_addrs s) \<le> card (free_addrs s') + 1"
proof (cases "a = 0")
  case True
  then have "s' = s" using frames.alloc_zero assms by blast
  then show ?thesis by simp
next
  case False
  then have "free_addrs s' = free_addrs s - {a}" using frames.alloc_taken(3) [OF assms] by blast
  then show ?thesis by (cases "a \<in> free_addrs s") (auto simp: card_Diff_singleton_if)
qed

lemma get_or_create_card:
  "pmm_inv s \<Longrightarrow> vmm_get_or_create_table r i flags s = (q, s') \<Longrightarrow> card (free_addrs s) \<le> card (free_addrs s') + 1"
  using alloc_card [of s "fst (pmm_alloc_page s)" "snd (pmm_alloc_page s)"]
  by (auto simp: vmm_get_or_create_table_def Let_def split: if_splits prod.splits)

lemma get_or_create_inv:
  "pmm_inv s \<Longrightarrow> vmm_get_or_create_table r i flags s = (q, s') \<Longrightarrow> pmm_inv s'"
  using frames.alloc_ok by (auto simp: vmm_get_or_create_table_def Let_def split: if_splits prod.splits)

lemma vmm_map_page_elim:
  fixes s :: "'a pmm_scheme"
  assumes res: "vmm_map_page t virt phys flags s = (r, s')"
  defines "f \<equiv> table_flags (page_base virt)"
  obtains (fail1) "vmm_get_or_create_table t (PML4_INDEX virt) f s = (0, s')" "r = -1"
  | (fail2) pdpt s1 where "vmm_get_or_create_table t (PML4_INDEX virt) f s = (pdpt, s1)" "pdpt \<noteq> 0"
      "vmm_get_or_create_table pdpt (PDPT_INDEX virt) f s1 = (0, s')" "r = -1"
  | (fail3) pdpt s1 pd s2 where "vmm_get_or_create_table t (PML4_INDEX virt) f s = (pdpt, s1)" "pdpt \<noteq> 0"
      "vmm_get_or_create_table pdpt (PDPT_INDEX virt) f s1 = (pd, s2)" "pd \<noteq> 0"
      "vmm_get_or_create_table pd (PD_INDEX virt) f s2 = (0, s')" "r = -1"
  | (mapped) pdpt s1 pd s2 pt s3 where "vmm_get_or_create_table t (PML4_INDEX virt) f s = (pdpt, s1)" "pdpt \<noteq> 0"
      "vmm_get_or_create_table pdpt (PDPT_INDEX virt) f s1 = (pd, s2)" "pd \<noteq> 0"
      "vmm_get_or_create_table pd (PD_INDEX virt) f s2 = (pt, s3)" "pt \<noteq> 0"
      "r = 0" "s' = write_entry pt (PT_INDEX virt) (page_base phys OR flags OR 1) s3"
proof -
  obtain pdpt s1 where 1: "vmm_get_or_create_table t (PML4_INDEX virt) f s = (pdpt, s1)"
    by (cases "vmm_get_or_create_table t (PML4_INDEX virt) f s")
  obtain pd s2 where 2: "vmm_get_or_create_table pdpt (PDPT_INDEX virt) f s1 = (pd, s2)"
    by (cases "vmm_get_or_create_table pdpt (PDPT_INDEX virt) f s1")
  obtain pt s3 where 3: "vmm_get_or_create_table pd (PD_INDEX virt) f s2 = (pt, s3)"
    by (cases "vmm_get_or_create_table pd (PD_INDEX virt) f s2")
  have "(r, s') = (if pdpt = 0 then (-1, s1) else if pd = 0 then (-1, s2) else if pt = 0 then (-1, s3)
      else (0, write_entry pt (PT_INDEX virt) (page_base phys OR flags OR 1) s3))"
    using res 1 2 3 by (auto simp: vmm_map_page_def Let_def f_def split: if_splits)
  then show ?thesis using 1 2 3 fail1 fail2 fail3 mapped by (auto split: if_splits)
qed

lemma get_or_create_null:
  assumes "pmm_inv s" "vmm_get_or_create_table r i flags s = (0, s')"
  shows "s' = s"
proof -
  obtain a s1 where al: "pmm_alloc_page s = (a, s1)" by (cases "pmm_alloc_page s")
  have "s1 = s" if "a = 0" using frames.alloc_zero [OF assms(1)] al that by blast
  with al assms(2) show ?thesis
    by (cases "present (entry (phys_mem s) r i)"; cases "a = 0")
      (simp_all add: vmm_get_or_create_table_def Let_def)
qed

lemma vmm_map_page_card:
  fixes s :: "'a pmm_scheme"
  assumes inv: "pmm_inv s" and res: "vmm_map_page t virt phys flags s = (r, s')"
  shows "card (free_addrs s) \<le> card (free_addrs s') + (if r = 0 then 3 else 2)"
  using res
proof (cases rule: vmm_map_page_elim)
  case fail1
  then show ?thesis using get_or_create_null [OF inv fail1(1)] by simp
next
  case (fail2 pdpt s1)
  then have "pmm_inv s1" using get_or_create_inv [OF inv] by blast
  then show ?thesis
    using get_or_create_card [OF inv fail2(1)] get_or_create_null [OF _ fail2(3)] fail2(4) by simp
next
  case (fail3 pdpt s1 pd s2)
  then have i: "pmm_inv s1" "pmm_inv s2" using inv get_or_create_inv by blast+
  show ?thesis
    using get_or_create_card [OF inv fail3(1)] get_or_create_card [OF i(1) fail3(3)]
      get_or_create_null [OF i(2) fail3(5)] fail3(6) by simp
next
  case (mapped pdpt s1 pd s2 pt s3)
  then have i: "pmm_inv s1" "pmm_inv s2" using inv get_or_create_inv by blast+
  show ?thesis
    using get_or_create_card [OF inv mapped(1)] get_or_create_card [OF i(1) mapped(3)]
      get_or_create_card [OF i(2) mapped(5)] mapped(7,8) by simp
qed

lemma vmm_map_page_succeeds:
  fixes s :: "'a pmm_scheme"
  assumes "pmm_inv s" "pt_tree (phys_mem s) (free_addrs s) t"
    and "vmm_map_page t virt phys flags s = (r, s')" "3 \<le> card (free_addrs s)"
  shows "r = 0"
  using vmm_map_page_spec [OF assms(1-3)] vmm_map_page_card [OF assms(1,3)] assms(4) by auto

text \<open>Tables outside the way to the mapped page and outside the free frames keep their entries.\<close>

lemma vmm_map_page_frame:
  fixes s :: "'a pmm_scheme"
  assumes inv: "pmm_inv s" and tree: "pt_tree (phys_mem s) (free_addrs s) t"
    and res: "vmm_map_page t virt phys flags s = (r, s')"
    and u: "page_aligned u" "u \<notin> free_addrs s" "u \<notin> tables_on_way (phys_mem s) t virt" "j < 512"
  shows "entry (phys_mem s') u j = entry (phys_mem s) u j"
proof -
  let ?f = "table_flags (page_base virt)" and ?a = "PML4_INDEX virt" and ?b = "PDPT_INDEX virt" and ?c = "PD_INDEX virt"
  note low = table_flags_low [of "page_base virt"]
  have paths: "is_path ([] @ [?a])" "is_path ([?a] @ [?b])" "is_path ([?a, ?b] @ [?c])"
    by (simp_all add: is_path_def)
  have way: "u \<noteq> t" "walk (phys_mem s) t [?a] \<noteq> Some u" "walk (phys_mem s) t [?a, ?b] \<noteq> Some u"
      "walk (phys_mem s) t [?a, ?b, ?c] \<noteq> Some u"
    using u(3) by (auto simp: tables_on_way_def)
  obtain pdpt s1 where 1: "vmm_get_or_create_table t ?a ?f s = (pdpt, s1)"
    by (cases "vmm_get_or_create_table t ?a ?f s")
  note g1 = get_or_create_spec [OF inv tree paths(1) _ low 1, simplified]
  have e1: "entry (phys_mem s1) u j = entry (phys_mem s) u j" using g1(4) u(1,2,4) way(1) by blast
  show ?thesis
  proof (cases "pdpt = 0")
    case True
    with e1 res 1 show ?thesis by (auto simp: vmm_map_page_def Let_def)
  next
    case n1: False
    have t1: "pmm_inv s1" "pt_tree (phys_mem s1) (free_addrs s1) t" "walk (phys_mem s1) t [?a] = Some pdpt"
        "u \<notin> free_addrs s1"
      using g1(1,3) n1 u(2) by (auto simp: space_grows_def)
    have "u \<noteq> pdpt" using g1(5) [of "[?a]" pdpt] t1(3) way(2) u(2) paths(1) by auto
    obtain pd s2 where 2: "vmm_get_or_create_table pdpt ?b ?f s1 = (pd, s2)"
      by (cases "vmm_get_or_create_table pdpt ?b ?f s1")
    note g2 = get_or_create_spec [OF t1(1,2) paths(2) t1(3) low 2, simplified]
    have e2: "entry (phys_mem s2) u j = entry (phys_mem s) u j" using g2(4) u(1,4) t1(4) \<open>u \<noteq> pdpt\<close> e1 by simp
    show ?thesis
    proof (cases "pd = 0")
      case True
      with e2 res 1 2 n1 show ?thesis by (auto simp: vmm_map_page_def Let_def)
    next
      case n2: False
      have t2: "pmm_inv s2" "pt_tree (phys_mem s2) (free_addrs s2) t" "walk (phys_mem s2) t [?a, ?b] = Some pd"
          "u \<notin> free_addrs s2"
        using g2(1,3) n2 t1(4) by (auto simp: space_grows_def)
      have "u \<noteq> pd"
        using g2(5) [of "[?a, ?b]" pd] g1(5) [of "[?a, ?b]" pd] t2(3) way(3) u(2) t1(4) paths(2) by auto
      obtain pt s3 where 3: "vmm_get_or_create_table pd ?c ?f s2 = (pt, s3)"
        by (cases "vmm_get_or_create_table pd ?c ?f s2")
      note g3 = get_or_create_spec [OF t2(1,2) paths(3) t2(3) low 3, simplified]
      have e3: "entry (phys_mem s3) u j = entry (phys_mem s) u j" using g3(4) u(1,4) t2(4) \<open>u \<noteq> pd\<close> e2 by simp
      show ?thesis
      proof (cases "pt = 0")
        case True
        with e3 res 1 2 3 n1 n2 show ?thesis by (auto simp: vmm_map_page_def Let_def)
      next
        case n3: False
        have w3: "walk (phys_mem s3) t [?a, ?b, ?c] = Some pt" "pt_tree (phys_mem s3) (free_addrs s3) t"
          using g3(1,3) n3 by (simp_all add: space_grows_def)
        have "u \<noteq> pt"
          using g3(5) [of "[?a, ?b, ?c]" pt] g2(5) [of "[?a, ?b, ?c]" pt] g1(5) [of "[?a, ?b, ?c]" pt]
            w3(1) way(4) u(2) t1(4) t2(4) paths(3) by auto
        moreover have "page_aligned pt" using w3(2,1) by (rule pt_tree_aligned)
        ultimately show ?thesis
          using res 1 2 3 n1 n2 n3 e3 u(1,4) by (auto simp: vmm_map_page_def Let_def entry_set_entry)
      qed
    qed
  qed
qed

section \<open>Allocating user pages\<close>

lemma pmm_alloc_page_total: "pmm_alloc_page s = (a, s') \<Longrightarrow> pmm_total_pages s' = pmm_total_pages s"
  by (auto simp: pmm_alloc_page_def Let_def split: option.splits)

lemma get_or_create_total:
  "vmm_get_or_create_table r i flags s = (q, s') \<Longrightarrow> pmm_total_pages s' = pmm_total_pages s"
  by (cases "pmm_alloc_page s")
    (auto simp: vmm_get_or_create_table_def Let_def split: if_splits dest: pmm_alloc_page_total)

lemma vmm_map_page_total:
  "vmm_map_page t virt phys flags s = (r, s') \<Longrightarrow> pmm_total_pages s' = pmm_total_pages s"
  by (erule vmm_map_page_elim) (auto dest!: get_or_create_total)

text \<open>A frame just taken from the allocator can be returned to it.\<close>

lemma free_taken_frame:
  fixes s2 :: "'a pmm_scheme"
  assumes "pmm_inv s" "a \<in> free_addrs s" "pmm_inv s2" "a \<notin> free_addrs s2"
    and "pmm_total_pages s2 = pmm_total_pages s"
  obtains s3 where "pmm_free_page a s2 = Inr s3" "pmm_inv s3" "free_addrs s3 = insert a (free_addrs s2)"
    "phys_mem s3 = phys_mem s2" "pmm_total_pages s3 = pmm_total_pages s2"
proof -
  obtain p where p: "p \<in> free_frames s" "a = of_nat p * 4096" using assms(2) by (auto simp: free_addrs_def)
  have b: "1024 \<le> p" "p < 1048576" using free_frames_bound [OF assms(1) p(1)] by simp_all
  have lt: "p < unat (pmm_total_pages s)" using assms(1) p(1) by (simp add: pmm_inv_def)
  have d: "unat a div 4096 = p" using b p(2) by (simp add: unat_frame_addr)
  have nf: "p \<notin> free_frames s2" using assms(4) p(2) by (auto simp: free_addrs_def)
  have "page_aligned a" using p(2) b(2) by (simp add: page_aligned_frame)
  moreover have "0x400000 \<le> a" using b p(2) by (simp add: word_le_nat_alt unat_frame_addr)
  moreover have "unat a div 4096 < unat (pmm_total_pages s2)" using d lt assms(5) by simp
  moreover have "unat a div 4096 \<notin> free_frames s2" using d nf by simp
  ultimately obtain s3 where s3: "pmm_free_page a s2 = Inr s3" "pmm_inv s3"
      "free_frames s3 = insert (unat a div 4096) (free_frames s2)" "phys_mem s3 = phys_mem s2"
      "pmm_total_pages s3 = pmm_total_pages s2"
    by (rule pmm_free_page_ok [OF assms(3)])
  have "free_addrs s3 = insert a (free_addrs s2)" unfolding free_addrs_def s3(3) d using p(2) by simp
  with s3 show ?thesis by (intro that)
qed

text \<open>What a space translates to, as a function of the virtual address.\<close>

definition page_va :: "u64 \<Rightarrow> nat \<Rightarrow> u64" where
  "page_va virt_addr i = virt_addr + of_nat i * 4096"

lemma vmm_map_page_physical:
  fixes s :: "'a pmm_scheme"
  assumes inv: "pmm_inv s" and tree: "pt_tree (phys_mem s) (free_addrs s) t"
    and res: "vmm_map_page t virt phys flags s = (0, s')" and low: "flags AND NOT 0xFFF = 0"
  shows "vmm_get_physical t v s' =
    (if same_page v virt then page_base phys OR (v AND 0xFFF) else vmm_get_physical t v s)"
proof -
  have e: "page_base (page_base phys OR flags OR 1) = page_base phys" using low by (rule entry_flags)
  have pres: "present (page_base phys OR flags OR 1)" by (simp add: present_bit bit_or_iff)
  show ?thesis
    unfolding vmm_get_physical_pte Let_def vmm_map_page_pte [OF inv tree res PML4_INDEX_less PDPT_INDEX_less PD_INDEX_less PT_INDEX_less]
      same_page_indices using e pres by auto
qed

lemma space_grows_physical: "space_grows t s s' \<Longrightarrow> vmm_get_physical t v s' = vmm_get_physical t v s"
  by (simp add: vmm_get_physical_pte space_grows_def)

lemma same_page_refl [simp]: "same_page v v" by (simp add: same_page_def)

lemma alloc_user_page_fails:
  fixes s :: "'a pmm_scheme"
  assumes inv: "pmm_inv s" and tree: "pt_tree (phys_mem s) (free_addrs s) t"
    and al: "pmm_alloc_page s = (a, s1)" "a \<noteq> 0" and m: "vmm_map_page t v a fl s1 = (r, s2)" "r \<noteq> 0"
  shows "\<exists>s3. pmm_free_page a s2 = Inr s3 \<and> pmm_inv s3 \<and> pt_tree (phys_mem s3) (free_addrs s3) t \<and>
    r = -1 \<and> card (free_addrs s) < 4"
proof -
  note taken = frames.alloc_taken [OF inv al] and grow = alloc_keeps_space [OF inv tree al(1)]
  have s1: "pmm_inv s1" "pt_tree (phys_mem s1) (free_addrs s1) t" using grow(1) by (simp_all add: space_grows_def)
  have r: "r = -1" "free_addrs s2 = {}" "space_grows t s1 s2" "pmm_inv s2" "pt_tree (phys_mem s2) {} t"
    using vmm_map_page_spec [OF s1 m(1)] m(2) by auto
  have tot: "pmm_total_pages s2 = pmm_total_pages s"
    using vmm_map_page_total [OF m(1)] pmm_alloc_page_total [OF al(1)] by simp
  obtain s3 where s3: "pmm_free_page a s2 = Inr s3" "pmm_inv s3" "free_addrs s3 = insert a (free_addrs s2)"
      "phys_mem s3 = phys_mem s2"
    by (rule free_taken_frame [OF inv taken(1) r(4) _ tot]) (simp_all add: r(2))
  have "walk (phys_mem s2) t q \<noteq> Some a" if "is_path q" for q
    using r(3) grow(3) taken(1,2) that unfolding space_grows_def pt_tree_def by blast
  then have "pt_tree (phys_mem s3) (free_addrs s3) t"
    using r(5) unfolding pt_tree_def s3(3,4) r(2) by blast
  moreover have "card (free_addrs s) < 4"
    using alloc_card [OF inv al(1)] vmm_map_page_card [OF s1(1) m(1)] r(2) m(2) by simp
  ultimately show ?thesis using s3 r(1) by blast
qed

definition user_pages_mapped ::
  "nat set \<Rightarrow> u64 \<Rightarrow> u64 \<Rightarrow> 'a pmm_scheme \<Rightarrow> 'a pmm_scheme \<Rightarrow> bool" where
  "user_pages_mapped I va t s s' \<longleftrightarrow> free_addrs s' \<subseteq> free_addrs s \<and>
     (\<exists>f. inj_on f I \<and> f ` I \<subseteq> free_addrs s - free_addrs s' \<and>
        (\<forall>i \<in> I. \<forall>v. same_page v (page_va va i) \<longrightarrow> vmm_get_physical t v s' = f i OR (v AND 0xFFF)) \<and>
        (\<forall>v. (\<forall>i \<in> I. \<not> same_page v (page_va va i)) \<longrightarrow> vmm_get_physical t v s' = vmm_get_physical t v s))"

lemma user_pages_mapped_insert:
  fixes s :: "'a pmm_scheme"
  assumes inv: "pmm_inv s" and tree: "pt_tree (phys_mem s) (free_addrs s) t"
    and al: "pmm_alloc_page s = (a, s1)" "a \<noteq> 0" and m: "vmm_map_page t (page_va va i) a 7 s1 = (0, s2)"
    and rest: "user_pages_mapped I va t s2 s'" and i: "i \<notin> I" "\<forall>j \<in> I. \<not> same_page (page_va va i) (page_va va j)"
  shows "user_pages_mapped (insert i I) va t s s'"
proof -
  note taken = frames.alloc_taken [OF inv al] and grow = alloc_keeps_space [OF inv tree al(1)]
  have s1: "pmm_inv s1" "pt_tree (phys_mem s1) (free_addrs s1) t" using grow(1) by (simp_all add: space_grows_def)
  have sub: "free_addrs s2 \<subseteq> free_addrs s1" using vmm_map_page_spec [OF s1 m] by simp
  have phys: "vmm_get_physical t v s2 = (if same_page v (page_va va i) then a OR (v AND 0xFFF) else vmm_get_physical t v s)" for v
    using vmm_map_page_physical [OF s1 m, of v] taken(4) space_grows_physical [OF grow(1), of v] by simp
  obtain f where f: "inj_on f I" "f ` I \<subseteq> free_addrs s2 - free_addrs s'" "free_addrs s' \<subseteq> free_addrs s2"
      "\<And>j v. j \<in> I \<Longrightarrow> same_page v (page_va va j) \<Longrightarrow> vmm_get_physical t v s' = f j OR (v AND 0xFFF)"
      "\<And>v. (\<forall>j \<in> I. \<not> same_page v (page_va va j)) \<Longrightarrow> vmm_get_physical t v s' = vmm_get_physical t v s2"
    using rest unfolding user_pages_mapped_def by blast
  let ?f = "f(i := a)"
  have a: "a \<notin> free_addrs s2" "a \<in> free_addrs s" "a \<notin> free_addrs s'" using taken(1,2) sub f(3) by blast+
  have "inj_on ?f (insert i I)" using f(1,2) i(1) a(1) by (auto simp: inj_on_def)
  moreover have "?f ` insert i I \<subseteq> free_addrs s - free_addrs s'" using f(2) a i(1) sub taken(3) by auto
  moreover have "vmm_get_physical t v s' = ?f j OR (v AND 0xFFF)"
    if "j \<in> insert i I" "same_page v (page_va va j)" for j v
  proof (cases "j = i")
    case True
    then have "\<forall>j \<in> I. \<not> same_page v (page_va va j)" using i(2) that(2) by (simp add: same_page_def)
    then show ?thesis using f(5) phys [of v] True that(2) by simp
  qed (use that f(4) in simp)
  moreover have "vmm_get_physical t v s' = vmm_get_physical t v s"
    if "\<forall>j \<in> insert i I. \<not> same_page v (page_va va j)" for v
    using that f(5) [of v] phys [of v] by simp
  ultimately show ?thesis
    unfolding user_pages_mapped_def using f(3) sub taken(3) by blast
qed

lemma alloc_user_pages_loop_spec:
  fixes s :: "'a pmm_scheme"
  assumes "pmm_inv s" "pt_tree (phys_mem s) (free_addrs s) (page_table p)"
    and "pairwise (\<lambda>i j. \<not> same_page (page_va va i) (page_va va j)) (set is)" "distinct is"
  shows "\<exists>r p' s'. alloc_user_pages_loop is va p s = Inr (r, p', s') \<and> pmm_inv s' \<and>
    pt_tree (phys_mem s') (free_addrs s') (page_table p) \<and>
    (r = 0 \<and> p' = p\<lparr>pages_allocated := pages_allocated p + of_nat (length is)\<rparr> \<and>
       user_pages_mapped (set is) va (page_table p) s s' \<or>
     r = -1 \<and> card (free_addrs s) < 4 * length is)"
  using assms
proof (induction "is" arbitrary: p s)
  case Nil
  then show ?case by (simp add: user_pages_mapped_def)
next
  case (Cons i "is")
  let ?t = "page_table p" and ?v = "page_va va i"
  obtain a s1 where al: "pmm_alloc_page s = (a, s1)" by (cases "pmm_alloc_page s")
  show ?case
  proof (cases "a = 0")
    case True
    then have "free_addrs s = {}" "s1 = s" using frames.alloc_zero Cons.prems(1) al by blast+
    then show ?thesis using al True Cons.prems by simp
  next
    case a: False
    obtain r s2 where m: "vmm_map_page ?t ?v a 7 s1 = (r, s2)" by (cases "vmm_map_page ?t ?v a 7 s1")
    show ?thesis
    proof (cases "r = 0")
      case False
      obtain s3 where "pmm_free_page a s2 = Inr s3" "pmm_inv s3" "pt_tree (phys_mem s3) (free_addrs s3) ?t"
          "r = -1" "card (free_addrs s) < 4"
        using alloc_user_page_fails [OF Cons.prems(1,2) al a m False] by blast
      then show ?thesis using al a m by (simp add: page_va_def)
    next
      case True
      let ?p = "p\<lparr>pages_allocated := pages_allocated p + 1\<rparr>"
      note m0 = m [unfolded True]
      have s1: "pmm_inv s1" "pt_tree (phys_mem s1) (free_addrs s1) ?t"
        using alloc_keeps_space(1) [OF Cons.prems(1,2) al] by (simp_all add: space_grows_def)
      have s2: "pmm_inv s2" "pt_tree (phys_mem s2) (free_addrs s2) ?t" using vmm_map_page_spec [OF s1 m] by simp_all
      have step: "alloc_user_pages_loop (i # is) va p s = alloc_user_pages_loop is va ?p s2"
        using al a m0 by (simp add: page_va_def)
      have "card (free_addrs s) \<le> card (free_addrs s2) + 4"
        using alloc_card [OF Cons.prems(1) al] vmm_map_page_card [OF s1(1) m0] by simp
      moreover have "i \<notin> set is" "\<forall>j \<in> set is. \<not> same_page ?v (page_va va j)"
        using Cons.prems(3,4) by (auto simp: pairwise_insert)
      moreover have "pairwise (\<lambda>i j. \<not> same_page (page_va va i) (page_va va j)) (set is)" "distinct is"
        using Cons.prems(3,4) by (auto simp: pairwise_insert)
      ultimately show ?thesis
        using Cons.IH [of s2 ?p] s2 user_pages_mapped_insert [OF Cons.prems(1,2) al a m0]
        unfolding step by (auto simp: algebra_simps)
    qed
  qed
qed

section \<open>Creating and clearing address spaces\<close>

lemma fold_write_entry_inv [simp]:
  fixes s :: "'a pmm_scheme"
  shows "pmm_inv (fold (\<lambda>i s. write_entry t i (h i s) s) is s) = pmm_inv s"
    "free_addrs (fold (\<lambda>i s. write_entry t i (h i s) s) is s) = free_addrs s"
  by (induction "is" arbitrary: s) simp_all

lemma fold_write_entry:
  fixes s :: "'a machine_scheme"
  assumes "page_aligned t" "page_aligned u" "j < 512" "\<forall>i \<in> set is. i < 512" "distinct is"
    and "\<And>i k v s. i \<in> set is \<Longrightarrow> k \<in> set is \<Longrightarrow> i \<noteq> k \<Longrightarrow> h i (write_entry t k v s) = h i s"
  shows "entry (phys_mem (fold (\<lambda>i s. write_entry t i (h i s) s) is s)) u j =
    (if u = t \<and> j \<in> set is then h j s else entry (phys_mem s) u j)"
  using assms(4-6)
proof (induction "is" arbitrary: s)
  case (Cons i "is")
  have "entry (phys_mem (fold (\<lambda>i s. write_entry t i (h i s) s) is (write_entry t i (h i s) s))) u j =
      (if u = t \<and> j \<in> set is then h j (write_entry t i (h i s) s)
       else entry (phys_mem (write_entry t i (h i s) s)) u j)"
    using Cons.prems by (intro Cons.IH) auto
  then show ?case
    using assms(1-3) Cons.prems by (auto simp: entry_set_entry)
qed simp

lemma vmm_create_address_space_null:
  fixes s :: "'a vmm_scheme"
  assumes "pmm_inv s" "free_addrs s = {}"
  shows "vmm_create_address_space s = (0, s)"
  using frames.alloc_null [OF assms] by (simp add: vmm_create_address_space_def)

lemma fold_copy_entries:
  fixes s :: "'a vmm_scheme"
  assumes "page_aligned t" "page_aligned k" "t \<noteq> k" "page_aligned u" "j < 512" "\<forall>i \<in> set is. i < 512" "distinct is"
  shows "entry (phys_mem (fold (\<lambda>i s. write_entry t i (entry (phys_mem s) k i) s) is s)) u j =
    (if u = t \<and> j \<in> set is then entry (phys_mem s) k j else entry (phys_mem s) u j)"
  using assms by (intro fold_write_entry) (auto simp: entry_set_entry)

lemma fold_copy_pml4:
  fixes s :: "'a vmm_scheme"
  assumes "pml4 s = k"
  shows "fold (\<lambda>i s. write_entry t i (entry (phys_mem s) (pml4 s) i) s) is s =
    fold (\<lambda>i s. write_entry t i (entry (phys_mem s) k i) s) is s"
  using assms by (induction "is" arbitrary: s) (simp_all add: write_entry_def)

lemma vmm_create_entries:
  fixes s :: "'a vmm_scheme"
  assumes inv: "pmm_inv s" and kern: "page_aligned (pml4 s)" "pml4 s \<notin> free_addrs s"
    and res: "vmm_create_address_space s = (t, s')" "t \<noteq> 0"
  shows "page_aligned t" "t \<in> free_addrs s" "pmm_inv s'" "free_addrs s' = free_addrs s - {t}"
    "\<And>j. j < 512 \<Longrightarrow> entry (phys_mem s') t j = (if 256 \<le> j then entry (phys_mem s) (pml4 s) j else 0)"
    "\<And>u j. page_aligned u \<Longrightarrow> u \<notin> free_addrs s \<Longrightarrow> j < 512 \<Longrightarrow> entry (phys_mem s') u j = entry (phys_mem s) u j"
proof -
  obtain a s1 where al: "pmm_alloc_page s = (a, s1)" by (cases "pmm_alloc_page s")
  have pml: "pml4 s1 = pml4 s" using al by (auto simp: pmm_alloc_page_def Let_def split: option.splits)
  have a: "a = t" "s' = fold (\<lambda>i s1. write_entry t i (entry (phys_mem s1) (pml4 s) i) s1) (for_range 256 512) s1"
    using res al fold_copy_pml4 [OF pml] by (auto simp: vmm_create_address_space_def split: if_splits)
  have al': "pmm_alloc_page s = (t, s1)" using al a(1) by simp
  note taken = frames.alloc_taken [OF inv al' res(2)]
  have nt: "t \<noteq> pml4 s" using kern(2) taken(1) by auto
  note copied = fold_copy_entries [OF taken(4) kern(1) nt, of _ _ "for_range 256 512" s1, folded a(2), simplified]
  show "page_aligned t" "t \<in> free_addrs s" by (fact taken)+
  show "pmm_inv s'" "free_addrs s' = free_addrs s - {t}"
    using frames.alloc_ok [OF inv al'] taken(3) by (simp_all add: a(2))
  show "entry (phys_mem s') t j = (if 256 \<le> j then entry (phys_mem s) (pml4 s) j else 0)" if "j < 512" for j
    using copied [OF taken(4) that] that frames.new_table_empty [OF inv al' res(2) that]
      frames.other_table_kept [OF inv al' kern that] by simp
  show "entry (phys_mem s') u j = entry (phys_mem s) u j" if "page_aligned u" "u \<notin> free_addrs s" "j < 512" for u j
    using copied [OF that(1,3)] that taken(1) frames.other_table_kept [OF inv al' that] by auto
qed

text \<open>
  A top table whose lower half is empty and whose upper half holds the entries of the tree \<open>k\<close>.
\<close>

lemma shared_half_walk:
  assumes "\<And>j. j < 512 \<Longrightarrow> entry m' t j = (if 256 \<le> j then entry m k j else 0)"
    and "\<And>q r j. is_path q \<Longrightarrow> walk m k q = Some r \<Longrightarrow> j < 512 \<Longrightarrow> entry m' r j = entry m r j"
    and "is_path (i # q)"
  shows "walk m' t (i # q) = (if 256 \<le> i then walk m k (i # q) else None)"
proof -
  have i: "i < 512" using assms(3) by (simp add: is_path_def)
  have "walk m' k (i # q) = walk m k (i # q)" using assms(3,2) by (rule walk_cong)
  moreover have "entry m' k i = entry m k i" using assms(2) [of "[]" k i] i by simp
  ultimately show ?thesis
    using assms(1) [OF i] by (cases "present (entry m k i)") (simp_all add: walk.simps)
qed

lemma shared_half_space:
  assumes tree: "pt_tree m F k" "F' \<subseteq> F" and t: "page_aligned t" "t \<noteq> 0" "t \<in> F" "t \<notin> F'"
    and half: "\<And>j. j < 512 \<Longrightarrow> entry m' t j = (if 256 \<le> j then entry m k j else 0)"
    and same: "\<And>q r j. is_path q \<Longrightarrow> walk m k q = Some r \<Longrightarrow> j < 512 \<Longrightarrow> entry m' r j = entry m r j"
  shows "pt_tree m' F' t"
    and "a < 512 \<Longrightarrow> b < 512 \<Longrightarrow> c < 512 \<Longrightarrow> d < 512 \<Longrightarrow>
      pte m' t a b c d = (if 256 \<le> a then pte m k a b c d else 0)"
proof -
  have w: "walk m' t (i # q) = (if 256 \<le> i then walk m k (i # q) else None)" if "is_path (i # q)" for i q
    using half same that by (rule shared_half_walk)
  have tables: "walk m k q = Some r \<Longrightarrow> is_path q \<Longrightarrow> r \<noteq> 0 \<and> r \<notin> F' \<and> r \<noteq> t" for q r
    using tree t(3) unfolding pt_tree_def by blast
  have uniq: "walk m k q = Some r \<Longrightarrow> walk m k q' = Some r \<Longrightarrow> is_path q \<Longrightarrow> is_path q' \<Longrightarrow> q = q'" for q q' r
    using tree(1) unfolding pt_tree_def by blast
  have below: "walk m k q = Some r \<and> r \<noteq> t" if "is_path q" "walk m' t q = Some r" "q \<noteq> []" for q r
    using that w tables by (cases q) (auto split: if_splits)
  show "pt_tree m' F' t"
    unfolding pt_tree_def
  proof (intro conjI allI impI)
    fix q r assume q: "is_path q" "walk m' t q = Some r"
    show "r \<noteq> 0" using q below tables t by (cases "q = []") auto
    show "r \<notin> F'" using q below tables t by (cases "q = []") auto
  next
    fix q q' r assume q: "is_path q" "is_path q'" "walk m' t q = Some r" "walk m' t q' = Some r"
    show "q = q'"
      using below [OF q(1,3)] below [OF q(2,4)] q uniq by (cases "q = []"; cases "q' = []") auto
  qed (fact t(1))
  show "pte m' t a b c d = (if 256 \<le> a then pte m k a b c d else 0)"
    if "a < 512" "b < 512" "c < 512" "d < 512"
  proof -
    have p: "is_path [a, b, c]" using that by (simp add: is_path_def)
    show ?thesis
      unfolding pte_def w [OF p] using same [OF p] that(4) by (auto split: option.split)
  qed
qed

lemma vmm_clear_user_space_entries:
  fixes s :: "'a machine_scheme"
  assumes "page_aligned t" "page_aligned u" "j < 512" "\<forall>i \<in> set is. i < 512"
  shows "entry (phys_mem (fold (\<lambda>i s. if present (entry (phys_mem s) t i) then write_entry t i 0 s else s) is s)) u j =
    (if u = t \<and> j \<in> set is \<and> present (entry (phys_mem s) t j) then 0 else entry (phys_mem s) u j)"
  using assms(4)
proof (induction "is" arbitrary: s)
  case (Cons i "is")
  then show ?case using assms(1-3) by (auto simp: entry_set_entry)
qed simp

lemma cleared_half_space:
  assumes tree: "pt_tree m F t"
    and entries: "\<And>u j. page_aligned u \<Longrightarrow> j < 512 \<Longrightarrow>
      entry m' u j = (if u = t \<and> j < 256 \<and> present (entry m t j) then 0 else entry m u j)"
  shows "pt_tree m' F t"
    and "a < 512 \<Longrightarrow> b < 512 \<Longrightarrow> c < 512 \<Longrightarrow> d < 512 \<Longrightarrow>
      pte m' t a b c d = (if 256 \<le> a then pte m t a b c d else 0)"
proof -
  have t: "page_aligned t" using tree by (simp add: pt_tree_def)
  have self: "q = []" if "is_path q" "walk m t q = Some t" for q
    using tree that is_path_Nil walk.simps(1) unfolding pt_tree_def by blast
  have lower: "walk m' t (i # q) = None" if "i < 256" for i q
    using entries [OF t, of i] that by (auto simp: walk.simps)
  have upper: "walk m' t q = walk m t q" if "is_path q" "q = [] \<or> 256 \<le> hd q" for q
    using that
  proof (induction q rule: rev_induct)
    case (snoc j q)
    have p: "is_path q" "j < 512" and IH: "walk m' t q = walk m t q"
      using snoc by (auto simp: is_path_snoc hd_append split: if_splits)
    have "entry m' u j = entry m u j" if "walk m t q = Some u" for u
      using entries [OF pt_tree_aligned [OF tree that] p(2)] self [OF p(1)] that snoc.prems(2) by auto
    then show ?case using IH by (auto simp: walk_snoc split: option.split)
  qed simp
  have walks: "walk m' t q = (if q \<noteq> [] \<and> hd q < 256 then None else walk m t q)" if "is_path q" for q
    using upper [OF that] lower by (cases q) auto
  show "pt_tree m' F t"
    using tree unfolding pt_tree_def by (simp add: walks)
  show "pte m' t a b c d = (if 256 \<le> a then pte m t a b c d else 0)"
    if "a < 512" "b < 512" "c < 512" "d < 512"
  proof -
    have p: "is_path [a, b, c]" using that by (simp add: is_path_def)
    have "entry m' u d = entry m u d" if "walk m t [a, b, c] = Some u" for u
      using entries [OF pt_tree_aligned [OF tree that] \<open>d < 512\<close>] self [OF p] that by auto
    then show ?thesis unfolding pte_def walks [OF p] by (auto split: option.split)
  qed
qed

text \<open>Consecutive pages of the 48-bit address space are different pages.\<close>

lemma unat_page_number: "unat (drop_bit 12 (take_bit 48 v :: u64)) = unat v mod 2 ^ 48 div 4096"
  by (simp add: unat_drop_bit_eq unsigned_take_bit_eq take_bit_eq_mod drop_bit_eq_div unat_div unat_mod)

lemma page_va_distinct:
  assumes "unat va + 4096 * n \<le> 2 ^ 48" "i < n" "j < n" "i \<noteq> j"
  shows "\<not> same_page (page_va va i) (page_va va j)"
proof -
  have u: "unat (page_va va k) = unat va + k * 4096" if "k < n" for k
  proof -
    have "unat (of_nat k * 4096 :: u64) = k * 4096"
      using unat_of_nat_64 [of "k * 4096"] that assms(1) by simp
    with that assms(1) show ?thesis unfolding page_va_def by (subst unat_add_no_wrap) simp_all
  qed
  have "unat (drop_bit 12 (take_bit 48 (page_va va k))) = unat va div 4096 + k" if "k < n" for k
    using u [OF that] that assms(1) unfolding unat_page_number by simp
  with assms(2-4) show ?thesis unfolding same_page_def by (metis add_left_cancel)
qed

text \<open>Two address spaces that have at most tables of the kernel half in common.\<close>

definition share_kernel_only :: "pmem \<Rightarrow> u64 \<Rightarrow> u64 \<Rightarrow> bool" where
  "share_kernel_only m t t' \<longleftrightarrow>
     (\<forall>q q' u. is_path q \<longrightarrow> is_path q' \<longrightarrow> walk m t q = Some u \<longrightarrow> walk m t' q' = Some u \<longrightarrow>
        q \<noteq> [] \<and> 256 \<le> hd q)"

lemma share_kernel_way:
  assumes "share_kernel_only m t t'" "PML4_INDEX v < 256" "is_path q" "walk m t' q = Some u"
  shows "u \<notin> tables_on_way m t v"
proof
  assume "u \<in> tables_on_way m t v"
  then obtain p where "is_path p" "walk m t p = Some u" "p = [] \<or> hd p = PML4_INDEX v"
    unfolding tables_on_way_def
  proof (elim CollectE disjE)
    assume "walk m t [PML4_INDEX v] = Some u"
    then show thesis by (intro that [of "[PML4_INDEX v]"]) (simp_all add: is_path_def)
  next
    assume "walk m t [PML4_INDEX v, PDPT_INDEX v] = Some u"
    then show thesis by (intro that [of "[PML4_INDEX v, PDPT_INDEX v]"]) (simp_all add: is_path_def)
  next
    assume "walk m t [PML4_INDEX v, PDPT_INDEX v, PD_INDEX v] = Some u"
    then show thesis by (intro that [of "[PML4_INDEX v, PDPT_INDEX v, PD_INDEX v]"]) (simp_all add: is_path_def)
  qed (intro that [of "[]"], simp_all)
  with assms show False unfolding share_kernel_only_def by force
qed

section \<open>Correctness\<close>

text \<open>A freshly booted state with one empty address space, for the concrete instances.\<close>

lemma empty_table_space:
  assumes "page_aligned t" "t \<noteq> 0" "t \<notin> F" "\<And>j. j < 512 \<Longrightarrow> entry m t j = 0"
  shows "pt_tree m F t" "a < 512 \<Longrightarrow> pte m t a b c d = 0"
proof -
  have w: "walk m t (i # q) = None" if "i < 512" for i q using assms(4) [OF that] by (simp add: walk.simps)
  have "q = []" if "is_path q" "walk m t q = Some r" for q r
    using that w by (cases q) (auto simp: is_path_def)
  with assms(1-3) show "pt_tree m F t" unfolding pt_tree_def by (metis option.inject walk.simps(1))
  show "a < 512 \<Longrightarrow> pte m t a b c d = 0" by (simp add: pte_def w)
qed

definition vmm_boot :: vmm where
  "vmm_boot = pmm.extend pmm_boot \<lparr>pml4 = 0x1000, cr3 = 0x1000\<rparr>"

lemma vmm_boot_space:
  obtains s :: vmm and s1 :: vmm where "pmm_init 0x4000000 vmm_boot = Inr s" "pmm_alloc_page s = (0x400000, s1)"
    "pmm_inv s1" "free_addrs s1 = (\<lambda>p. of_nat p * 4096) ` {1025..<16384}"
    "pt_tree (phys_mem s1) (free_addrs s1) 0x400000" "card (free_addrs s1) = 15359"
    "\<And>a b c d. a < 512 \<Longrightarrow> pte (phys_mem s1) 0x400000 a b c d = 0"
proof -
  have "(0x4000000 :: u64) \<le> 0x100000000" by simp
  then obtain s where s: "pmm_init 0x4000000 vmm_boot = Inr s" "pmm_inv s" "free_frames s = {1024..<16384}"
    by (rule pmm_init_ok [of _ vmm_boot]) simp
  have min: "Min (free_frames s) = 1024" unfolding s(3) by (rule Min_eqI) auto
  have "free_frames s \<noteq> {}" using s(3) by simp
  with s(2) obtain s1 where s1: "pmm_alloc_page s = (of_nat (Min (free_frames s)) * 4096, s1)" "pmm_inv s1"
      "free_frames s1 = free_frames s - {Min (free_frames s)}"
    by (rule pmm_alloc_page_some)
  have al: "pmm_alloc_page s = (0x400000, s1)" using s1(1) min by simp
  have "{1024..<16384} - {1024} = {1025..<16384 :: nat}"
    by (simp only: set_eq_iff Diff_iff atLeastLessThan_iff singleton_iff) presburger
  then have ff: "free_frames s1 = {1025..<16384}" by (rule trans [OF s1(3) [unfolded min, unfolded s(3)]])
  have "(0x400000 :: u64) \<noteq> 0" by simp
  note taken = frames.alloc_taken [OF s(2) al this] and new = frames.new_table_empty [OF s(2) al this]
  have "inj_on (\<lambda>p. of_nat p * 4096 :: u64) {1025..<16384}"
    by (rule inj_onI) (simp add: frame_addr_inj)
  then have "card (free_addrs s1) = 15359" unfolding free_addrs_def ff by (simp add: card_image)
  moreover have "free_addrs s1 = (\<lambda>p. of_nat p * 4096) ` {1025..<16384}" unfolding free_addrs_def ff ..
  ultimately show ?thesis
    using that [OF s(1) al s1(2)] empty_table_space [OF taken(4) _ taken(2) new] by simp
qed

text \<open>
  C1: mapping a page.  \<open>vmm_map_page\<close> returns 0 or -1, and 0 whenever three frames are free.
  After 0, every address of the page translates to the mapped frame plus its offset and every
  other address translates as before; after -1 the frames are exhausted and no translation has
  changed.  The allocator's invariant and the tree shape of the tables are kept.
\<close>

theorem vmm_map_page_correct:
  assumes "pmm_inv s" and "pt_tree (phys_mem s) (free_addrs s) t" and "flags AND NOT 0xFFF = 0"
    and "vmm_map_page t virt phys flags s = (r, s')"
  shows "pmm_inv s' \<and> pt_tree (phys_mem s') (free_addrs s') t \<and>
    (3 \<le> card (free_addrs s) \<longrightarrow> r = 0) \<and>
    (r = 0 \<and> (\<forall>v. vmm_get_physical t v s' =
       (if same_page v virt then page_base phys OR (v AND 0xFFF) else vmm_get_physical t v s)) \<or>
     r = -1 \<and> free_addrs s' = {} \<and> (\<forall>v. vmm_get_physical t v s' = vmm_get_physical t v s))"
proof (cases "r = 0")
  case True
  with assms(4) have res: "vmm_map_page t virt phys flags s = (0, s')" by simp
  show ?thesis
    using vmm_map_page_spec [OF assms(1,2,4)] vmm_map_page_physical [OF assms(1,2) res assms(3)] True by auto
next
  case False
  then have "r = -1" "free_addrs s' = {}" "space_grows t s s'"
    using vmm_map_page_spec [OF assms(1,2,4)] by auto
  with False show ?thesis
    using vmm_map_page_spec [OF assms(1,2,4)] vmm_map_page_succeeds [OF assms(1,2,4)] space_grows_physical by auto
qed

theorem vmm_map_page_correct_witness:
  "\<exists>(s :: vmm) s'. pmm_inv s \<and> vmm_map_page 0x400000 0x7000 0x500000 7 s = (0, s') \<and>
     vmm_get_physical 0x400000 0x7123 s' = 0x500123 \<and> vmm_get_physical 0x400000 0x8123 s' = 0"
proof -
  obtain s s1 :: vmm where s1: "pmm_inv s1" "pt_tree (phys_mem s1) (free_addrs s1) 0x400000"
      "card (free_addrs s1) = 15359" "\<And>a b c d. a < 512 \<Longrightarrow> pte (phys_mem s1) 0x400000 a b c d = 0"
    by (rule vmm_boot_space) blast
  obtain r s' where m: "vmm_map_page 0x400000 0x7000 0x500000 7 s1 = (r, s')"
    by (cases "vmm_map_page 0x400000 0x7000 0x500000 7 s1")
  have low: "(7 :: u64) AND NOT 0xFFF = 0" by simp
  have sp: "same_page 0x7123 0x7000" "\<not> same_page 0x8123 0x7000" by (simp_all add: same_page_def)
  have none: "vmm_get_physical 0x400000 v s1 = 0" for v using s1(4) by (simp add: vmm_get_physical_pte)
  have "page_base 0x500000 OR (0x7123 AND 0xFFF) = 0x500123" by (simp add: page_base_def)
  with vmm_map_page_correct [OF s1(1,2) low m] s1(1,3) m sp none show ?thesis by auto
qed

text \<open>
  Unmapping a page.  Afterwards no address of the page translates, and every other address
  translates as before; the tree and the allocator are unchanged.
\<close>

theorem vmm_unmap_page_correct:
  fixes s :: "'a pmm_scheme"
  assumes "pmm_inv s" and "pt_tree (phys_mem s) (free_addrs s) t"
  shows "let s' = vmm_unmap_page t virt s in
    pmm_inv s' \<and> free_addrs s' = free_addrs s \<and> pt_tree (phys_mem s') (free_addrs s') t \<and>
    (\<forall>v. vmm_get_physical t v s' = (if same_page v virt then 0 else vmm_get_physical t v s))"
proof -
  note un = vmm_unmap_page_spec [OF assms(2), where virt = virt]
  have "vmm_get_physical t v (vmm_unmap_page t virt s) = (if same_page v virt then 0 else vmm_get_physical t v s)" for v
    unfolding vmm_get_physical_pte Let_def same_page_indices
      un(2) [OF PML4_INDEX_less PDPT_INDEX_less PD_INDEX_less PT_INDEX_less] by auto
  with un assms show ?thesis by (simp add: Let_def)
qed

theorem vmm_unmap_page_correct_witness:
  "\<exists>(s :: vmm) s1. vmm_map_page 0x400000 0x7000 0x500000 7 s = (0, s1) \<and>
     vmm_get_physical 0x400000 0x7123 s1 \<noteq> 0 \<and>
     vmm_get_physical 0x400000 0x7123 (vmm_unmap_page 0x400000 0x7000 s1) = 0"
proof -
  obtain s s1 :: vmm where s1: "pmm_inv s1" "pt_tree (phys_mem s1) (free_addrs s1) 0x400000"
      "card (free_addrs s1) = 15359"
    by (rule vmm_boot_space) blast
  obtain r s' where m: "vmm_map_page 0x400000 0x7000 0x500000 7 s1 = (r, s')"
    by (cases "vmm_map_page 0x400000 0x7000 0x500000 7 s1")
  have "r = 0" using vmm_map_page_succeeds [OF s1(1,2) m] s1(3) by simp
  note m0 = m [unfolded this]
  have low: "(7 :: u64) AND NOT 0xFFF = 0" by simp
  have sp: "same_page 0x7123 0x7000" by (simp add: same_page_def)
  have s': "pmm_inv s'" "pt_tree (phys_mem s') (free_addrs s') 0x400000"
    using vmm_map_page_spec [OF s1(1,2) m] by simp_all
  have "vmm_get_physical 0x400000 0x7123 s' = 0x500123"
    using vmm_map_page_physical [OF s1(1,2) m0 low, of "0x7123"] sp by (simp add: page_base_def)
  with m0 vmm_unmap_page_correct [OF s', of "0x7000"] sp show ?thesis
    by (intro exI [of _ s1] exI [of _ s']) (simp add: Let_def)
qed

text \<open>
  C2: isolation.  Mapping a page in the user half of one address space changes no translation of
  another address space that shares at most kernel-half tables with it.
\<close>

theorem vmm_map_page_isolation:
  assumes "pmm_inv s" and "pt_tree (phys_mem s) (free_addrs s) t" and "pt_tree (phys_mem s) (free_addrs s) t'"
    and "share_kernel_only (phys_mem s) t t'" and "PML4_INDEX virt < 256"
    and "vmm_map_page t virt phys flags s = (r, s')"
  shows "pt_tree (phys_mem s') (free_addrs s') t' \<and>
    (\<forall>v. vmm_get_physical t' v s' = vmm_get_physical t' v s)"
proof -
  have same: "entry (phys_mem s') u j = entry (phys_mem s) u j"
    if "is_path q" "walk (phys_mem s) t' q = Some u" "j < 512" for q u j
  proof (rule vmm_map_page_frame [OF assms(1,2,6)])
    show "page_aligned u" using assms(3) that(2) by (rule pt_tree_aligned)
    show "u \<notin> free_addrs s" using assms(3) that(1,2) unfolding pt_tree_def by blast
    show "u \<notin> tables_on_way (phys_mem s) t virt" using assms(4,5) that(1,2) by (rule share_kernel_way)
  qed (fact that(3))
  have "free_addrs s' \<subseteq> free_addrs s" using vmm_map_page_spec [OF assms(1,2,6)] by simp
  with assms(3) have "pt_tree (phys_mem s') (free_addrs s') t'" using same by (rule pt_tree_cong)
  moreover have "pte (phys_mem s') t' a b c d = pte (phys_mem s) t' a b c d"
    if "a < 512" "b < 512" "c < 512" "d < 512" for a b c d
    using that same by (rule pte_cong)
  ultimately show ?thesis by (simp add: vmm_get_physical_pte)
qed

theorem vmm_map_page_isolation_witness:
  "\<exists>(s :: vmm) t t' s'. t \<noteq> t' \<and> vmm_map_page t 0x7000 0x500000 7 s = (0, s') \<and>
     vmm_get_physical t 0x7123 s' = 0x500123 \<and> vmm_get_physical t' 0x7123 s' = vmm_get_physical t' 0x7123 s"
proof -
  obtain s s1 :: vmm where s1: "pmm_alloc_page s = (0x400000, s1)" "pmm_inv s1"
      "pt_tree (phys_mem s1) (free_addrs s1) 0x400000" "card (free_addrs s1) = 15359"
      "\<And>a b c d. a < 512 \<Longrightarrow> pte (phys_mem s1) 0x400000 a b c d = 0"
    by (rule vmm_boot_space) blast
  obtain a s2 where al: "pmm_alloc_page s1 = (a, s2)" by (cases "pmm_alloc_page s1")
  have "free_addrs s1 \<noteq> {}" using s1(4) by auto
  with frames.alloc_zero s1(2) al have "a \<noteq> 0" by blast
  note taken = frames.alloc_taken [OF s1(2) al this] and new = frames.new_table_empty [OF s1(2) al this]
  note grow = alloc_keeps_space [OF s1(2,3) al]
  have s2: "pmm_inv s2" "pt_tree (phys_mem s2) (free_addrs s2) 0x400000" using grow(1) by (simp_all add: space_grows_def)
  have t': "pt_tree (phys_mem s2) (free_addrs s2) a" using taken(4) \<open>a \<noteq> 0\<close> taken(2) new by (rule empty_table_space)
  have only: "q = []" if "is_path q" "walk (phys_mem s2) a q = Some u" for q u
    using that new by (cases q) (auto simp: walk.simps is_path_def)
  have "walk (phys_mem s2) 0x400000 q \<noteq> Some a" if "is_path q" for q
    using that grow(3) taken(1) unfolding pt_tree_def by blast
  with only have share: "share_kernel_only (phys_mem s2) 0x400000 a" unfolding share_kernel_only_def by fastforce
  obtain r s3 where m: "vmm_map_page 0x400000 0x7000 0x500000 7 s2 = (r, s3)"
    by (cases "vmm_map_page 0x400000 0x7000 0x500000 7 s2")
  have "card (free_addrs s2) = 15358" using taken(1,3) s1(4) by simp
  then have "r = 0" using vmm_map_page_succeeds [OF s2 m] by simp
  note m0 = m [unfolded this]
  have low: "(7 :: u64) AND NOT 0xFFF = 0" by simp
  have sp: "same_page 0x7123 0x7000" by (simp add: same_page_def)
  have "vmm_get_physical 0x400000 0x7123 s3 = 0x500123"
    using vmm_map_page_physical [OF s2 m0 low, of "0x7123"] sp by (simp add: page_base_def)
  moreover have "PML4_INDEX 0x7000 < 256" by (simp add: PML4_INDEX_def)
  moreover have "a \<noteq> 0x400000" using grow(3) taken(1) unfolding pt_tree_def by (metis is_path_Nil walk.simps(1))
  ultimately show ?thesis
    using vmm_map_page_isolation [OF s2 t' share _ m0] m0
    by (intro exI [of _ s2] exI [of _ "0x400000"] exI [of _ a] exI [of _ s3]) simp
qed

text \<open>
  C26: a new address space.  With no free frame the result is NULL and nothing changes.
  Otherwise the new space maps nothing in the user half and exactly the kernel's mappings in the
  kernel half, is a tree of its own, shares only kernel-half tables with the kernel's space, and
  leaves the kernel's space as it was.
\<close>

theorem vmm_create_address_space_correct:
  fixes s :: "'a vmm_scheme"
  assumes "pmm_inv s" and "pt_tree (phys_mem s) (free_addrs s) (pml4 s)"
    and "vmm_create_address_space s = (t, s')"
  shows "if free_addrs s = {} then t = 0 \<and> s' = s
    else t \<in> free_addrs s \<and> pmm_inv s' \<and> free_addrs s' = free_addrs s - {t} \<and>
      pt_tree (phys_mem s') (free_addrs s') t \<and> pt_tree (phys_mem s') (free_addrs s') (pml4 s) \<and>
      share_kernel_only (phys_mem s') t (pml4 s) \<and>
      (\<forall>v. vmm_get_physical t v s' = (if 256 \<le> PML4_INDEX v then vmm_get_physical (pml4 s) v s else 0)) \<and>
      (\<forall>v. vmm_get_physical (pml4 s) v s' = vmm_get_physical (pml4 s) v s)"
proof (cases "free_addrs s = {}")
  case True
  with vmm_create_address_space_null [OF assms(1)] assms(3) show ?thesis by simp
next
  case False
  let ?k = "pml4 s" and ?m = "phys_mem s" and ?m' = "phys_mem s'"
  have k: "page_aligned ?k" "?k \<notin> free_addrs s"
    using assms(2) is_path_Nil walk.simps(1) unfolding pt_tree_def by blast+
  have "fst (pmm_alloc_page s) \<noteq> 0" using frames.alloc_zero [OF assms(1)] False by (metis prod.collapse)
  then have t0: "t \<noteq> 0" using assms(3) by (auto simp: vmm_create_address_space_def split: prod.splits if_splits)
  note new = vmm_create_entries [OF assms(1) k assms(3) t0]
  have sub: "free_addrs s' \<subseteq> free_addrs s" "t \<notin> free_addrs s'" using new(4) by auto
  have same: "entry ?m' r j = entry ?m r j" if "is_path q" "walk ?m ?k q = Some r" "j < 512" for q r j
    using new(6) [OF pt_tree_aligned [OF assms(2) that(2)] _ that(3)] assms(2) that(1,2) unfolding pt_tree_def by blast
  note space = shared_half_space [OF assms(2) sub(1) new(1) t0 new(2) sub(2) new(5) same]
  have kern: "pt_tree ?m' (free_addrs s') ?k" using assms(2) sub(1) same by (rule pt_tree_cong)
  have kpte: "pte ?m' ?k a b c d = pte ?m ?k a b c d" if "a < 512" "b < 512" "c < 512" "d < 512" for a b c d
    using that same by (rule pte_cong)
  have kwalk: "walk ?m' ?k q = walk ?m ?k q" if "is_path q" for q using that same by (rule walk_cong)
  have share: "share_kernel_only ?m' t ?k"
    unfolding share_kernel_only_def
  proof (intro allI impI)
    fix q q' u assume q: "is_path q" "is_path q'" "walk ?m' t q = Some u" "walk ?m' ?k q' = Some u"
    have "u \<noteq> t" using q(2,4) kwalk assms(2) new(2) unfolding pt_tree_def by metis
    then obtain i q1 where "q = i # q1" using q(3) by (cases q) auto
    moreover have "walk ?m' t (i # q1) = (if 256 \<le> i then walk ?m ?k (i # q1) else None)" if "is_path (i # q1)" for i q1
      using new(5) same that by (rule shared_half_walk)
    ultimately show "q \<noteq> [] \<and> 256 \<le> hd q" using q(1,3) by (auto split: if_splits)
  qed
  show ?thesis
    using False new(2,3,4) space(1) kern share space(2) kpte by (simp add: vmm_get_physical_pte)
qed

theorem vmm_create_address_space_correct_witness:
  "\<exists>(s :: vmm) t s'. pml4 s = 0x400000 \<and> vmm_create_address_space s = (t, s') \<and> t \<in> free_addrs s \<and>
     vmm_get_physical t 0x7123 s' = 0"
proof -
  obtain s s1 :: vmm where s1: "pmm_inv s1" "pt_tree (phys_mem s1) (free_addrs s1) 0x400000"
      "card (free_addrs s1) = 15359"
    by (rule vmm_boot_space) blast
  let ?s = "s1\<lparr>pml4 := 0x400000\<rparr>"
  have f: "free_addrs ?s = free_addrs s1" by (simp add: free_addrs_def free_frames_def)
  have inv: "pmm_inv ?s" using s1(1) by (simp add: pmm_inv_def free_frames_def)
  have tree: "pt_tree (phys_mem ?s) (free_addrs ?s) (pml4 ?s)" using s1(2) f by simp
  obtain t s' where c: "vmm_create_address_space ?s = (t, s')" by (cases "vmm_create_address_space ?s")
  have "free_addrs ?s \<noteq> {}" using s1(3) f by auto
  moreover have "\<not> 256 \<le> PML4_INDEX 0x7123" by (simp add: PML4_INDEX_def)
  ultimately have "t \<in> free_addrs ?s" "vmm_get_physical t 0x7123 s' = 0"
    using vmm_create_address_space_correct [OF inv tree c] by presburger+
  with c show ?thesis by (intro exI [of _ ?s] exI [of _ t] exI [of _ s']) simp
qed

text \<open>
  C35: \<open>vmm_clear_user_space\<close> removes every user-half translation of the space and none of the
  kernel half, and keeps the tree and the allocator.  The frames behind the removed entries are
  not returned: the set of free frames is the same.
\<close>

theorem vmm_clear_user_space_correct:
  fixes s :: "'a pmm_scheme"
  assumes "pmm_inv s" and "pt_tree (phys_mem s) (free_addrs s) t"
  shows "let s' = vmm_clear_user_space t s in
    pmm_inv s' \<and> free_addrs s' = free_addrs s \<and> pt_tree (phys_mem s') (free_addrs s') t \<and>
    (\<forall>v. vmm_get_physical t v s' = (if 256 \<le> PML4_INDEX v then vmm_get_physical t v s else 0))"
proof -
  let ?s = "vmm_clear_user_space t s"
  have t: "page_aligned t" using assms(2) by (simp add: pt_tree_def)
  have keep: "pmm_inv (fold (\<lambda>i s. if present (entry (phys_mem s) t i) then write_entry t i 0 s else s) is s) = pmm_inv s \<and>
      free_addrs (fold (\<lambda>i s. if present (entry (phys_mem s) t i) then write_entry t i 0 s else s) is s) = free_addrs s"
    for "is" and s :: "'a pmm_scheme"
    by (induction "is" arbitrary: s) simp_all
  have entries: "entry (phys_mem ?s) u j =
      (if u = t \<and> j < 256 \<and> present (entry (phys_mem s) t j) then 0 else entry (phys_mem s) u j)"
    if "page_aligned u" "j < 512" for u j
    using vmm_clear_user_space_entries [OF t that, of "for_range 0 256" s] by (simp add: vmm_clear_user_space_def)
  note space = cleared_half_space [OF assms(2) entries]
  show ?thesis
    using space assms(1) keep [of "for_range 0 256" s] by (simp add: Let_def vmm_get_physical_pte vmm_clear_user_space_def)
qed

theorem vmm_clear_user_space_correct_witness:
  "\<exists>(s :: vmm) s1. vmm_map_page 0x400000 0x7000 0x500000 7 s = (0, s1) \<and>
     vmm_get_physical 0x400000 0x7123 (vmm_clear_user_space 0x400000 s1) = 0"
proof -
  obtain s s1 :: vmm where s1: "pmm_inv s1" "pt_tree (phys_mem s1) (free_addrs s1) 0x400000"
      "card (free_addrs s1) = 15359"
    by (rule vmm_boot_space) blast
  obtain r s' where m: "vmm_map_page 0x400000 0x7000 0x500000 7 s1 = (r, s')"
    by (cases "vmm_map_page 0x400000 0x7000 0x500000 7 s1")
  have "r = 0" using vmm_map_page_succeeds [OF s1(1,2) m] s1(3) by simp
  have s': "pmm_inv s'" "pt_tree (phys_mem s') (free_addrs s') 0x400000"
    using vmm_map_page_spec [OF s1(1,2) m] by simp_all
  from vmm_clear_user_space_correct [OF s'] m \<open>r = 0\<close> show ?thesis
    by (intro exI [of _ s1] exI [of _ s']) (simp add: Let_def PML4_INDEX_def)
qed

text \<open>
  C28: allocating user pages.  The call always returns.  A kernel address is refused.  Otherwise
  the result is 0 and every page of the range translates to a frame of its own, taken from the
  free frames, with all other translations unchanged and \<open>pages_allocated\<close> raised by the count;
  or it is -1, which needs fewer than four free frames per page.
\<close>

theorem vmm_alloc_user_pages_correct:
  fixes s :: "'a pmm_scheme"
  assumes "pmm_inv s" and "pt_tree (phys_mem s) (free_addrs s) (page_table p)"
    and "unat virt_addr + 4096 * unat count \<le> 2 ^ 48 \<or> KERNEL_BASE \<le> virt_addr"
  shows "\<exists>r p' s'. vmm_alloc_user_pages p virt_addr count s = Inr (r, p', s') \<and>
    pmm_inv s' \<and> pt_tree (phys_mem s') (free_addrs s') (page_table p) \<and>
    (KERNEL_BASE \<le> virt_addr \<and> r = -1 \<and> p' = p \<and> s' = s \<or>
     r = 0 \<and> p' = p\<lparr>pages_allocated := pages_allocated p + count\<rparr> \<and>
       user_pages_mapped {0..<unat count} virt_addr (page_table p) s s' \<or>
     r = -1 \<and> card (free_addrs s) < 4 * unat count)"
proof (cases "KERNEL_BASE \<le> virt_addr")
  case True
  then show ?thesis using assms(1,2) by (simp add: vmm_alloc_user_pages_def)
next
  case False
  then have lim: "unat virt_addr + 4096 * unat count \<le> 2 ^ 48" using assms(3) by blast
  have "pairwise (\<lambda>i j. \<not> same_page (page_va virt_addr i) (page_va virt_addr j)) (set [0..<unat count])"
    unfolding pairwise_def using page_va_distinct [OF lim] by simp
  from alloc_user_pages_loop_spec [OF assms(1,2) this] False show ?thesis
    by (auto simp: vmm_alloc_user_pages_def)
qed

theorem vmm_alloc_user_pages_correct_witness:
  "\<exists>(s :: vmm) p' s'. vmm_alloc_user_pages (zero_process\<lparr>page_table := 0x400000\<rparr>) 0x10000 2 s = Inr (0, p', s') \<and>
     pages_allocated p' = 2 \<and> user_pages_mapped {0..<2} 0x10000 0x400000 s s'"
proof -
  obtain s s1 :: vmm where s1: "pmm_inv s1" "pt_tree (phys_mem s1) (free_addrs s1) 0x400000"
      "card (free_addrs s1) = 15359"
    by (rule vmm_boot_space) blast
  let ?p = "zero_process\<lparr>page_table := 0x400000\<rparr>"
  have tree: "pt_tree (phys_mem s1) (free_addrs s1) (page_table ?p)" using s1(2) by simp
  have "unat (0x10000 :: u64) + 4096 * unat (2 :: u64) \<le> 2 ^ 48 \<or> KERNEL_BASE \<le> 0x10000" by simp
  from vmm_alloc_user_pages_correct [OF s1(1) tree this] s1(3) obtain s' where
    "vmm_alloc_user_pages ?p 0x10000 2 s1 = Inr (0, ?p\<lparr>pages_allocated := pages_allocated ?p + 2\<rparr>, s')"
    "user_pages_mapped {0..<2} 0x10000 0x400000 s1 s'" by auto
  moreover have "pages_allocated ?p = 0" by (simp add: zero_process_def)
  ultimately show ?thesis by fastforce
qed

end
