(* ===== verification/Kmalloc.thy ===== *)
theory Kmalloc
  imports Vmm
begin

text \<open>
  The kernel heap (\<open>src/src/mm/kmalloc.c\<close>): a singly linked list of blocks with 24-byte headers
  inside a 16 MB region, first-fit allocation with splitting, release with coalescing of
  adjacent free blocks, and statistics.  Headers are bytes of physical memory.  The heap is
  abstracted to the list of (size, free) pairs of its blocks in address order.
\<close>

section \<open>Block headers\<close>

text \<open>\<open>block_t\<close>: size at offset 0, next at 8, the bool at 16; 24 bytes in all.\<close>

abbreviation (input) HEAP_START :: u64 where "HEAP_START \<equiv> 0x2000000"
abbreviation (input) HEAP_SIZE :: u64 where "HEAP_SIZE \<equiv> 0x1000000"
abbreviation (input) BLOCK_HEADER_SIZE :: u64 where "BLOCK_HEADER_SIZE \<equiv> 24"
abbreviation (input) MIN_BLOCK_SIZE :: u64 where "MIN_BLOCK_SIZE \<equiv> 16"

definition blk_size :: "pmem \<Rightarrow> u64 \<Rightarrow> u64" where "blk_size m b = load64 m b"
definition blk_next :: "pmem \<Rightarrow> u64 \<Rightarrow> u64" where "blk_next m b = load64 m (b + 8)"
definition blk_free :: "pmem \<Rightarrow> u64 \<Rightarrow> bool" where "blk_free m b \<longleftrightarrow> m (b + 16) \<noteq> 0"

definition set_size :: "u64 \<Rightarrow> u64 \<Rightarrow> pmem \<Rightarrow> pmem" where "set_size b v m = store64 m b v"
definition set_next :: "u64 \<Rightarrow> u64 \<Rightarrow> pmem \<Rightarrow> pmem" where "set_next b v m = store64 m (b + 8) v"
definition set_free :: "u64 \<Rightarrow> bool \<Rightarrow> pmem \<Rightarrow> pmem" where
  "set_free b f m = m(b + 16 := (if f then 1 else 0))"

section \<open>Operations\<close>

record kheap = vmm +
  head :: u64
  heap_initialized :: bool
  total_allocated :: u64
  total_free :: u64
  allocation_count :: u64

text \<open>A loop that does not end is the fault \<open>Spin\<close>.\<close>

definition returns :: "'b option \<Rightarrow> 'b res" where
  "returns r = (case r of None \<Rightarrow> Inl Spin | Some x \<Rightarrow> Inr x)"

definition init_heap :: "'a kheap_scheme \<Rightarrow> 'a kheap_scheme" where
  "init_heap s =
     s\<lparr>head := HEAP_START,
       phys_mem := set_free HEAP_START True (set_next HEAP_START 0
         (set_size HEAP_START (HEAP_SIZE - BLOCK_HEADER_SIZE) (phys_mem s))),
       heap_initialized := True\<rparr>"

partial_function (option) find_free_loop :: "pmem \<Rightarrow> u64 \<Rightarrow> u64 \<Rightarrow> u64 option" where
  "find_free_loop m sz current =
     (if current = 0 then Some 0
      else if blk_free m current \<and> sz \<le> blk_size m current then Some current
      else find_free_loop m sz (blk_next m current))"

definition find_free_block :: "u64 \<Rightarrow> 'a kheap_scheme \<Rightarrow> u64 res" where
  "find_free_block sz s = returns (find_free_loop (phys_mem s) sz (head s))"

definition split_block :: "u64 \<Rightarrow> u64 \<Rightarrow> pmem \<Rightarrow> pmem" where
  "split_block block sz m =
     (if sz + BLOCK_HEADER_SIZE + MIN_BLOCK_SIZE \<le> blk_size m block then
        let new_block = block + BLOCK_HEADER_SIZE + sz;
            m1 = set_size new_block (blk_size m block - sz - BLOCK_HEADER_SIZE) m;
            m2 = set_free new_block True m1;
            m3 = set_next new_block (blk_next m2 block) m2
        in set_next block new_block (set_size block sz m3)
      else m)"

partial_function (option) coalesce_loop :: "u64 \<Rightarrow> pmem \<Rightarrow> pmem option" where
  "coalesce_loop current m =
     (if current = 0 \<or> blk_next m current = 0 then Some m
      else if blk_free m current \<and> blk_free m (blk_next m current) then
        let m1 = set_size current
              (blk_size m current + (BLOCK_HEADER_SIZE + blk_size m (blk_next m current))) m;
            m2 = set_next current (blk_next m1 (blk_next m1 current)) m1
        in coalesce_loop current m2
      else coalesce_loop (blk_next m current) m)"

definition coalesce_free_blocks :: "'a kheap_scheme \<Rightarrow> 'a kheap_scheme res" where
  "coalesce_free_blocks s =
     bind_res (returns (coalesce_loop (head s) (phys_mem s))) (\<lambda>m. Inr (s\<lparr>phys_mem := m\<rparr>))"

definition kmalloc :: "u64 \<Rightarrow> 'a kheap_scheme \<Rightarrow> (u64 \<times> 'a kheap_scheme) res" where
  "kmalloc sz0 s0 =
     (let s = (if heap_initialized s0 then s0 else init_heap s0);
          sz = (sz0 + 7) AND NOT 7
      in bind_res (find_free_block sz s) (\<lambda>block.
           if block = 0 then Inl (Panic ''kmalloc: Out of memory!'')
           else let m = set_free block False (split_block block sz (phys_mem s))
                in Inr (block + BLOCK_HEADER_SIZE,
                        s\<lparr>phys_mem := m,
                          total_allocated := total_allocated s + blk_size m block,
                          total_free := total_free s - blk_size m block,
                          allocation_count := allocation_count s + 1\<rparr>)))"

definition kfree :: "u64 \<Rightarrow> 'a kheap_scheme \<Rightarrow> 'a kheap_scheme res" where
  "kfree ptr s =
     (if ptr = 0 then Inr s
      else let block = ptr - BLOCK_HEADER_SIZE
      in if block < HEAP_START \<or> HEAP_START + HEAP_SIZE \<le> block then
           Inl (Panic ''kfree: Invalid pointer!'')
      else if blk_free (phys_mem s) block then Inl (Panic ''kfree: Double free detected!'')
      else let m = set_free block True (phys_mem s)
      in coalesce_free_blocks
           (s\<lparr>phys_mem := m,
              total_allocated := total_allocated s - blk_size m block,
              total_free := total_free s + blk_size m block,
              allocation_count := allocation_count s - 1\<rparr>))"

definition kmalloc_stats :: "'a kheap_scheme \<Rightarrow> u64 \<times> u64 \<times> u64" where
  "kmalloc_stats s = (total_allocated s, total_free s, allocation_count s)"

definition zero_bytes :: "u64 \<Rightarrow> nat \<Rightarrow> pmem \<Rightarrow> pmem" where
  "zero_bytes p n m = fold (\<lambda>i m. m(p + of_nat i := 0)) [0..<n] m"

definition kzalloc :: "u64 \<Rightarrow> 'a kheap_scheme \<Rightarrow> (u64 \<times> 'a kheap_scheme) res" where
  "kzalloc sz s =
     bind_res (kmalloc sz s) (\<lambda>(ptr, s1).
       Inr (ptr, if ptr \<noteq> 0 then s1\<lparr>phys_mem := zero_bytes ptr (unat sz) (phys_mem s1)\<rparr> else s1))"

definition krealloc :: "u64 \<Rightarrow> u64 \<Rightarrow> 'a kheap_scheme \<Rightarrow> (u64 \<times> 'a kheap_scheme) res" where
  "krealloc ptr new_size s =
     (if ptr = 0 then kmalloc new_size s
      else let block = ptr - BLOCK_HEADER_SIZE; old_size = blk_size (phys_mem s) block
      in if new_size \<le> old_size then Inr (ptr, s)
      else bind_res (kmalloc new_size s) (\<lambda>(new_ptr, s1).
        if new_ptr = 0 then Inr (0, s1)
        else bind_res (kfree ptr
               (s1\<lparr>phys_mem := copy_bytes (phys_mem s1) new_ptr ptr (unat old_size)\<rparr>))
             (\<lambda>s2. Inr (new_ptr, s2))))"

section \<open>Header fields do not interfere\<close>

definition hdr_apart :: "u64 \<Rightarrow> u64 \<Rightarrow> bool" where
  "hdr_apart a b \<longleftrightarrow> 24 \<le> unat (a - b) \<and> 24 \<le> unat (b - a)"

lemma hdr_apart_offsets:
  assumes "hdr_apart a b" "unat x \<le> 16" "unat y \<le> 16"
  shows "8 \<le> unat ((a + x) - (b + y))"
proof -
  have "unat (a - b) + unat (b - a) = 2 ^ 64"
    using assms(1) unfolding hdr_apart_def unat_diff_64 by (auto split: if_splits)
  then have d: "24 \<le> unat (a - b)" "unat (a - b) \<le> 2 ^ 64 - 24"
    using assms(1) by (auto simp: hdr_apart_def)
  have "unat ((a - b) + x) = unat (a - b) + unat x"
    using d assms(2) by (intro unat_add_no_wrap) simp
  then have u: "unat ((a - b) + x - y) = unat (a - b) + unat x - unat y"
    using d assms(3) by (subst unat_diff_64) simp
  have eq: "(a + x) - (b + y) = (a - b) + x - y" by (simp add: algebra_simps)
  show ?thesis unfolding eq u using d assms(3) by linarith
qed

lemma hdr_apart_apart8:
  assumes "hdr_apart a b" "unat x \<le> 16" "unat y \<le> 16"
  shows "apart8 (a + x) (b + y)"
  using hdr_apart_offsets [OF assms] hdr_apart_offsets [of b a y x] assms
  by (simp add: apart8_def hdr_apart_def)

lemma hdr_apart_sym: "hdr_apart a b \<Longrightarrow> hdr_apart b a"
  by (simp add: hdr_apart_def)

lemma apart8_next [simp]: "apart8 b (b + 8)" "apart8 (b + 8) b"
  by (simp_all add: apart8_def)

lemma load64_upd_other:
  assumes "8 \<le> unat (x - a)"
  shows "load64 (m(x := v)) a = load64 m a"
proof -
  have "a + j \<noteq> x" if "unat j < 8" for j
    using that assms by auto
  from this [of 0] this [of 1] this [of 2] this [of 3] this [of 4] this [of 5] this [of 6] this [of 7]
  show ?thesis by (simp add: load64_def)
qed

text \<open>The fields of one header.\<close>

lemma header_fields_same [simp]:
  "blk_size (set_size b v m) b = v" "blk_next (set_size b v m) b = blk_next m b"
  "blk_free (set_size b v m) b = blk_free m b"
  "blk_size (set_next b v m) b = blk_size m b" "blk_next (set_next b v m) b = v"
  "blk_free (set_next b v m) b = blk_free m b"
  "blk_size (set_free b f m) b = blk_size m b" "blk_next (set_free b f m) b = blk_next m b"
  "blk_free (set_free b f m) b = f"
proof -
  have "8 \<le> unat ((b + 16) - b)" "8 \<le> unat ((b + 16) - (b + 8))" by simp_all
  then show "blk_size (set_free b f m) b = blk_size m b" "blk_next (set_free b f m) b = blk_next m b"
    "blk_free (set_size b v m) b = blk_free m b" "blk_free (set_next b v m) b = blk_free m b"
    by (simp_all add: blk_size_def blk_next_def blk_free_def set_free_def set_size_def set_next_def
        load64_upd_other store64_elsewhere)
qed (simp_all add: blk_size_def blk_next_def blk_free_def set_free_def set_size_def set_next_def)

text \<open>Headers of different blocks.\<close>

lemma header_fields_other:
  assumes "hdr_apart a b"
  shows "blk_size (set_size b v m) a = blk_size m a" "blk_next (set_size b v m) a = blk_next m a"
    "blk_free (set_size b v m) a = blk_free m a"
    "blk_size (set_next b v m) a = blk_size m a" "blk_next (set_next b v m) a = blk_next m a"
    "blk_free (set_next b v m) a = blk_free m a"
    "blk_size (set_free b f m) a = blk_size m a" "blk_next (set_free b f m) a = blk_next m a"
    "blk_free (set_free b f m) a = blk_free m a"
proof -
  have ba: "hdr_apart b a" using assms by (rule hdr_apart_sym)
  have ap: "apart8 (b + x) (a + y)" if "unat x \<le> 16" "unat y \<le> 16" for x y
    using hdr_apart_apart8 [OF ba that] .
  have le: "8 \<le> unat ((a + x) - (b + y))" if "unat x \<le> 16" "unat y \<le> 16" for x y
    using hdr_apart_offsets [OF assms that] .
  have el: "8 \<le> unat ((b + x) - (a + y))" if "unat x \<le> 16" "unat y \<le> 16" for x y
    using hdr_apart_offsets [OF ba that] .
  have "b + 16 \<noteq> a + 16" using assms by (auto simp: hdr_apart_def)
  then show "blk_free (set_free b f m) a = blk_free m a" by (simp add: blk_free_def set_free_def)
  show "blk_size (set_size b v m) a = blk_size m a" "blk_next (set_size b v m) a = blk_next m a"
    "blk_size (set_next b v m) a = blk_size m a" "blk_next (set_next b v m) a = blk_next m a"
    using ap [of 0 0] ap [of 0 8] ap [of 8 0] ap [of 8 8]
    by (simp_all add: blk_size_def blk_next_def set_size_def set_next_def)
  show "blk_free (set_size b v m) a = blk_free m a" "blk_free (set_next b v m) a = blk_free m a"
    using le [of 16 0] le [of 16 8]
    by (simp_all add: blk_free_def set_size_def set_next_def store64_elsewhere)
  show "blk_size (set_free b f m) a = blk_size m a" "blk_next (set_free b f m) a = blk_next m a"
    using el [of 16 0] el [of 16 8]
    by (simp_all add: blk_size_def blk_next_def set_free_def load64_upd_other)
qed

text \<open>Bytes outside a header.\<close>

lemma header_bytes_other:
  assumes "24 \<le> unat (x - b)"
  shows "set_size b v m x = m x" "set_next b v m x = m x" "set_free b f m x = m x"
proof -
  have eq: "x - (b + 8) = (x - b) - 8" by (simp add: algebra_simps)
  have u8: "unat (8 :: u64) = 8" by simp
  have "unat (x - (b + 8)) = unat (x - b) - 8"
    unfolding eq unat_diff_64 [of "x - b"] u8 using assms by presburger
  with assms show "set_size b v m x = m x" "set_next b v m x = m x"
    by (simp_all add: set_size_def set_next_def store64_elsewhere)
  have "x \<noteq> b + 16" using assms by auto
  then show "set_free b f m x = m x" by (simp add: set_free_def)
qed

section \<open>The heap as a list of blocks\<close>

text \<open>
  \<open>heap_seg m a bs z\<close>: memory holds, from address \<open>a\<close> on, the blocks \<open>bs\<close>, each a (size, free)
  pair, laid out one after the other and linked in that order, the last one to \<open>z\<close>.
\<close>

abbreviation (input) HEAP_BASE :: nat where "HEAP_BASE \<equiv> 0x2000000"
abbreviation (input) HEAP_END :: nat where "HEAP_END \<equiv> 0x3000000"

fun heap_seg :: "pmem \<Rightarrow> nat \<Rightarrow> (nat \<times> bool) list \<Rightarrow> u64 \<Rightarrow> bool" where
  "heap_seg m a [] z \<longleftrightarrow> True"
| "heap_seg m a ((n, f) # bs) z \<longleftrightarrow>
     blk_size m (of_nat a) = of_nat n \<and>
     blk_next m (of_nat a) = (if bs = [] then z else of_nat (a + 24 + n)) \<and>
     blk_free m (of_nat a) = f \<and> 8 dvd n \<and> heap_seg m (a + 24 + n) bs z"

text \<open>The end of a sequence of blocks that starts at \<open>a\<close>, and the addresses of its headers.\<close>

fun blocks_end :: "nat \<Rightarrow> (nat \<times> bool) list \<Rightarrow> nat" where
  "blocks_end a [] = a"
| "blocks_end a ((n, f) # bs) = blocks_end (a + 24 + n) bs"

fun block_addrs :: "nat \<Rightarrow> (nat \<times> bool) list \<Rightarrow> nat list" where
  "block_addrs a [] = []"
| "block_addrs a ((n, f) # bs) = a # block_addrs (a + 24 + n) bs"

text \<open>The whole heap.\<close>

definition heap_rep :: "pmem \<Rightarrow> (nat \<times> bool) list \<Rightarrow> bool" where
  "heap_rep m bs \<longleftrightarrow> heap_seg m HEAP_BASE bs 0 \<and> blocks_end HEAP_BASE bs = HEAP_END"

lemma blocks_end_append [simp]: "blocks_end a (bs @ cs) = blocks_end (blocks_end a bs) cs"
  by (induction a bs rule: blocks_end.induct) simp_all

lemma blocks_end_ge: "a \<le> blocks_end a bs"
  by (induction a bs rule: blocks_end.induct) simp_all

lemma block_addrs_append [simp]:
  "block_addrs a (bs @ cs) = block_addrs a bs @ block_addrs (blocks_end a bs) cs"
  by (induction a bs rule: block_addrs.induct) simp_all

lemma block_addrs_bounds: "h \<in> set (block_addrs a bs) \<Longrightarrow> a \<le> h \<and> h + 24 \<le> blocks_end a bs"
proof (induction a bs rule: block_addrs.induct)
  case (2 a n f bs)
  then show ?case using blocks_end_ge [of "a + 24 + n" bs] by auto
qed simp

lemma heap_seg_append:
  "heap_seg m a (bs @ cs) z \<longleftrightarrow>
     heap_seg m a bs (if cs = [] then z else of_nat (blocks_end a bs)) \<and> heap_seg m (blocks_end a bs) cs z"
  by (induction m a bs z rule: heap_seg.induct) auto

text \<open>Memory with the same headers holds the same blocks.\<close>

lemma heap_seg_cong:
  assumes "heap_seg m a bs z"
    and "\<And>h. h \<in> set (block_addrs a bs) \<Longrightarrow>
      blk_size m' (of_nat h) = blk_size m (of_nat h) \<and> blk_next m' (of_nat h) = blk_next m (of_nat h) \<and>
      blk_free m' (of_nat h) = blk_free m (of_nat h)"
  shows "heap_seg m' a bs z"
  using assms by (induction m a bs z rule: heap_seg.induct) auto

lemma hdr_apart_nat:
  assumes "a + 24 \<le> b" "b \<le> HEAP_END"
  shows "hdr_apart (of_nat a) (of_nat b)" "hdr_apart (of_nat b) (of_nat a)"
proof -
  have "unat (of_nat a :: u64) = a" "unat (of_nat b :: u64) = b"
    using assms by (simp_all add: unat_of_nat_64)
  then show "hdr_apart (of_nat a) (of_nat b)" "hdr_apart (of_nat b) (of_nat a)"
    using assms unfolding hdr_apart_def unat_diff_64 by auto
qed

text \<open>Writing a header outside a segment.\<close>

lemma heap_seg_set_other:
  assumes "heap_seg m a bs z" "b + 24 \<le> a \<or> blocks_end a bs \<le> b" "b + 24 \<le> HEAP_END" "blocks_end a bs \<le> HEAP_END"
  shows "heap_seg (set_size (of_nat b) v m) a bs z" "heap_seg (set_next (of_nat b) v m) a bs z"
    "heap_seg (set_free (of_nat b) f m) a bs z"
proof -
  have apart: "hdr_apart (of_nat h) (of_nat b)" if "h \<in> set (block_addrs a bs)" for h
    using block_addrs_bounds [OF that] assms(2-4) hdr_apart_nat [of b h] hdr_apart_nat [of h b] by auto
  note other = header_fields_other [OF apart]
  show "heap_seg (set_size (of_nat b) v m) a bs z" by (rule heap_seg_cong [OF assms(1)]) (simp add: other)
  show "heap_seg (set_next (of_nat b) v m) a bs z" by (rule heap_seg_cong [OF assms(1)]) (simp add: other)
  show "heap_seg (set_free (of_nat b) f m) a bs z" by (rule heap_seg_cong [OF assms(1)]) (simp add: other)
qed

section \<open>First fit\<close>

definition fits :: "nat \<Rightarrow> nat \<times> bool \<Rightarrow> bool" where
  "fits sz b \<longleftrightarrow> snd b \<and> sz \<le> fst b"

lemma of_nat_heap_addr: "a \<le> HEAP_END \<Longrightarrow> unat (of_nat a :: u64) = a"
  by (simp add: unat_of_nat_64)

lemma of_nat_heap_neq_0: "0 < a \<Longrightarrow> a \<le> HEAP_END \<Longrightarrow> (of_nat a :: u64) \<noteq> 0"
  using of_nat_heap_addr [of a] by auto

lemma find_free_loop_eq:
  assumes "heap_seg m a bs 0" "0 < a" "blocks_end a bs \<le> HEAP_END"
  shows "find_free_loop m sz (if bs = [] then 0 else of_nat a) =
    Some (if dropWhile (\<lambda>b. \<not> fits (unat sz) b) bs = [] then 0
          else of_nat (blocks_end a (takeWhile (\<lambda>b. \<not> fits (unat sz) b) bs)))"
  using assms
proof (induction bs arbitrary: a)
  case Nil
  then show ?case by (simp add: find_free_loop.simps)
next
  case (Cons b bs)
  obtain n f where b: "b = (n, f)" by (cases b)
  have le: "a + 24 + n \<le> HEAP_END" using Cons.prems(3) blocks_end_ge [of "a + 24 + n" bs] by (simp add: b)
  have nz: "(of_nat a :: u64) \<noteq> 0" using Cons.prems(2) le by (intro of_nat_heap_neq_0) simp_all
  have n: "unat (of_nat n :: u64) = n" using le by (simp add: of_nat_heap_addr)
  have IH: "find_free_loop m sz (if bs = [] then 0 else of_nat (a + 24 + n)) =
    Some (if dropWhile (\<lambda>b. \<not> fits (unat sz) b) bs = [] then 0
          else of_nat (blocks_end (a + 24 + n) (takeWhile (\<lambda>b. \<not> fits (unat sz) b) bs)))"
    using Cons.prems by (intro Cons.IH) (simp_all add: b)
  show ?case
  proof (cases "fits (unat sz) b")
    case True
    then show ?thesis
      using Cons.prems(1) nz n by (simp add: find_free_loop.simps [of m sz "of_nat a"] b fits_def word_le_nat_alt)
  next
    case False
    then have "find_free_loop m sz (of_nat a) = find_free_loop m sz (if bs = [] then 0 else of_nat (a + 24 + n))"
      using Cons.prems(1) nz n by (auto simp: find_free_loop.simps [of m sz "of_nat a"] b fits_def word_le_nat_alt)
    with IH False show ?thesis by (simp add: b)
  qed
qed

section \<open>Bytes outside the headers\<close>

text \<open>Memory changed at most in the headers at the addresses \<open>H\<close>.\<close>

definition only_headers :: "nat set \<Rightarrow> pmem \<Rightarrow> pmem \<Rightarrow> bool" where
  "only_headers H m m' \<longleftrightarrow> (\<forall>x. (\<forall>h \<in> H. unat x < h \<or> h + 24 \<le> unat x) \<longrightarrow> m' x = m x)"

lemma only_headers_refl: "only_headers H m m"
  by (simp add: only_headers_def)

lemma only_headers_trans: "only_headers H m m' \<Longrightarrow> only_headers H m' m'' \<Longrightarrow> only_headers H m m''"
  by (simp add: only_headers_def)

lemma only_headers_mono: "only_headers H m m' \<Longrightarrow> H \<subseteq> H' \<Longrightarrow> only_headers H' m m'"
  by (auto simp: only_headers_def)

lemma header_diff:
  fixes x :: u64
  assumes "h + 24 \<le> HEAP_END" "unat x < h \<or> h + 24 \<le> unat x"
  shows "24 \<le> unat (x - of_nat h)"
proof -
  have h: "unat (of_nat h :: u64) = h" using assms(1) by (simp add: of_nat_heap_addr)
  have "unat (x - of_nat h) = (if h \<le> unat x then unat x - h else unat x + 18446744073709551616 - h)"
    using unat_diff_64 [of x "of_nat h"] unfolding h .
  with assms show ?thesis by presburger
qed

lemma only_headers_set:
  assumes "h \<in> H" "h + 24 \<le> HEAP_END"
  shows "only_headers H m (set_size (of_nat h) v m)" "only_headers H m (set_next (of_nat h) v m)"
    "only_headers H m (set_free (of_nat h) f m)"
  using assms header_bytes_other [OF header_diff [OF assms(2)]] unfolding only_headers_def by simp_all

section \<open>Splitting\<close>

definition split_blocks :: "nat \<Rightarrow> nat \<times> bool \<Rightarrow> (nat \<times> bool) list" where
  "split_blocks sz b =
     (if sz + 40 \<le> fst b then [(sz, snd b), (fst b - sz - 24, True)] else [b])"

lemma split_block_spec:
  assumes seg: "heap_seg m b ((n, f) # post) 0" and fit: "sz \<le> n" "8 dvd sz"
    and bound: "0 < b" "blocks_end b ((n, f) # post) \<le> HEAP_END"
  shows "heap_seg (split_block (of_nat b) (of_nat sz) m) b (split_blocks sz (n, f) @ post) 0"
    and "only_headers {b, b + 24 + sz} m (split_block (of_nat b) (of_nat sz) m)"
    and "\<And>a bs z. heap_seg m a bs z \<Longrightarrow> blocks_end a bs \<le> b \<Longrightarrow>
      heap_seg (split_block (of_nat b) (of_nat sz) m) a bs z"
proof -
  have le: "b + 24 + n \<le> HEAP_END" using bound(2) blocks_end_ge [of "b + 24 + n" post] by simp
  have hd: "blk_size m (of_nat b) = of_nat n" "blk_free m (of_nat b) = f" "8 dvd n"
      "blk_next m (of_nat b) = (if post = [] then 0 else of_nat (b + 24 + n))"
    using seg by simp_all
  have n: "unat (of_nat n :: u64) = n" "unat (of_nat sz :: u64) = sz" using le fit by (simp_all add: of_nat_heap_addr)
  have cond: "of_nat sz + 24 + 16 \<le> blk_size m (of_nat b) \<longleftrightarrow> sz + 40 \<le> n"
  proof -
    have "unat (of_nat sz + 24 + 16 :: u64) = sz + 40"
      using unat_of_nat_64 [of "sz + 40"] le fit by (simp add: algebra_simps)
    then show ?thesis by (simp add: hd(1) word_le_nat_alt n)
  qed
  let ?new = "b + 24 + sz"
  have addr: "of_nat b + 24 + of_nat sz = (of_nat ?new :: u64)" by simp
  have "heap_seg (split_block (of_nat b) (of_nat sz) m) b (split_blocks sz (n, f) @ post) 0 \<and>
    only_headers {b, ?new} m (split_block (of_nat b) (of_nat sz) m) \<and>
    (\<forall>a bs z. heap_seg m a bs z \<longrightarrow> blocks_end a bs \<le> b \<longrightarrow>
      heap_seg (split_block (of_nat b) (of_nat sz) m) a bs z)"
  proof (cases "sz + 40 \<le> n")
    case False
    then have "split_block (of_nat b) (of_nat sz) m = m" using cond by (simp add: split_block_def)
    with False seg show ?thesis by (simp add: split_blocks_def only_headers_refl)
  next
    case True
    define m1 where "m1 = set_size (of_nat ?new) (of_nat n - of_nat sz - 24) m"
    define m2 where "m2 = set_free (of_nat ?new) True m1"
    define m3 where "m3 = set_next (of_nat ?new) (blk_next m2 (of_nat b)) m2"
    define m4 where "m4 = set_size (of_nat b) (of_nat sz) m3"
    define m5 where "m5 = set_next (of_nat b) (of_nat ?new) m4"
    have sp: "split_block (of_nat b) (of_nat sz) m = m5"
    proof -
      have "(of_nat sz + 24 + 16 \<le> (of_nat n :: u64)) = True" using cond True hd(1) by simp
      then show ?thesis
        unfolding split_block_def m5_def m4_def m3_def m2_def m1_def
        by (simp only: hd(1) Let_def if_True addr)
    qed
    have ap: "hdr_apart (of_nat b) (of_nat ?new)" "hdr_apart (of_nat ?new) (of_nat b)"
      using hdr_apart_nat [of b ?new] le True by auto
    note o1 = header_fields_other [OF ap(1)] and o2 = header_fields_other [OF ap(2)]
    have rem: "of_nat n - of_nat sz - 24 = (of_nat (n - sz - 24) :: u64)"
      using True by (simp add: of_nat_diff)
    have b5: "blk_size m5 (of_nat b) = of_nat sz" "blk_next m5 (of_nat b) = of_nat ?new" "blk_free m5 (of_nat b) = f"
      unfolding m5_def m4_def m3_def m2_def m1_def by (simp_all add: o1 hd(2) del: of_nat_add)
    have n5: "blk_size m5 (of_nat ?new) = of_nat (n - sz - 24)" "blk_free m5 (of_nat ?new) = True"
        "blk_next m5 (of_nat ?new) = (if post = [] then 0 else of_nat (b + 24 + n))"
      unfolding m5_def m4_def m3_def m2_def m1_def using hd(4)
      by (simp_all add: o1 o2 rem del: of_nat_add)
    have keep: "heap_seg m5 a bs z" if "heap_seg m a bs z" "blocks_end a bs \<le> b \<or> b + 24 + n \<le> a" "blocks_end a bs \<le> HEAP_END" for a bs z
      unfolding m5_def m4_def m3_def m2_def m1_def
      using that le True by (intro heap_seg_set_other) (auto simp del: of_nat_add)
    have "heap_seg m5 (b + 24 + n) post 0" using seg bound(2) by (intro keep) simp_all
    moreover have e: "?new + 24 + (n - sz - 24) = b + 24 + n" using True by simp
    moreover have "8 dvd n - sz - 24" using hd(3) fit(2) by (intro dvd_diff_nat) simp_all
    ultimately have "heap_seg m5 b ([(sz, f), (n - sz - 24, True)] @ post) 0"
      using b5 n5 fit(2) by (simp only: append_Cons append_Nil heap_seg.simps e list.distinct if_False simp_thms)
    moreover have "only_headers {b, ?new} m m5"
      unfolding m5_def m4_def m3_def m2_def m1_def using le True
      by (intro only_headers_trans [OF _ only_headers_set(1)] only_headers_trans [OF _ only_headers_set(2)]
          only_headers_trans [OF _ only_headers_set(3)] only_headers_refl) (auto simp del: of_nat_add)
    ultimately show ?thesis using True keep le unfolding sp by (auto simp: split_blocks_def)
  qed
  then show "heap_seg (split_block (of_nat b) (of_nat sz) m) b (split_blocks sz (n, f) @ post) 0"
    "only_headers {b, b + 24 + sz} m (split_block (of_nat b) (of_nat sz) m)"
    "\<And>a bs z. heap_seg m a bs z \<Longrightarrow> blocks_end a bs \<le> b \<Longrightarrow>
      heap_seg (split_block (of_nat b) (of_nat sz) m) a bs z"
    by blast+
qed

lemma split_block_outside:
  assumes seg: "heap_seg m b ((n, f) # post) 0" and fit: "sz \<le> n" "8 dvd sz"
    and bound: "0 < b" "blocks_end b ((n, f) # post) \<le> HEAP_END" and x: "unat x < b \<or> b + 24 + n \<le> unat x"
  shows "split_block (of_nat b) (of_nat sz) m x = m x"
proof (cases "sz + 40 \<le> n")
  case True
  with x split_block_spec(2) [OF seg fit bound] show ?thesis by (auto simp: only_headers_def)
next
  case False
  have le: "b + 24 + n \<le> HEAP_END" using bound(2) blocks_end_ge [of "b + 24 + n" post] by simp
  have "unat (of_nat sz + 24 + 16 :: u64) = sz + 40"
    using unat_of_nat_64 [of "sz + 40"] le fit by (simp add: algebra_simps)
  moreover have "unat (of_nat n :: u64) = n" using le by (simp add: of_nat_heap_addr)
  ultimately have "\<not> of_nat sz + 24 + 16 \<le> blk_size m (of_nat b)"
    using False seg by (simp add: word_le_nat_alt)
  then show ?thesis by (simp add: split_block_def)
qed

section \<open>Coalescing\<close>

fun merge :: "(nat \<times> bool) list \<Rightarrow> (nat \<times> bool) list" where
  "merge [] = []"
| "merge [b] = [b]"
| "merge (b # c # bs) =
     (if snd b \<and> snd c then merge ((fst b + 24 + fst c, True) # bs) else b # merge (c # bs))"

lemma merge_eq_Nil [simp]: "merge bs = [] \<longleftrightarrow> bs = []"
  by (induction bs rule: merge.induct) auto

lemma load64_bytes_cong:
  assumes "\<And>i. i < 8 \<Longrightarrow> m' (a + of_nat i) = m (a + of_nat i)"
  shows "load64 m' a = load64 m a"
proof -
  have *: "m' (a + w) = m (a + w)" if "unat w < 8" for w using assms [OF that] by simp
  show ?thesis
    unfolding load64_def using * [of 0] * [of 1] * [of 2] * [of 3] * [of 4] * [of 5] * [of 6] * [of 7] by simp
qed

lemma only_headers_fields:
  assumes oh: "only_headers H m m'" and h: "h + 24 \<le> HEAP_END"
    and apart: "\<And>g. g \<in> H \<Longrightarrow> g + 24 \<le> h \<or> h + 24 \<le> g"
  shows "blk_size m' (of_nat h) = blk_size m (of_nat h)" "blk_next m' (of_nat h) = blk_next m (of_nat h)"
    "blk_free m' (of_nat h) = blk_free m (of_nat h)"
proof -
  have byte: "m' (of_nat h + of_nat i) = m (of_nat h + of_nat i)" if "i < 24" for i
  proof -
    have "unat (of_nat h + of_nat i :: u64) = h + i"
      using of_nat_heap_addr [of "h + i"] h that by simp
    moreover have "h + i < g \<or> g + 24 \<le> h + i" if "g \<in> H" for g
      using apart [OF that] \<open>i < 24\<close> by linarith
    ultimately show ?thesis using oh unfolding only_headers_def by simp
  qed
  show "blk_size m' (of_nat h) = blk_size m (of_nat h)"
    unfolding blk_size_def by (rule load64_bytes_cong) (rule byte, simp)
  show "blk_next m' (of_nat h) = blk_next m (of_nat h)"
    unfolding blk_next_def
  proof (rule load64_bytes_cong)
    fix i :: nat assume "i < 8"
    then show "m' (of_nat h + 8 + of_nat i) = m (of_nat h + 8 + of_nat i)"
      using byte [of "8 + i"] by (simp add: add.assoc)
  qed
  show "blk_free m' (of_nat h) = blk_free m (of_nat h)"
    unfolding blk_free_def using byte [of 16] by simp
qed

lemma heap_seg_only_headers:
  assumes seg: "heap_seg m a bs z" and oh: "only_headers H m m'" and "blocks_end a bs \<le> HEAP_END"
    and apart: "\<And>g. g \<in> H \<Longrightarrow> blocks_end a bs \<le> g"
  shows "heap_seg m' a bs z"
proof (rule heap_seg_cong [OF seg])
  fix h assume "h \<in> set (block_addrs a bs)"
  from block_addrs_bounds [OF this] have h: "h + 24 \<le> blocks_end a bs" by simp
  then have "h + 24 \<le> HEAP_END" "\<And>g. g \<in> H \<Longrightarrow> g + 24 \<le> h \<or> h + 24 \<le> g"
    using assms(3) apart le_trans by blast+
  from only_headers_fields [OF oh this] show "blk_size m' (of_nat h) = blk_size m (of_nat h) \<and>
      blk_next m' (of_nat h) = blk_next m (of_nat h) \<and> blk_free m' (of_nat h) = blk_free m (of_nat h)" by blast
qed

lemma coalesce_loop_spec:
  assumes "heap_seg m a bs 0" "0 < a" "blocks_end a bs \<le> HEAP_END"
  shows "\<exists>m'. coalesce_loop (if bs = [] then 0 else of_nat a) m = Some m' \<and> heap_seg m' a (merge bs) 0 \<and>
    only_headers (set (block_addrs a bs)) m m' \<and>
    (\<forall>h \<in> set (block_addrs a bs). blk_free m' (of_nat h) = blk_free m (of_nat h))"
  using assms
proof (induction bs arbitrary: a m rule: merge.induct)
  case 1
  then show ?case by (simp add: coalesce_loop.simps only_headers_refl)
next
  case (2 b)
  then show ?case by (cases b) (simp add: coalesce_loop.simps only_headers_refl)
next
  case (3 b c bs)
  obtain n f k g where bc: "b = (n, f)" "c = (k, g)" by (cases b, cases c)
  let ?a1 = "a + 24 + n"
  have le: "?a1 + 24 + k \<le> HEAP_END" using 3(5) blocks_end_ge [of "?a1 + 24 + k" bs] by (simp add: bc)
  have nz: "(of_nat a :: u64) \<noteq> 0" "(of_nat ?a1 :: u64) \<noteq> 0"
    using 3(4) le of_nat_heap_neq_0 [of a] of_nat_heap_neq_0 [of ?a1] by simp_all
  have h0: "blk_size m (of_nat a) = of_nat n" "blk_next m (of_nat a) = of_nat ?a1" "blk_free m (of_nat a) = f" "8 dvd n"
    and h1: "blk_size m (of_nat ?a1) = of_nat k" "blk_free m (of_nat ?a1) = g" "8 dvd k"
      "blk_next m (of_nat ?a1) = (if bs = [] then 0 else of_nat (?a1 + 24 + k))"
    and rest: "heap_seg m (?a1 + 24 + k) bs 0" and tail: "heap_seg m ?a1 (c # bs) 0"
    using 3(3) by (simp_all add: bc)
  have ap: "hdr_apart (of_nat ?a1) (of_nat a)" using hdr_apart_nat [of a ?a1] le by simp
  show ?case
  proof (cases "f \<and> g")
    case True
    define m1 where "m1 = set_size (of_nat a) (of_nat n + (24 + of_nat k)) m"
    define m2 where "m2 = set_next (of_nat a) (blk_next m1 (of_nat ?a1)) m1"
    have step: "coalesce_loop (of_nat a) m = coalesce_loop (of_nat a) m2"
      using nz h0(2,3) h1(1,2) True h0(1)
      by (subst coalesce_loop.simps) (simp add: Let_def m1_def m2_def del: of_nat_add)
    have n2: "blk_next m2 (of_nat a) = (if bs = [] then 0 else of_nat (?a1 + 24 + k))"
      unfolding m2_def m1_def using h1(4) by (simp add: header_fields_other [OF ap] del: of_nat_add)
    have rest2: "heap_seg m2 (?a1 + 24 + k) bs 0"
      unfolding m2_def m1_def using rest le 3(5)
      by (intro heap_seg_set_other) (simp_all add: bc del: of_nat_add)
    have e: "a + 24 + (n + 24 + k) = ?a1 + 24 + k" by simp
    have seg2: "heap_seg m2 a ((n + 24 + k, True) # bs) 0"
    proof -
      have "blk_size m2 (of_nat a) = of_nat (n + 24 + k)" unfolding m2_def m1_def by (simp add: algebra_simps)
      moreover have "blk_free m2 (of_nat a) = True" unfolding m2_def m1_def using h0(3) True by simp
      moreover have "8 dvd n + 24 + k" using h0(4) h1(3) by simp
      ultimately show ?thesis using n2 rest2 by (simp only: heap_seg.simps e simp_thms)
    qed
    have "blocks_end a ((n + 24 + k, True) # bs) \<le> HEAP_END" using 3(5) by (simp only: bc blocks_end.simps e)
    then obtain m' where m': "coalesce_loop (of_nat a) m2 = Some m'" "heap_seg m' a (merge ((n + 24 + k, True) # bs)) 0"
        "only_headers (set (block_addrs a ((n + 24 + k, True) # bs))) m2 m'"
        "\<forall>h \<in> set (block_addrs a ((n + 24 + k, True) # bs)). blk_free m' (of_nat h) = blk_free m2 (of_nat h)"
      using 3(1) [of m2 a] True seg2 3(4) by (auto simp: bc)
    have flags2: "blk_free m2 (of_nat h) = blk_free m (of_nat h)" if "h = a \<or> ?a1 \<le> h" "h + 24 \<le> HEAP_END" for h
      using that hdr_apart_nat [of a h] header_fields_other(3,6) [of "of_nat h" "of_nat a"]
      unfolding m2_def m1_def by auto
    have oh2: "only_headers (set (block_addrs a (b # c # bs))) m m2"
      unfolding m2_def m1_def using le
      by (intro only_headers_trans [OF _ only_headers_set(2)] only_headers_set(1)) (simp_all add: bc)
    have sub: "set (block_addrs a ((n + 24 + k, True) # bs)) \<subseteq> set (block_addrs a (b # c # bs))"
      unfolding bc by (simp only: block_addrs.simps e) auto
    have oh: "only_headers (set (block_addrs a (b # c # bs))) m m'"
      using only_headers_trans [OF oh2 only_headers_mono [OF m'(3) sub]] .
    have addr: "h + 24 \<le> HEAP_END" "h = a \<or> h = ?a1 \<or> ?a1 + 24 + k \<le> h \<and> h \<in> set (block_addrs (?a1 + 24 + k) bs)"
      if "h \<in> set (block_addrs a (b # c # bs))" for h
      using that block_addrs_bounds [of h "?a1 + 24 + k" bs] le 3(5) by (auto simp: bc)
    have "blk_free m' (of_nat h) = blk_free m (of_nat h)" if "h \<in> set (block_addrs a (b # c # bs))" for h
    proof (cases "h = ?a1")
      case True
      have "g + 24 \<le> h \<or> h + 24 \<le> g" if "g \<in> set (block_addrs a ((n + 24 + k, True) # bs))" for g
        using that block_addrs_bounds [of g "?a1 + 24 + k" bs] True by (auto simp: algebra_simps)
      then have "blk_free m' (of_nat h) = blk_free m2 (of_nat h)"
        using only_headers_fields(3) [OF m'(3) addr(1) [OF that]] by blast
      with flags2 [of h] addr(1) [OF that] True show ?thesis by simp
    next
      case False
      then have "h \<in> set (block_addrs a ((n + 24 + k, True) # bs))"
        using addr(2) [OF that] by (simp only: block_addrs.simps e) auto
      moreover have "h = a \<or> ?a1 \<le> h" using addr(2) [OF that] False by linarith
      ultimately show ?thesis using bspec [OF m'(4)] flags2 [OF _ addr(1) [OF that]] by (meson trans)
    qed
    moreover have "heap_seg m' a (merge (b # c # bs)) 0" using m'(2) True by (simp add: bc)
    ultimately show ?thesis
      using step m'(1) oh by (intro exI [of _ m']) (simp only: list.distinct if_False simp_thms, blast)
  next
    case False
    have step: "coalesce_loop (of_nat a) m = coalesce_loop (of_nat ?a1) m"
      using nz h0(2,3) h1(2) False by (subst coalesce_loop.simps) (auto simp: Let_def simp del: of_nat_add)
    obtain m' where m': "coalesce_loop (of_nat ?a1) m = Some m'" "heap_seg m' ?a1 (merge (c # bs)) 0"
        "only_headers (set (block_addrs ?a1 (c # bs))) m m'"
        "\<forall>h \<in> set (block_addrs ?a1 (c # bs)). blk_free m' (of_nat h) = blk_free m (of_nat h)"
      using 3(2) [of m ?a1] False tail 3(4,5) by (auto simp: bc simp del: of_nat_add)
    have gap: "g + 24 \<le> a \<or> a + 24 \<le> g" if "g \<in> set (block_addrs ?a1 (c # bs))" for g
      using block_addrs_bounds [OF that] by simp
    have ha: "a + 24 \<le> HEAP_END" using le by simp
    note kept = only_headers_fields [OF m'(3) ha gap]
    have f: "blk_size m' (of_nat a) = of_nat n" "blk_next m' (of_nat a) = of_nat ?a1" "blk_free m' (of_nat a) = f"
      by (simp_all only: kept h0)
    have "heap_seg m' a (merge (b # c # bs)) 0"
      using f m'(2) h0(4) False by (auto simp: bc simp del: of_nat_add)
    moreover have "only_headers (set (block_addrs a (b # c # bs))) m m'"
      using m'(3) by (rule only_headers_mono) (auto simp: bc)
    moreover have "\<forall>h \<in> set (block_addrs a (b # c # bs)). blk_free m' (of_nat h) = blk_free m (of_nat h)"
      using m'(4) f(3) h0(3) by (auto simp: bc)
    ultimately show ?thesis
      using step m'(1) by (intro exI [of _ m']) (simp only: list.distinct if_False simp_thms)
  qed
qed

section \<open>The heap invariant\<close>

definition used_bytes :: "(nat \<times> bool) list \<Rightarrow> nat" where
  "used_bytes bs = (\<Sum>b \<leftarrow> bs. if snd b then 0 else fst b)"

definition used_count :: "(nat \<times> bool) list \<Rightarrow> nat" where
  "used_count bs = length (filter (\<lambda>b. \<not> snd b) bs)"

fun no_adjacent_free :: "(nat \<times> bool) list \<Rightarrow> bool" where
  "no_adjacent_free (b # c # bs) \<longleftrightarrow> \<not> (snd b \<and> snd c) \<and> no_adjacent_free (c # bs)"
| "no_adjacent_free _ \<longleftrightarrow> True"

text \<open>
  The memory holds the blocks, the counters agree with them, and no two free blocks are
  adjacent.  Before the first allocation this holds of the state \<open>init_heap\<close> produces.
\<close>

definition heap_state :: "'a kheap_scheme \<Rightarrow> (nat \<times> bool) list \<Rightarrow> bool" where
  "heap_state s bs \<longleftrightarrow> heap_initialized s \<and> head s = HEAP_START \<and> heap_rep (phys_mem s) bs \<and>
     no_adjacent_free bs \<and> unat (total_allocated s) = used_bytes bs \<and>
     unat (total_free s) + used_bytes bs = unat HEAP_SIZE \<and> unat (allocation_count s) = used_count bs"

definition heap_ready :: "'a kheap_scheme \<Rightarrow> 'a kheap_scheme" where
  "heap_ready s = (if heap_initialized s then s else init_heap s)"

definition heap_inv :: "'a kheap_scheme \<Rightarrow> (nat \<times> bool) list \<Rightarrow> bool" where
  "heap_inv s bs \<longleftrightarrow> heap_state (heap_ready s) bs"

lemma used_simps [simp]:
  "used_bytes [] = 0" "used_bytes (b # bs) = (if snd b then 0 else fst b) + used_bytes bs"
  "used_bytes (bs @ cs) = used_bytes bs + used_bytes cs"
  "used_count [] = 0" "used_count (b # bs) = (if snd b then 0 else 1) + used_count bs"
  "used_count (bs @ cs) = used_count bs + used_count cs"
  by (simp_all add: used_bytes_def used_count_def)

lemma used_bytes_bound: "a + used_bytes bs + 24 * used_count bs \<le> blocks_end a bs"
proof (induction a bs rule: blocks_end.induct)
  case (2 a n f bs)
  then show ?case by (cases f) simp_all
qed simp

lemma merge_blocks_end: "blocks_end a (merge bs) = blocks_end a bs"
proof (induction bs arbitrary: a rule: merge.induct)
  case (3 b c bs)
  then show ?case by (cases b, cases c) (simp add: algebra_simps)
qed simp_all

lemma merge_used: "used_bytes (merge bs) = used_bytes bs" "used_count (merge bs) = used_count bs"
  by (induction bs rule: merge.induct) auto

lemma merge_Cons_head: "bs \<noteq> [] \<Longrightarrow> snd (hd (merge bs)) = snd (hd bs)"
  by (induction bs rule: merge.induct) auto

lemma no_adjacent_free_Cons:
  "no_adjacent_free (b # bs) \<longleftrightarrow> (bs = [] \<or> \<not> (snd b \<and> snd (hd bs))) \<and> no_adjacent_free bs"
  by (cases bs) auto

lemma merge_no_adjacent: "no_adjacent_free (merge bs)"
proof (induction bs rule: merge.induct)
  case (3 b c bs)
  then show ?case using merge_Cons_head [of "c # bs"] by (auto simp: no_adjacent_free_Cons)
qed simp_all

lemma merge_id: "no_adjacent_free bs \<Longrightarrow> merge bs = bs"
  by (induction bs rule: merge.induct) auto

lemma no_adjacent_append:
  "no_adjacent_free (bs @ cs) \<longleftrightarrow> no_adjacent_free bs \<and> no_adjacent_free cs \<and>
     (bs = [] \<or> cs = [] \<or> \<not> (snd (last bs) \<and> snd (hd cs)))"
proof (induction bs)
  case (Cons b bs)
  then show ?case by (cases bs; cases cs) (auto simp: no_adjacent_free_Cons)
qed simp

text \<open>Rounding the request up to a multiple of 8.\<close>

definition align8 :: "nat \<Rightarrow> nat" where
  "align8 n = (n + 7) div 8 * 8"

lemma align8_props: "8 dvd align8 n" "n \<le> align8 n" "align8 n < n + 8"
  by (simp_all add: align8_def)

lemma and_not_7: "unat (w AND NOT 7 :: u64) = unat w div 8 * 8"
proof -
  have "w AND NOT 7 = push_bit 3 (drop_bit 3 w)"
  proof (rule bit_word_eqI)
    fix n assume "n < LENGTH(64)"
    have "(7 :: u64) = mask 3" by (simp add: mask_eq_exp_minus_1)
    then have "bit (w AND NOT 7) n \<longleftrightarrow> bit w n \<and> \<not> n < 3"
      using \<open>n < LENGTH(64)\<close> by (simp only: bit_and_iff bit_not_iff bit_mask_iff) auto
    also have "\<dots> \<longleftrightarrow> bit (push_bit 3 (drop_bit 3 w)) n"
      using \<open>n < LENGTH(64)\<close> by (auto simp: bit_push_bit_iff bit_drop_bit_eq)
    finally show "bit (w AND NOT 7) n = bit (push_bit 3 (drop_bit 3 w)) n" .
  qed
  also have "\<dots> = w div 8 * 8" by (simp add: push_bit_eq_mult drop_bit_eq_div)
  finally have eq: "w AND NOT 7 = w div 8 * 8" .
  have u: "unat (w div 8) = unat w div 8" by (simp add: unat_div)
  have lt: "unat w div 8 * 8 < 18446744073709551616"
    by (metis div_times_less_eq_dividend order_le_less_trans unat_less_64)
  have "of_nat (unat (w div 8) * 8) = w div 8 * 8" by (simp only: of_nat_mult of_nat_unat ucast_id of_nat_numeral)
  then show ?thesis unfolding eq using unat_of_nat_64 [OF lt] u by simp
qed

lemma align8_word:
  fixes sz :: u64
  assumes "unat sz + 7 < 18446744073709551616"
  shows "(sz + 7) AND NOT 7 = of_nat (align8 (unat sz))" "unat (of_nat (align8 (unat sz)) :: u64) = align8 (unat sz)"
proof -
  have "unat (sz + 7) = unat sz + 7" using assms by (subst unat_add_no_wrap) simp_all
  then have u: "unat ((sz + 7) AND NOT 7) = align8 (unat sz)" by (simp only: and_not_7 align8_def)
  then show eq: "(sz + 7) AND NOT 7 = of_nat (align8 (unat sz))" by (metis of_nat_unat ucast_id)
  show "unat (of_nat (align8 (unat sz)) :: u64) = align8 (unat sz)" using u unfolding eq .
qed

section \<open>Allocation\<close>

definition alloc_split :: "nat \<Rightarrow> nat \<Rightarrow> (nat \<times> bool) list" where
  "alloc_split k n = (if k + 40 \<le> n then [(k, False), (n - k - 24, True)] else [(n, False)])"

lemma heap_seg_set_free:
  assumes "heap_seg m b ((n, f) # bs) z" "blocks_end b ((n, f) # bs) \<le> HEAP_END"
  shows "heap_seg (set_free (of_nat b) g m) b ((n, g) # bs) z"
proof -
  have "b + 24 + n \<le> HEAP_END" using assms(2) blocks_end_ge [of "b + 24 + n" bs] by simp
  then have "heap_seg (set_free (of_nat b) g m) (b + 24 + n) bs z"
    using assms by (intro heap_seg_set_other) auto
  then show ?thesis using assms(1) by simp
qed

lemma alloc_split_end: "k \<le> n \<Longrightarrow> blocks_end b (alloc_split k n @ post) = blocks_end (b + 24 + n) post"
  by (auto simp: alloc_split_def algebra_simps)

lemma heap_state_nonempty: "heap_state s bs \<Longrightarrow> bs \<noteq> []"
  by (auto simp: heap_state_def heap_rep_def)

lemma heap_rep_split:
  assumes "heap_rep m (pre @ (n, f) # post)"
  shows "heap_seg m HEAP_BASE pre (of_nat (blocks_end HEAP_BASE pre))"
    "heap_seg m (blocks_end HEAP_BASE pre) ((n, f) # post) 0"
    "HEAP_BASE \<le> blocks_end HEAP_BASE pre" "blocks_end (blocks_end HEAP_BASE pre) ((n, f) # post) = HEAP_END"
    "blocks_end HEAP_BASE pre + 24 + n \<le> HEAP_END"
proof -
  let ?b = "blocks_end HEAP_BASE pre"
  show "heap_seg m HEAP_BASE pre (of_nat ?b)" "heap_seg m ?b ((n, f) # post) 0"
    using assms unfolding heap_rep_def heap_seg_append by auto
  show "HEAP_BASE \<le> ?b" by (rule blocks_end_ge)
  show e: "blocks_end ?b ((n, f) # post) = HEAP_END" using assms by (simp add: heap_rep_def)
  show "?b + 24 + n \<le> HEAP_END" using e blocks_end_ge [of "?b + 24 + n" post] by simp
qed

lemma alloc_memory:
  fixes m :: pmem
  assumes rep: "heap_rep m (pre @ (n, True) # post)" and fit: "k \<le> n" "8 dvd k"
  defines "b \<equiv> blocks_end HEAP_BASE pre"
  defines "m' \<equiv> set_free (of_nat b) False (split_block (of_nat b) (of_nat k) m)"
  shows "heap_rep m' (pre @ alloc_split k n @ post)" "blk_size m' (of_nat b) = of_nat (if k + 40 \<le> n then k else n)"
    "\<And>x. unat x < b \<or> b + 24 + n \<le> unat x \<Longrightarrow> m' x = m x"
proof -
  note sp = heap_rep_split [OF rep, folded b_def]
  have b0: "0 < b" using sp(3) by simp
  have e: "blocks_end b ((n, True) # post) \<le> HEAP_END" using sp(4) by simp
  note spl = split_block_spec [OF sp(2) fit b0 e]
  let ?m1 = "split_block (of_nat b) (of_nat k) m"
  have pre1: "heap_seg ?m1 HEAP_BASE pre (of_nat b)" using spl(3) [OF sp(1)] by (simp add: b_def)
  have pre': "heap_seg m' HEAP_BASE pre (of_nat b)"
    unfolding m'_def using pre1 sp(5) by (intro heap_seg_set_other) (auto simp: b_def)
  have "heap_seg m' b (alloc_split k n @ post) 0"
  proof (cases "k + 40 \<le> n")
    case True
    have "blocks_end b ((k, True) # (n - k - 24, True) # post) = blocks_end b ((n, True) # post)"
      using True by (simp add: algebra_simps)
    with spl(1) True e show ?thesis
      unfolding m'_def by (simp add: split_blocks_def alloc_split_def del: heap_seg.simps blocks_end.simps) (rule heap_seg_set_free, auto)
  next
    case False
    with spl(1) e show ?thesis
      unfolding m'_def by (simp add: split_blocks_def alloc_split_def del: heap_seg.simps blocks_end.simps) (rule heap_seg_set_free, auto)
  qed
  note seg' = this
  have ne: "alloc_split k n \<noteq> []" by (simp add: alloc_split_def)
  show "heap_rep m' (pre @ alloc_split k n @ post)"
    unfolding heap_rep_def heap_seg_append [of m' HEAP_BASE pre]
    using pre' seg' alloc_split_end [OF fit(1), of b post] sp(4) ne by (simp add: b_def)
  show "blk_size m' (of_nat b) = of_nat (if k + 40 \<le> n then k else n)"
    using seg' by (auto simp: alloc_split_def split: if_splits)
  show "m' x = m x" if "unat x < b \<or> b + 24 + n \<le> unat x" for x
  proof -
    have "m' x = ?m1 x" unfolding m'_def using that sp(5) by (intro header_bytes_other(3) header_diff) auto
    also have "\<dots> = m x" using split_block_outside [OF sp(2) fit b0 e that] .
    finally show ?thesis .
  qed
qed

lemma kmalloc_spec:
  fixes s :: "'a kheap_scheme"
  assumes inv: "heap_inv s bs" and nowrap: "unat sz + 7 < 18446744073709551616"
    and bs: "bs = pre @ (n, True) # post" "align8 (unat sz) \<le> n" "\<forall>b \<in> set pre. \<not> fits (align8 (unat sz)) b"
  defines "b \<equiv> blocks_end HEAP_BASE pre"
  obtains s' where "kmalloc sz s = Inr (of_nat (b + 24), s')"
    "heap_state s' (pre @ alloc_split (align8 (unat sz)) n @ post)"
    "\<And>x. unat x < b \<or> b + 24 + n \<le> unat x \<Longrightarrow> phys_mem s' x = phys_mem (heap_ready s) x"
    "\<exists>m ta tf ac. s' = (heap_ready s)\<lparr>phys_mem := m, total_allocated := ta, total_free := tf, allocation_count := ac\<rparr>"
proof -
  let ?k = "align8 (unat sz)" and ?s = "heap_ready s"
  note al = align8_word [OF nowrap]
  have st: "heap_state ?s bs" using inv by (simp add: heap_inv_def)
  then have rep: "heap_rep (phys_mem ?s) (pre @ (n, True) # post)" and hd: "head ?s = of_nat HEAP_BASE"
    using bs(1) by (simp_all add: heap_state_def)
  note sp = heap_rep_split [OF rep, folded b_def]
  have fit: "fits ?k (n, True)" using bs(2) by (simp add: fits_def)
  have find: "find_free_block (of_nat ?k) ?s = Inr (of_nat b)"
  proof -
    have dw: "dropWhile (\<lambda>b. \<not> fits ?k b) bs = (n, True) # post" "takeWhile (\<lambda>b. \<not> fits ?k b) bs = pre"
      using fit bs(3) unfolding bs(1) by (simp_all add: dropWhile_append takeWhile_append)
    have "heap_seg (phys_mem ?s) HEAP_BASE bs 0" "blocks_end HEAP_BASE bs \<le> HEAP_END"
      using rep bs(1) by (simp_all add: heap_rep_def)
    from find_free_loop_eq [OF this(1) _ this(2), of "of_nat ?k"] dw al(2) bs(1) fit show ?thesis
      by (simp add: find_free_block_def returns_def hd b_def)
  qed
  define m where "m = set_free (of_nat b) False (split_block (of_nat b) (of_nat ?k) (phys_mem ?s))"
  note mem = alloc_memory [OF rep bs(2) align8_props(1), folded b_def, folded m_def]
  let ?n = "if ?k + 40 \<le> n then ?k else n"
  define s' where "s' = ?s\<lparr>phys_mem := m, total_allocated := total_allocated ?s + of_nat ?n,
    total_free := total_free ?s - of_nat ?n, allocation_count := allocation_count ?s + 1\<rparr>"
  have b0: "(of_nat b :: u64) \<noteq> 0" using sp(3,5) of_nat_heap_neq_0 [of b] by simp
  have res: "kmalloc sz s = Inr (of_nat (b + 24), s')"
    unfolding kmalloc_def Let_def al(1) heap_ready_def [symmetric] find
    using b0 mem(2) by (simp add: m_def [symmetric] s'_def)
  let ?bs = "pre @ alloc_split ?k n @ post"
  have used: "used_bytes ?bs = used_bytes bs + ?n" "used_count ?bs = used_count bs + 1"
    by (simp_all add: bs(1) alloc_split_def)
  have "used_bytes ?bs \<le> HEAP_END - HEAP_BASE" "used_count ?bs \<le> HEAP_END - HEAP_BASE"
    using used_bytes_bound [of HEAP_BASE ?bs] mem(1) by (simp_all add: heap_rep_def)
  then have lim: "used_bytes bs + ?n \<le> 16777216" "used_count bs + 1 \<le> 16777216" using used by simp_all
  have n: "unat (of_nat ?n :: u64) = ?n" using lim by (intro unat_of_nat_64) linarith
  have c: "unat (total_allocated ?s) = used_bytes bs" "unat (total_free ?s) + used_bytes bs = 16777216"
      "unat (allocation_count ?s) = used_count bs" "no_adjacent_free bs"
    using st by (simp_all add: heap_state_def)
  have "unat (total_allocated ?s + of_nat ?n) = used_bytes bs + ?n"
    using c n lim by (subst unat_add_no_wrap) simp_all
  moreover have "unat (total_free ?s - of_nat ?n) = unat (total_free ?s) - ?n"
    using c n lim by (subst unat_sub) (simp_all add: word_le_nat_alt)
  moreover have "unat (allocation_count ?s + 1) = used_count bs + 1"
    using c lim by (subst unat_add_no_wrap) simp_all
  moreover have "no_adjacent_free ?bs"
    using c(4) unfolding bs(1) by (auto simp: alloc_split_def no_adjacent_append no_adjacent_free_Cons)
  ultimately have state: "heap_state s' ?bs"
    using st used c lim mem(1) by (simp add: heap_state_def s'_def)
  have "phys_mem s' x = phys_mem ?s x" if "unat x < b \<or> b + 24 + n \<le> unat x" for x
    using mem(3) [OF that] by (simp add: s'_def)
  moreover have "\<exists>m ta tf ac. s' = ?s\<lparr>phys_mem := m, total_allocated := ta, total_free := tf, allocation_count := ac\<rparr>"
    unfolding s'_def by blast
  ultimately show ?thesis by (rule that [OF res state])
qed

lemma kmalloc_out_of_memory:
  fixes s :: "'a kheap_scheme"
  assumes inv: "heap_inv s bs" and nowrap: "unat sz + 7 < 18446744073709551616"
    and none: "\<forall>b \<in> set bs. \<not> fits (align8 (unat sz)) b"
  shows "kmalloc sz s = Inl (Panic ''kmalloc: Out of memory!'')"
proof -
  note al = align8_word [OF nowrap]
  have st: "heap_state (heap_ready s) bs" using inv by (simp add: heap_inv_def)
  then have rep: "heap_seg (phys_mem (heap_ready s)) HEAP_BASE bs 0" "blocks_end HEAP_BASE bs \<le> HEAP_END"
    and hd: "head (heap_ready s) = of_nat HEAP_BASE" by (simp_all add: heap_state_def heap_rep_def)
  have "dropWhile (\<lambda>b. \<not> fits (align8 (unat sz)) b) bs = []" using none by simp
  with find_free_loop_eq [OF rep(1) _ rep(2), of "of_nat (align8 (unat sz))"] al(2) heap_state_nonempty [OF st]
  have find: "find_free_block (of_nat (align8 (unat sz))) (heap_ready s) = Inr 0"
    by (simp add: find_free_block_def returns_def hd)
  show ?thesis unfolding kmalloc_def Let_def al(1) heap_ready_def [symmetric] find by simp
qed

section \<open>Release\<close>

lemma kfree_spec:
  fixes s :: "'a kheap_scheme"
  assumes st: "heap_state s bs" and bs: "bs = pre @ (n, False) # post"
  defines "b \<equiv> blocks_end HEAP_BASE pre"
  obtains s' where "kfree (of_nat (b + 24)) s = Inr s'" "heap_state s' (merge (pre @ (n, True) # post))"
    "only_headers (set (block_addrs HEAP_BASE bs)) (phys_mem s) (phys_mem s')"
    "blk_free (phys_mem s') (of_nat b)"
    "\<exists>m ta tf ac. s' = s\<lparr>phys_mem := m, total_allocated := ta, total_free := tf, allocation_count := ac\<rparr>"
proof -
  have rep: "heap_rep (phys_mem s) (pre @ (n, False) # post)" and hd: "head s = of_nat HEAP_BASE"
    using st bs by (simp_all add: heap_state_def)
  note sp = heap_rep_split [OF rep, folded b_def]
  let ?bs = "pre @ (n, True) # post"
  define m where "m = set_free (of_nat b) True (phys_mem s)"
  have addrs: "block_addrs HEAP_BASE ?bs = block_addrs HEAP_BASE bs" by (simp add: bs)
  have "heap_seg m HEAP_BASE pre (of_nat b)"
    unfolding m_def using sp(1,5) by (intro heap_seg_set_other) (auto simp: b_def)
  moreover have "heap_seg m b ((n, True) # post) 0"
    unfolding m_def using sp(2,4) by (intro heap_seg_set_free [where f = False]) simp_all
  ultimately have seg: "heap_seg m HEAP_BASE ?bs 0" by (simp add: heap_seg_append b_def)
  have e: "blocks_end HEAP_BASE ?bs = HEAP_END" using sp(4) by (simp add: b_def)
  have "\<exists>m'. coalesce_loop (if ?bs = [] then 0 else of_nat HEAP_BASE) m = Some m' \<and> heap_seg m' HEAP_BASE (merge ?bs) 0 \<and>
      only_headers (set (block_addrs HEAP_BASE ?bs)) m m' \<and>
      (\<forall>h \<in> set (block_addrs HEAP_BASE ?bs). blk_free m' (of_nat h) = blk_free m (of_nat h))"
    using seg e by (intro coalesce_loop_spec) simp_all
  then obtain m' where m': "coalesce_loop (of_nat HEAP_BASE) m = Some m'" "heap_seg m' HEAP_BASE (merge ?bs) 0"
      "only_headers (set (block_addrs HEAP_BASE bs)) m m'"
      "\<forall>h \<in> set (block_addrs HEAP_BASE bs). blk_free m' (of_nat h) = blk_free m (of_nat h)"
    unfolding addrs by auto
  have size: "blk_size m (of_nat b) = of_nat n" "\<not> blk_free (phys_mem s) (of_nat b)"
    using sp(2) by (simp_all add: m_def)
  have bm: "b \<in> set (block_addrs HEAP_BASE bs)" by (simp add: bs b_def)
  define s' where "s' = s\<lparr>phys_mem := m', total_allocated := total_allocated s - of_nat n,
    total_free := total_free s + of_nat n, allocation_count := allocation_count s - 1\<rparr>"
  have ub: "unat (of_nat b :: u64) = b" "unat (of_nat (b + 24) :: u64) = b + 24"
    using sp(5) of_nat_heap_addr [of b] of_nat_heap_addr [of "b + 24"] by simp_all
  have "\<not> (of_nat b < (0x2000000 :: u64) \<or> 0x2000000 + 0x1000000 \<le> (of_nat b :: u64))"
    using ub(1) sp(3,5) by (simp add: word_less_nat_alt word_le_nat_alt)
  moreover have "(of_nat (b + 24) :: u64) \<noteq> 0" using ub(2) by auto
  moreover have "(of_nat (b + 24) :: u64) - 24 = of_nat b" by simp
  ultimately have res: "kfree (of_nat (b + 24)) s = Inr s'"
    using size m'(1) hd
    by (simp add: kfree_def Let_def coalesce_free_blocks_def returns_def m_def [symmetric] s'_def del: of_nat_add)
  have c: "unat (total_allocated s) = used_bytes bs" "unat (total_free s) + used_bytes bs = 16777216"
      "unat (allocation_count s) = used_count bs"
    using st by (simp_all add: heap_state_def)
  have used: "used_bytes bs = used_bytes (merge ?bs) + n" "used_count bs = used_count (merge ?bs) + 1"
    by (simp_all add: bs merge_used)
  have n: "unat (of_nat n :: u64) = n" using sp(5) by (simp add: of_nat_heap_addr)
  have "unat (total_allocated s - of_nat n) = used_bytes (merge ?bs)"
    using c used n by (subst unat_sub) (simp_all add: word_le_nat_alt)
  moreover have "unat (total_free s + of_nat n) = unat (total_free s) + n"
    using c used n by (subst unat_add_no_wrap) simp_all
  moreover have "unat (allocation_count s - 1) = used_count (merge ?bs)"
    using c used by (subst unat_minus_one) auto
  moreover have "heap_rep m' (merge ?bs)" using m'(2) e by (simp add: heap_rep_def merge_blocks_end)
  ultimately have state: "heap_state s' (merge ?bs)"
    using st used c by (simp add: heap_state_def s'_def merge_no_adjacent)
  have "only_headers (set (block_addrs HEAP_BASE bs)) (phys_mem s) m"
    unfolding m_def using bm sp(5) by (intro only_headers_set) simp_all
  then have "only_headers (set (block_addrs HEAP_BASE bs)) (phys_mem s) m'" using m'(3) by (rule only_headers_trans)
  then have oh: "only_headers (set (block_addrs HEAP_BASE bs)) (phys_mem s) (phys_mem s')" by (simp add: s'_def)
  have fr: "blk_free (phys_mem s') (of_nat b)" using m'(4) bm by (simp add: m_def s'_def)
  have "\<exists>m ta tf ac. s' = s\<lparr>phys_mem := m, total_allocated := ta, total_free := tf, allocation_count := ac\<rparr>"
    unfolding s'_def by blast
  with state oh fr show ?thesis by (rule that [OF res])
qed

section \<open>Correctness\<close>

lemma first_fit_split:
  assumes "\<not> (\<forall>b \<in> set bs. \<not> fits k b)"
  obtains pre n post where "bs = pre @ (n, True) # post" "k \<le> n" "\<forall>b \<in> set pre. \<not> fits k b"
proof -
  obtain pre b post where "bs = pre @ b # post" "fits k b" "\<forall>b \<in> set pre. \<not> fits k b"
    using assms split_list_first_prop [of bs "fits k"] by blast
  then show ?thesis using that [of pre "fst b" post] by (cases b) (simp add: fits_def)
qed

lemma init_heap_state:
  assumes "\<not> heap_initialized s" "total_allocated s = 0" "total_free s = HEAP_SIZE" "allocation_count s = 0"
  shows "heap_inv s [(0xFFFFE8, True)]"
proof -
  have "heap_seg (phys_mem (init_heap s)) HEAP_BASE [(0xFFFFE8, True)] 0"
    by (simp add: init_heap_def)
  then show ?thesis
    using assms by (simp add: heap_inv_def heap_ready_def heap_state_def heap_rep_def init_heap_def)
qed

definition kheap_boot :: kheap where
  "kheap_boot = vmm.extend vmm_boot \<lparr>head = 0, heap_initialized = False, total_allocated = 0,
     total_free = HEAP_SIZE, allocation_count = 0\<rparr>"

lemma kheap_boot_inv: "heap_inv kheap_boot [(0xFFFFE8, True)]"
  by (rule init_heap_state) (simp_all add: kheap_boot_def vmm.defs)

text \<open>
  C4: allocation is first fit.  The request is rounded up to a multiple of 8.  When no free block
  is large enough the call panics; otherwise it returns the address just behind the header of
  the first free block that is, that block becomes used (split when the rest can hold a header
  and 16 bytes), every other block stays as it is, nothing outside the chosen block changes, and
  the list, the counters and the absence of adjacent free blocks are kept.
\<close>

theorem kmalloc_correct:
  assumes "heap_inv s bs" and "unat sz < 2 ^ 64 - 7"
  shows "if \<forall>b \<in> set bs. \<not> fits (align8 (unat sz)) b then
       kmalloc sz s = Inl (Panic ''kmalloc: Out of memory!'')
     else \<exists>pre n post s'. bs = pre @ (n, True) # post \<and> align8 (unat sz) \<le> n \<and>
       (\<forall>b \<in> set pre. \<not> fits (align8 (unat sz)) b) \<and>
       kmalloc sz s = Inr (of_nat (blocks_end HEAP_BASE pre + 24), s') \<and>
       heap_inv s' (pre @ alloc_split (align8 (unat sz)) n @ post) \<and>
       (\<forall>x. unat x < blocks_end HEAP_BASE pre \<or> blocks_end HEAP_BASE pre + 24 + n \<le> unat x \<longrightarrow>
          phys_mem s' x = phys_mem (heap_ready s) x)"
proof (cases "\<forall>b \<in> set bs. \<not> fits (align8 (unat sz)) b")
  case True
  have "unat sz + 7 < 18446744073709551616" using assms(2) by simp
  from kmalloc_out_of_memory [OF assms(1) this True] True show ?thesis by simp
next
  case False
  then obtain pre n post where bs: "bs = pre @ (n, True) # post" "align8 (unat sz) \<le> n"
      "\<forall>b \<in> set pre. \<not> fits (align8 (unat sz)) b"
    by (rule first_fit_split)
  have "unat sz + 7 < 18446744073709551616" using assms(2) by simp
  from kmalloc_spec [OF assms(1) this bs] obtain s' where
    s': "kmalloc sz s = Inr (of_nat (blocks_end HEAP_BASE pre + 24), s')"
      "heap_state s' (pre @ alloc_split (align8 (unat sz)) n @ post)"
      "\<And>x. unat x < blocks_end HEAP_BASE pre \<or> blocks_end HEAP_BASE pre + 24 + n \<le> unat x \<Longrightarrow>
        phys_mem s' x = phys_mem (heap_ready s) x" by metis
  have "heap_inv s' (pre @ alloc_split (align8 (unat sz)) n @ post)"
    using s'(2) by (simp add: heap_inv_def heap_ready_def heap_state_def)
  with bs s' show ?thesis unfolding if_not_P [OF False] by blast
qed

theorem kmalloc_correct_witness:
  "\<exists>s'. kmalloc 100 kheap_boot = Inr (0x2000018, s') \<and> heap_inv s' [(104, False), (0xFFFF68, True)]"
proof -
  have "unat (100 :: u64) < 2 ^ 64 - 7" by simp
  from kmalloc_correct [OF kheap_boot_inv this] show ?thesis
    by (auto simp: fits_def align8_def alloc_split_def Cons_eq_append_conv)
qed

text \<open>
  C5: release.  Freeing an allocated block returns, marks it free and merges all adjacent free
  blocks; no byte outside the block headers changes, so the contents of every allocation stay;
  the list, the counters and the absence of adjacent free blocks are kept.  Freeing the same
  pointer again is detected, both at once and when the block was already free.
\<close>

theorem kfree_correct:
  assumes "heap_state s (pre @ (n, f) # post)" and "ptr = of_nat (blocks_end HEAP_BASE pre + 24)"
  shows "if f then kfree ptr s = Inl (Panic ''kfree: Double free detected!'')
     else \<exists>s'. kfree ptr s = Inr s' \<and> heap_state s' (merge (pre @ (n, True) # post)) \<and>
       only_headers (set (block_addrs HEAP_BASE (pre @ (n, f) # post))) (phys_mem s) (phys_mem s') \<and>
       kfree ptr s' = Inl (Panic ''kfree: Double free detected!'')"
proof -
  let ?b = "blocks_end HEAP_BASE pre"
  have rep: "heap_rep (phys_mem s) (pre @ (n, f) # post)" using assms(1) by (simp add: heap_state_def)
  note sp = heap_rep_split [OF rep]
  have ub: "unat (of_nat ?b :: u64) = ?b" "unat (of_nat (?b + 24) :: u64) = ?b + 24"
    using sp(5) of_nat_heap_addr [of ?b] of_nat_heap_addr [of "?b + 24"] by simp_all
  have "\<not> (of_nat ?b < (0x2000000 :: u64) \<or> 0x2000000 + 0x1000000 \<le> (of_nat ?b :: u64))"
    using ub(1) sp(3,5) by (simp add: word_less_nat_alt word_le_nat_alt)
  moreover have "(of_nat (?b + 24) :: u64) \<noteq> 0" using ub(2) by auto
  moreover have "(of_nat (?b + 24) :: u64) - 24 = of_nat ?b" by simp
  ultimately have double: "kfree ptr t = Inl (Panic ''kfree: Double free detected!'')"
    if "blk_free (phys_mem t) (of_nat ?b)" for t :: "'a kheap_scheme"
    using that assms(2) by (simp add: kfree_def Let_def del: of_nat_add)
  show ?thesis
  proof (cases f)
    case True
    then show ?thesis using double [of s] sp(2) by simp
  next
    case False
    then have st: "heap_state s (pre @ (n, False) # post)" using assms(1) by simp
    from kfree_spec [OF st refl] obtain s' where "kfree ptr s = Inr s'" "heap_state s' (merge (pre @ (n, True) # post))"
      "only_headers (set (block_addrs HEAP_BASE (pre @ (n, False) # post))) (phys_mem s) (phys_mem s')"
      "blk_free (phys_mem s') (of_nat ?b)"
      unfolding assms(2) by metis
    with double [of s'] False show ?thesis by auto
  qed
qed

text \<open>A heap with one used block of 104 bytes, for the concrete instances.\<close>

lemma kheap_one_block:
  obtains s where "kmalloc 100 kheap_boot = Inr (0x2000018, s)" "heap_state s [(104, False), (0xFFFF68, True)]"
proof -
  have "unat (100 :: u64) + 7 < 18446744073709551616" "align8 (unat (100 :: u64)) \<le> 0xFFFFE8" "[(0xFFFFE8 :: nat, True)] = [] @ (0xFFFFE8, True) # []"
    by (simp_all add: align8_def)
  from kmalloc_spec [OF kheap_boot_inv this(1,3,2)] show ?thesis
    using that by (auto simp: align8_def alloc_split_def)
qed

theorem kfree_correct_witness:
  "\<exists>s s'. kmalloc 100 kheap_boot = Inr (0x2000018, s) \<and> kfree 0x2000018 s = Inr s' \<and>
     heap_state s' [(0xFFFFE8, True)] \<and> kfree 0x2000018 s' = Inl (Panic ''kfree: Double free detected!'')"
proof -
  obtain s where s: "kmalloc 100 kheap_boot = Inr (0x2000018, s)" "heap_state s ([] @ (104, False) # [(0xFFFF68, True)])"
    using kheap_one_block by auto
  have "(0x2000018 :: u64) = of_nat (blocks_end HEAP_BASE [] + 24)" by simp
  from kfree_correct [OF s(2) this] s(1) show ?thesis by auto
qed

lemma merge_adjacent:
  "no_adjacent_free (pre @ (k + 24 + r, True) # post) \<Longrightarrow>
     merge (pre @ (k, True) # (r, True) # post) = pre @ (k + 24 + r, True) # post"
proof (induction pre)
  case Nil
  then show ?case using merge_id by simp
next
  case (Cons b pre)
  then have IH: "merge (pre @ (k, True) # (r, True) # post) = pre @ (k + 24 + r, True) # post"
    by (simp add: no_adjacent_free_Cons)
  show ?case
  proof (cases pre)
    case Nil
    with Cons.prems IH show ?thesis by (simp add: no_adjacent_free_Cons)
  next
    case (Cons c pre')
    with \<open>no_adjacent_free ((b # pre) @ _)\<close> IH show ?thesis by (auto simp: no_adjacent_free_Cons)
  qed
qed

lemma heap_stats_eq:
  assumes "heap_state s bs" "heap_state s' bs"
  shows "kmalloc_stats s = kmalloc_stats s'"
  using assms by (simp add: heap_state_def kmalloc_stats_def word_unat_eq_iff)

text \<open>
  C29: a block that is freed right after its allocation leaves the heap as it was before: the
  same list of blocks and the same statistics.
\<close>

theorem kmalloc_kfree_roundtrip:
  assumes "heap_inv s bs" and "unat sz < 2 ^ 64 - 7" and "kmalloc sz s = Inr (ptr, s1)"
  shows "\<exists>s2. kfree ptr s1 = Inr s2 \<and> heap_state s2 bs \<and> kmalloc_stats s2 = kmalloc_stats (heap_ready s)"
proof -
  have nw: "unat sz + 7 < 18446744073709551616" using assms(2) by simp
  have "\<not> (\<forall>b \<in> set bs. \<not> fits (align8 (unat sz)) b)"
    using kmalloc_out_of_memory [OF assms(1) nw] assms(3) by auto
  then obtain pre n post where bs: "bs = pre @ (n, True) # post" "align8 (unat sz) \<le> n"
      "\<forall>b \<in> set pre. \<not> fits (align8 (unat sz)) b"
    by (rule first_fit_split)
  let ?k = "align8 (unat sz)"
  from kmalloc_spec [OF assms(1) nw bs] assms(3) have
    s1: "ptr = of_nat (blocks_end HEAP_BASE pre + 24)" "heap_state s1 (pre @ alloc_split ?k n @ post)"
    by (metis Inr_inject prod.inject)+
  have st0: "heap_state (heap_ready s) bs" using assms(1) by (simp add: heap_inv_def)
  then have adj: "no_adjacent_free (pre @ (n, True) # post)" unfolding bs(1) by (simp add: heap_state_def)
  obtain k' rest where cs: "alloc_split ?k n @ post = (k', False) # rest" "merge (pre @ (k', True) # rest) = bs"
  proof (cases "?k + 40 \<le> n")
    case True
    then have "?k + 24 + (n - ?k - 24) = n" by simp
    with merge_adjacent [of pre ?k "n - ?k - 24" post] adj bs(1) True show ?thesis
      by (intro that) (auto simp: alloc_split_def)
  next
    case False
    with merge_id [OF adj] bs(1) show ?thesis by (intro that) (auto simp: alloc_split_def)
  qed
  have "heap_state s1 (pre @ (k', False) # rest)" using s1(2) cs(1) by simp
  from kfree_spec [OF this refl] obtain s2 where "kfree ptr s1 = Inr s2" "heap_state s2 bs"
    unfolding s1(1) cs(2) by metis
  with heap_stats_eq [OF _ st0] show ?thesis by blast
qed

theorem kmalloc_kfree_roundtrip_witness:
  "\<exists>s1 s2. kmalloc 100 kheap_boot = Inr (0x2000018, s1) \<and> kfree 0x2000018 s1 = Inr s2 \<and>
     heap_state s2 [(0xFFFFE8, True)] \<and> kmalloc_stats s2 = (0, HEAP_SIZE, 0)"
proof -
  obtain s where s: "kmalloc 100 kheap_boot = Inr (0x2000018, s)" by (rule kheap_one_block)
  have "unat (100 :: u64) < 2 ^ 64 - 7" by simp
  from kmalloc_kfree_roundtrip [OF kheap_boot_inv this s] s show ?thesis
    by (auto simp: kmalloc_stats_def heap_ready_def init_heap_def kheap_boot_def vmm.defs)
qed

text \<open>
  the rounding of the request wraps around: for the seven largest sizes the rounded size is
  0, so \<open>kmalloc\<close> behaves as for a request of no bytes and returns a pointer although no such
  block can exist.
\<close>

theorem kmalloc_huge_request:
  assumes "2 ^ 64 - 7 \<le> unat sz"
  shows "kmalloc sz s = kmalloc 0 s"
proof -
  define r where "r = unat sz - 18446744073709551609"
  have lim: "18446744073709551609 \<le> unat sz" "unat sz < 18446744073709551616" using assms by simp_all
  have r: "unat sz + 7 = 18446744073709551616 + r" "r < 7"
    unfolding r_def using lim by linarith+
  have "unat (sz + 7) = (unat sz + 7) mod 18446744073709551616" by (simp add: unat_word_ariths)
  also have "\<dots> = r" unfolding r(1) using r(2) by simp
  finally have "unat (sz + 7) < 8" using r(2) by simp
  then have "unat ((sz + 7) AND NOT 7) = 0" unfolding and_not_7 by simp
  then have "(sz + 7) AND NOT 7 = 0" by (rule unat_0_iff [THEN iffD1])
  moreover have "(0 + 7) AND NOT 7 = (0 :: u64)" by simp
  ultimately show ?thesis unfolding kmalloc_def by (simp only:)
qed

theorem kmalloc_huge_request_witness:
  "\<exists>s. kmalloc 0xFFFFFFFFFFFFFFFF kheap_boot = Inr (0x2000018, s) \<and> heap_state s [(0, False), (0xFFFFD0, True)]"
proof -
  have "2 ^ 64 - 7 \<le> unat (0xFFFFFFFFFFFFFFFF :: u64)" by simp
  from kmalloc_huge_request [OF this] have eq: "kmalloc 0xFFFFFFFFFFFFFFFF kheap_boot = kmalloc 0 kheap_boot" .
  have "unat (0 :: u64) + 7 < 18446744073709551616" "align8 (unat (0 :: u64)) \<le> 0xFFFFE8" "[(0xFFFFE8 :: nat, True)] = [] @ (0xFFFFE8, True) # []"
    by (simp_all add: align8_def)
  from kmalloc_spec [OF kheap_boot_inv this(1,3,2)] show ?thesis
    unfolding eq by (auto simp: align8_def alloc_split_def)
qed

end
