(* ===== verification/Byte_Queue.thy ===== *)
theory Byte_Queue
  imports Prelude
begin

text \<open>
  The contract of a bounded first-in first-out buffer, met by the pipe and by the keyboard's
  ring buffer: an abstraction to the list of stored items, a capacity, and what adding and
  removing an item do to the list.  Transfers through such a buffer keep the order and lose
  nothing, for every interleaving of the two ends.
\<close>

locale byte_queue =
  fixes inv :: "'q \<Rightarrow> bool" and items :: "'q \<Rightarrow> 'b list" and capacity :: nat
    and put :: "'b \<Rightarrow> 'q \<Rightarrow> 'q" and get :: "'q \<Rightarrow> 'b \<times> 'q"
  assumes put_inv: "inv q \<Longrightarrow> length (items q) < capacity \<Longrightarrow> inv (put b q)"
    and put_items: "inv q \<Longrightarrow> length (items q) < capacity \<Longrightarrow> items (put b q) = items q @ [b]"
    and get_inv: "inv q \<Longrightarrow> items q \<noteq> [] \<Longrightarrow> inv (snd (get q))"
    and get_items: "inv q \<Longrightarrow> items q \<noteq> [] \<Longrightarrow> items q = fst (get q) # items (snd (get q))"
    and bounded: "inv q \<Longrightarrow> length (items q) \<le> capacity"
begin

lemma put_all:
  "inv q \<Longrightarrow> length (items q) + length bs \<le> capacity \<Longrightarrow>
     inv (fold put bs q) \<and> items (fold put bs q) = items q @ bs"
  by (induction bs arbitrary: q) (simp_all add: put_inv put_items)

primrec get_n :: "nat \<Rightarrow> 'q \<Rightarrow> 'b list \<times> 'q" where
  "get_n 0 q = ([], q)"
| "get_n (Suc n) q = (case get q of (b, q') \<Rightarrow> case get_n n q' of (bs, q'') \<Rightarrow> (b # bs, q''))"

lemma get_n_items:
  "inv q \<Longrightarrow> n \<le> length (items q) \<Longrightarrow>
     inv (snd (get_n n q)) \<and> fst (get_n n q) = take n (items q) \<and> items (snd (get_n n q)) = drop n (items q)"
proof (induction n arbitrary: q)
  case (Suc n)
  then have ne: "items q \<noteq> []" by auto
  obtain b q' where g: "get q = (b, q')" by (cases "get q")
  have q': "inv q'" "items q = b # items q'" using get_inv get_items Suc.prems(1) ne g by fastforce+
  with Suc.IH [of q'] Suc.prems(2) g show ?case by (auto split: prod.split)
qed simp

text \<open>One end adds, the other removes; the trace records what went in and what came out.\<close>

inductive transfer :: "'q \<Rightarrow> 'b list \<Rightarrow> 'b list \<Rightarrow> 'q \<Rightarrow> bool" where
  transfer_refl: "transfer q [] [] q"
| transfer_put: "transfer q ins outs q' \<Longrightarrow> length (items q') < capacity \<Longrightarrow> transfer q (ins @ [b]) outs (put b q')"
| transfer_get: "transfer q ins outs q' \<Longrightarrow> items q' \<noteq> [] \<Longrightarrow> get q' = (b, q'') \<Longrightarrow> transfer q ins (outs @ [b]) q''"

lemma transfer_fifo:
  assumes "transfer q ins outs q'" "inv q"
  shows "inv q' \<and> items q @ ins = outs @ items q'"
  using assms
proof (induction rule: transfer.induct)
  case (transfer_put q ins outs q' b)
  then have "items (put b q') = items q' @ [b]" "inv (put b q')" using put_items put_inv by blast+
  moreover have "items q @ ins = outs @ items q'" using transfer_put by blast
  ultimately show ?case by (simp flip: append_assoc)
next
  case (transfer_get q ins outs q' b q'')
  then have "inv q'" and eq: "items q @ ins = outs @ items q'" by blast+
  then have "items q' = b # items q''" "inv q''" using get_items get_inv transfer_get(2,3) by fastforce+
  with eq show ?case by simp
qed simp

end

end
