(* ===== verification/Pipe.thy ===== *)
theory Pipe
  imports Kmalloc Byte_Queue
begin

text \<open>
  Pipes (\<open>src/src/ipc/pipe.c\<close>, \<open>src/include/ipc/pipe.h\<close>): a 4096-byte ring buffer with read and
  write positions and a byte count.  The read and write loops wait by spinning; a wait that
  nothing can end is the value \<open>None\<close> of the loop functions.  The buffer refines a
  first-in first-out list of at most 4096 bytes, also when the two loops run interleaved.
\<close>

section \<open>The pipe object\<close>

abbreviation (input) PIPE_SIZE :: nat where "PIPE_SIZE \<equiv> 4096"

record pipe_t =
  pbuffer :: "u8 list"
  read_pos :: u32
  write_pos :: u32
  pcount :: u32
  reader_closed :: bool
  writer_closed :: bool

text \<open>The heap objects of this type, by address.\<close>

record kpipes = kheap +
  pipes :: "u64 \<Rightarrow> pipe_t option"

text \<open>A \<open>size_t\<close> returned as \<open>int\<close>.\<close>

definition c_int :: "nat \<Rightarrow> int" where
  "c_int n = sint (of_nat n :: 32 word)"

section \<open>Operations\<close>

text \<open>\<open>sizeof(pipe_t)\<close> is 4116; the buffer holds whatever the heap memory held.\<close>

definition pipe_create :: "'a kpipes_scheme \<Rightarrow> (u64 \<times> 'a kpipes_scheme) res" where
  "pipe_create s =
     bind_res (kmalloc 4116 s) (\<lambda>(p, s1).
       if p = 0 then Inr (0, s1)
       else Inr (p, s1\<lparr>pipes := (pipes s1)(p \<mapsto>
         \<lparr>pbuffer = map (\<lambda>i. phys_mem s1 (p + of_nat i)) [0..<PIPE_SIZE], read_pos = 0, write_pos = 0,
          pcount = 0, reader_closed = False, writer_closed = False\<rparr>)\<rparr>))"

definition pipe_destroy :: "pipe_t \<Rightarrow> pipe_t" where
  "pipe_destroy p = p\<lparr>reader_closed := True, writer_closed := True\<rparr>"

text \<open>One byte out of and into the buffer: the bodies of the two loops.\<close>

definition pipe_get :: "pipe_t \<Rightarrow> u8 \<times> pipe_t" where
  "pipe_get p =
     (pbuffer p ! unat (read_pos p),
      p\<lparr>read_pos := (read_pos p + 1) mod 4096, pcount := pcount p - 1\<rparr>)"

definition pipe_put :: "u8 \<Rightarrow> pipe_t \<Rightarrow> pipe_t" where
  "pipe_put b p =
     p\<lparr>pbuffer := (pbuffer p)[unat (write_pos p) := b],
       write_pos := (write_pos p + 1) mod 4096, pcount := pcount p + 1\<rparr>"

partial_function (option) pipe_read_loop :: "nat \<Rightarrow> u8 list \<Rightarrow> pipe_t \<Rightarrow> (u8 list \<times> pipe_t) option" where
  "pipe_read_loop n buf p =
     (if length buf < n then
        if pcount p = 0 then
          if writer_closed p then Some (buf, p) else pipe_read_loop n buf p
        else pipe_read_loop n (buf @ [fst (pipe_get p)]) (snd (pipe_get p))
      else Some (buf, p))"

text \<open>The result: return value, bytes stored in the caller's buffer, and the pipe.\<close>

definition pipe_read :: "nat \<Rightarrow> pipe_t \<Rightarrow> (int \<times> u8 list \<times> pipe_t) option" where
  "pipe_read n p =
     (if reader_closed p then Some (-1, [], p)
      else map_option (\<lambda>(buf, p'). (c_int (length buf), buf, p')) (pipe_read_loop n [] p))"

partial_function (option) pipe_write_loop :: "u8 list \<Rightarrow> pipe_t \<Rightarrow> pipe_t option" where
  "pipe_write_loop buf p =
     (if buf = [] then Some p
      else if pcount p = 4096 then pipe_write_loop buf p
      else pipe_write_loop (tl buf) (pipe_put (hd buf) p))"

definition pipe_write :: "u8 list \<Rightarrow> pipe_t \<Rightarrow> (int \<times> pipe_t) option" where
  "pipe_write buf p =
     (if writer_closed p then Some (-1, p)
      else if reader_closed p then Some (-1, p)
      else map_option (\<lambda>p'. (c_int (length buf), p')) (pipe_write_loop buf p))"

section \<open>The buffer is a queue\<close>

definition pipe_inv :: "pipe_t \<Rightarrow> bool" where
  "pipe_inv p \<longleftrightarrow> length (pbuffer p) = PIPE_SIZE \<and> unat (read_pos p) < PIPE_SIZE \<and>
     unat (pcount p) \<le> PIPE_SIZE \<and> unat (write_pos p) = (unat (read_pos p) + unat (pcount p)) mod PIPE_SIZE"

definition pipe_items :: "pipe_t \<Rightarrow> u8 list" where
  "pipe_items p = map (\<lambda>i. pbuffer p ! ((unat (read_pos p) + i) mod PIPE_SIZE)) [0..<unat (pcount p)]"

lemma length_pipe_items [simp]: "length (pipe_items p) = unat (pcount p)"
  by (simp add: pipe_items_def)

lemma unat_inc_mod: "unat w < 4096 \<Longrightarrow> unat ((w + 1) mod 4096 :: u32) = (unat w + 1) mod 4096"
  by (subst unat_mod) (simp add: unat_add_no_wrap)

lemma pipe_put_inv:
  assumes "pipe_inv p" "unat (pcount p) < PIPE_SIZE"
  shows "pipe_inv (pipe_put b p)"
proof -
  have w: "unat (write_pos p) < 4096" using assms(1) by (simp add: pipe_inv_def)
  have c: "unat (pcount p + 1) = unat (pcount p) + 1" using assms(2) by (subst unat_add_no_wrap) simp_all
  show ?thesis
    using assms c unat_inc_mod [OF w] by (simp add: pipe_inv_def pipe_put_def mod_Suc_eq)
qed

lemma pipe_put_items:
  assumes "pipe_inv p" "unat (pcount p) < PIPE_SIZE"
  shows "pipe_items (pipe_put b p) = pipe_items p @ [b]"
proof -
  let ?r = "unat (read_pos p)" and ?c = "unat (pcount p)"
  have c: "unat (pcount p + 1) = ?c + 1" using assms(2) by (subst unat_add_no_wrap) simp_all
  have w: "unat (write_pos p) = (?r + ?c) mod 4096" "length (pbuffer p) = 4096" using assms(1) by (simp_all add: pipe_inv_def)
  have other: "(?r + ?c) mod 4096 \<noteq> (?r + i) mod 4096" if "i < ?c" for i
  proof
    assume "(?r + ?c) mod 4096 = (?r + i) mod 4096"
    then have "4096 dvd ?c - i" using mod_eq_dvd_iff_nat [of "?r + i" "?r + ?c" 4096] that by auto
    then show False using that assms(2) by (auto dest: dvd_imp_le)
  qed
  show ?thesis
    using other w c by (auto simp: pipe_items_def pipe_put_def)
qed

lemma pipe_get_inv:
  assumes "pipe_inv p" "pcount p \<noteq> 0"
  shows "pipe_inv (snd (pipe_get p))" "pipe_items p = fst (pipe_get p) # pipe_items (snd (pipe_get p))"
proof -
  let ?r = "unat (read_pos p)" and ?c = "unat (pcount p)"
  have r: "?r < 4096" "?c \<noteq> 0" "?c \<le> 4096" using assms by (auto simp: pipe_inv_def unat_eq_0)
  have c: "unat (pcount p - 1) = ?c - 1" using r(2) by (subst unat_minus_one) (auto simp: unat_eq_0)
  have r': "unat ((read_pos p + 1) mod 4096) = (?r + 1) mod 4096" using r(1) by (rule unat_inc_mod)
  have "((?r + 1) mod 4096 + (?c - 1)) mod 4096 = (?r + 1 + (?c - 1)) mod 4096" by (rule mod_add_left_eq)
  also have "?r + 1 + (?c - 1) = ?r + ?c" using r(2) by simp
  finally have "((?r + 1) mod 4096 + (?c - 1)) mod 4096 = (?r + ?c) mod 4096" .
  then show "pipe_inv (snd (pipe_get p))" using assms(1) r c r' by (simp add: pipe_inv_def pipe_get_def)
  have "[0..<?c] = 0 # map Suc [0..<?c - 1]" using r(2) by (simp add: map_Suc_upt upt_conv_Cons)
  then show "pipe_items p = fst (pipe_get p) # pipe_items (snd (pipe_get p))"
    using r(1) by (simp add: pipe_items_def pipe_get_def c r' mod_Suc_eq mod_add_left_eq comp_def)
qed

interpretation pq: byte_queue pipe_inv pipe_items PIPE_SIZE pipe_put pipe_get
proof
  fix p b assume inv: "pipe_inv p"
  show "length (pipe_items p) \<le> PIPE_SIZE" using inv by (simp add: pipe_inv_def)
  show "pipe_inv (pipe_put b p)" "pipe_items (pipe_put b p) = pipe_items p @ [b]"
    if "length (pipe_items p) < PIPE_SIZE"
    using pipe_put_inv [OF inv] pipe_put_items [OF inv] that by simp_all
  show "pipe_inv (snd (pipe_get p))" "pipe_items p = fst (pipe_get p) # pipe_items (snd (pipe_get p))"
    if "pipe_items p \<noteq> []"
  proof -
    have "pcount p \<noteq> 0" using that by (auto simp: pipe_items_def)
    then show "pipe_inv (snd (pipe_get p))" "pipe_items p = fst (pipe_get p) # pipe_items (snd (pipe_get p))"
      using pipe_get_inv [OF inv] by blast+
  qed
qed

section \<open>The loops\<close>

text \<open>The ends are closed by other code only: the transfers keep the flags.\<close>

lemma pipe_flags [simp]:
  "writer_closed (snd (pipe_get p)) = writer_closed p" "reader_closed (snd (pipe_get p)) = reader_closed p"
  "writer_closed (pipe_put b p) = writer_closed p" "reader_closed (pipe_put b p) = reader_closed p"
  by (simp_all add: pipe_get_def pipe_put_def)

lemma pipe_count_0: "pcount p = 0 \<longleftrightarrow> pipe_items p = []"
  by (simp add: pipe_items_def unat_eq_0)

lemma pipe_read_loop_done:
  assumes "pipe_inv p" "length buf \<le> n" "writer_closed p \<or> n \<le> length buf + length (pipe_items p)"
  shows "\<exists>p'. pipe_read_loop n buf p = Some (buf @ take (n - length buf) (pipe_items p), p') \<and> pipe_inv p' \<and>
    pipe_items p' = drop (n - length buf) (pipe_items p) \<and>
    writer_closed p' = writer_closed p \<and> reader_closed p' = reader_closed p"
  using assms
proof (induction "n - length buf" arbitrary: buf p)
  case 0
  then show ?case by (simp add: pipe_read_loop.simps)
next
  case (Suc k)
  show ?case
  proof (cases "pipe_items p = []")
    case True
    then have "writer_closed p" using Suc by auto
    with True Suc show ?thesis by (subst pipe_read_loop.simps) (auto simp: pipe_count_0)
  next
    case False
    obtain b p1 where g: "pipe_get p = (b, p1)" by (cases "pipe_get p")
    have p1: "pipe_inv p1" "pipe_items p = b # pipe_items p1" "writer_closed p1 = writer_closed p" "reader_closed p1 = reader_closed p"
      using pq.get_inv pq.get_items Suc.prems(1) False g pipe_flags(1,2) [of p] by fastforce+
    have k: "k = n - length (buf @ [b])" "n - length buf = Suc k" using Suc.hyps(2) by simp_all
    have step: "pipe_read_loop n buf p = pipe_read_loop n (buf @ [b]) p1"
      using False k(2) g by (subst pipe_read_loop.simps) (auto simp: pipe_count_0)
    have "length (buf @ [b]) \<le> n" using k(2) by simp
    moreover have "writer_closed p1 \<or> n \<le> length (buf @ [b]) + length (pipe_items p1)"
      using Suc.prems(3) p1(2,3) by (simp del: length_pipe_items)
    ultimately have "\<exists>p'. pipe_read_loop n (buf @ [b]) p1 =
        Some ((buf @ [b]) @ take (n - length (buf @ [b])) (pipe_items p1), p') \<and> pipe_inv p' \<and>
      pipe_items p' = drop (n - length (buf @ [b])) (pipe_items p1) \<and>
      writer_closed p' = writer_closed p1 \<and> reader_closed p' = reader_closed p1"
      by (rule Suc.hyps(1) [OF k(1) p1(1)])
    then show ?thesis unfolding step k(2) k(1) [symmetric] p1 by simp
  qed
qed

lemma pipe_read_loop_spins:
  assumes "pipe_read_loop n buf p = Some r" "pipe_inv p" "length buf \<le> n"
  shows "writer_closed p \<or> n \<le> length buf + length (pipe_items p)"
proof -
  let ?P = "\<lambda>n buf p. pipe_inv p \<longrightarrow> length buf \<le> n \<longrightarrow> writer_closed p \<or> n \<le> length buf + length (pipe_items p)"
  have "?P n buf p"
  proof (rule pipe_read_loop.raw_induct [where P = "\<lambda>n buf p r. ?P n buf p", OF _ assms(1)])
    fix loop :: "nat \<Rightarrow> u8 list \<Rightarrow> pipe_t \<Rightarrow> (u8 list \<times> pipe_t) option" and n buf p r
    assume IH: "\<And>n buf p r. loop n buf p = Some r \<Longrightarrow> ?P n buf p"
      and body: "(if length buf < n then
          if pcount p = 0 then if writer_closed p then Some (buf, p) else loop n buf p
          else loop n (buf @ [fst (pipe_get p)]) (snd (pipe_get p)) else Some (buf, p)) = Some r"
    show "?P n buf p"
    proof (intro impI)
      assume inv: "pipe_inv p" and len: "length buf \<le> n"
      consider "writer_closed p" | "length buf = n" | "pcount p = 0" "\<not> writer_closed p" "length buf < n"
        | "pcount p \<noteq> 0" "length buf < n" using len by linarith
      then show "writer_closed p \<or> n \<le> length buf + length (pipe_items p)"
      proof cases
        case 3
        then have "loop n buf p = Some r" using body by simp
        from IH [OF this] inv len show ?thesis by blast
      next
        case 4
        then have ne: "pipe_items p \<noteq> []" by (simp add: pipe_count_0)
        have "loop n (buf @ [fst (pipe_get p)]) (snd (pipe_get p)) = Some r" using body 4 by simp
        from IH [OF this] have "writer_closed p \<or> n \<le> length buf + 1 + length (pipe_items (snd (pipe_get p)))"
          using pq.get_inv [OF inv ne] 4(2) by (simp del: length_pipe_items)
        moreover have "length (pipe_items p) = 1 + length (pipe_items (snd (pipe_get p)))"
          using arg_cong [OF pq.get_items [OF inv ne], of length] by (simp del: length_pipe_items)
        ultimately show ?thesis by linarith
      qed auto
    qed
  qed
  with assms(2,3) show ?thesis by blast
qed

lemma pipe_write_loop_done:
  assumes "pipe_inv p" "length (pipe_items p) + length buf \<le> PIPE_SIZE"
  shows "pipe_write_loop buf p = Some (fold pipe_put buf p)"
  using assms
proof (induction buf arbitrary: p)
  case Nil
  then show ?case by (simp add: pipe_write_loop.simps)
next
  case (Cons b buf)
  have room: "length (pipe_items p) < 4096" using Cons.prems(2) by simp
  then have "pcount p \<noteq> 4096" by auto
  then have "pipe_write_loop (b # buf) p = pipe_write_loop buf (pipe_put b p)"
    by (subst pipe_write_loop.simps) simp
  moreover have "pipe_inv (pipe_put b p)" "pipe_items (pipe_put b p) = pipe_items p @ [b]"
    using pq.put_inv [OF Cons.prems(1)] pq.put_items [OF Cons.prems(1)] room by blast+
  ultimately show ?case using Cons.IH [of "pipe_put b p"] Cons.prems(2) by (simp del: length_pipe_items)
qed

lemma pipe_write_loop_spins:
  assumes "pipe_write_loop buf p = Some r" "pipe_inv p"
  shows "length (pipe_items p) + length buf \<le> PIPE_SIZE"
proof -
  let ?P = "\<lambda>buf p. pipe_inv p \<longrightarrow> length (pipe_items p) + length (buf :: u8 list) \<le> PIPE_SIZE"
  have "?P buf p"
  proof (rule pipe_write_loop.raw_induct [where P = "\<lambda>buf p r. ?P buf p", OF _ assms(1)])
    fix loop :: "u8 list \<Rightarrow> pipe_t \<Rightarrow> pipe_t option" and buf p r
    assume IH: "\<And>buf p r. loop buf p = Some r \<Longrightarrow> ?P buf p"
      and body: "(if buf = [] then Some p else if pcount p = 4096 then loop buf p
          else loop (tl buf) (pipe_put (hd buf) p)) = Some r"
    show "?P buf p"
    proof
      assume inv: "pipe_inv p"
      consider "buf = []" | "buf \<noteq> []" "pcount p = 4096" | b bs where "buf = b # bs" "pcount p \<noteq> 4096"
        by (cases buf) auto
      then show "length (pipe_items p) + length buf \<le> PIPE_SIZE"
      proof cases
        case 1
        then show ?thesis using pq.bounded [OF inv] by simp
      next
        case 2
        then have "loop buf p = Some r" using body by simp
        from IH [OF this] inv show ?thesis by blast
      next
        case 3
        have "unat (pcount p) \<noteq> 4096" using 3(2) by (simp add: word_unat_eq_iff)
        then have room: "length (pipe_items p) < PIPE_SIZE" using pq.bounded [OF inv] by simp
        have "loop bs (pipe_put b p) = Some r" using body 3 by simp
        from IH [OF this] show ?thesis
          using pq.put_inv [OF inv room, of b] pq.put_items [OF inv room, of b] 3(1)
          by (simp del: length_pipe_items)
      qed
    qed
  qed
  with assms(2) show ?thesis by blast
qed

lemma fold_pipe_put_flags [simp]:
  "writer_closed (fold pipe_put buf p) = writer_closed p" "reader_closed (fold pipe_put buf p) = reader_closed p"
  by (induction buf arbitrary: p) simp_all

section \<open>Correctness\<close>

text \<open>
  Reading.  A closed reading end gives -1.  Otherwise, when the pipe holds the requested
  number of bytes or its writing end is closed, the call returns the oldest bytes in order, as
  many as requested and available, and removes exactly them.  When the pipe holds fewer bytes and
  the writing end is open, the call run on its own never returns: it spins.
\<close>

theorem pipe_read_correct:
  assumes "pipe_inv p"
  shows "if reader_closed p then pipe_read n p = Some (-1, [], p)
    else if writer_closed p \<or> n \<le> length (pipe_items p) then
      \<exists>p'. pipe_read n p = Some (c_int (length (take n (pipe_items p))), take n (pipe_items p), p') \<and>
        pipe_inv p' \<and> pipe_items p' = drop n (pipe_items p) \<and> writer_closed p' = writer_closed p
    else pipe_read n p = None"
proof (cases "reader_closed p")
  case False
  show ?thesis
  proof (cases "writer_closed p \<or> n \<le> length (pipe_items p)")
    case True
    with pipe_read_loop_done [OF assms, of "[]" n] False show ?thesis by (auto simp: pipe_read_def)
  next
    case no: False
    have "pipe_read_loop n [] p = None"
    proof (cases "pipe_read_loop n [] p")
      case (Some r)
      with pipe_read_loop_spins [OF Some assms] no show ?thesis by simp
    qed
    with no False show ?thesis by (simp add: pipe_read_def)
  qed
qed (simp add: pipe_read_def)

definition empty_pipe :: pipe_t where
  "empty_pipe = \<lparr>pbuffer = replicate 4096 0, read_pos = 0, write_pos = 0, pcount = 0,
     reader_closed = False, writer_closed = False\<rparr>"

lemma empty_pipe_inv: "pipe_inv empty_pipe" "pipe_items empty_pipe = []"
  by (simp_all add: empty_pipe_def pipe_inv_def pipe_items_def)

theorem pipe_read_correct_witness: "pipe_read 1 empty_pipe = None"
  using pipe_read_correct [OF empty_pipe_inv(1), of 1] empty_pipe_inv(2)
  by (simp add: empty_pipe_def)

text \<open>
  Writing.  A closed end gives -1 and changes nothing.  Otherwise, when the bytes fit into
  the free room, the call returns their number and appends them in order; when they do not fit,
  the call run on its own never returns: it spins.
\<close>

theorem pipe_write_correct:
  assumes "pipe_inv p"
  shows "if writer_closed p \<or> reader_closed p then pipe_write buf p = Some (-1, p)
    else if length (pipe_items p) + length buf \<le> PIPE_SIZE then
      \<exists>p'. pipe_write buf p = Some (c_int (length buf), p') \<and> pipe_inv p' \<and>
        pipe_items p' = pipe_items p @ buf \<and> reader_closed p' = reader_closed p
    else pipe_write buf p = None"
proof (cases "writer_closed p \<or> reader_closed p")
  case False
  show ?thesis
  proof (cases "length (pipe_items p) + length buf \<le> PIPE_SIZE")
    case True
    with pipe_write_loop_done [OF assms True] pq.put_all [OF assms True] False show ?thesis
      by (simp add: pipe_write_def)
  next
    case no: False
    have "pipe_write_loop buf p = None"
    proof (cases "pipe_write_loop buf p")
      case (Some r)
      with pipe_write_loop_spins [OF Some assms] no show ?thesis by simp
    qed
    with no False show ?thesis by (simp add: pipe_write_def)
  qed
qed (auto simp: pipe_write_def)

theorem pipe_write_correct_witness:
  "(\<exists>p. pipe_write [1, 2, 3] empty_pipe = Some (3, p) \<and> pipe_items p = [1, 2, 3]) \<and>
   pipe_write (replicate 4097 0) empty_pipe = None"
proof
  have open_ends: "\<not> (writer_closed empty_pipe \<or> reader_closed empty_pipe)" by (simp add: empty_pipe_def)
  have len: "c_int (length [1, 2, 3 :: u8]) = 3" by (simp add: c_int_def)
  have "length (pipe_items empty_pipe) + length [1, 2, 3 :: u8] \<le> PIPE_SIZE" using empty_pipe_inv(2) by simp
  with pipe_write_correct [OF empty_pipe_inv(1), of "[1, 2, 3]"] open_ends
  show "\<exists>p. pipe_write [1, 2, 3] empty_pipe = Some (3, p) \<and> pipe_items p = [1, 2, 3]"
    unfolding len empty_pipe_inv(2) by auto
  have "\<not> length (pipe_items empty_pipe) + length (replicate 4097 (0 :: u8)) \<le> PIPE_SIZE" by simp
  with pipe_write_correct [OF empty_pipe_inv(1), of "replicate 4097 0"] open_ends
  show "pipe_write (replicate 4097 0) empty_pipe = None" by presburger
qed

text \<open>
  Reader and writer interleaved: each transition is one iteration of one of the two loops; an
  iteration that only waits changes nothing.  The configuration holds the pipe, the bytes the
  writer still has to write, those written so far and those read so far.
\<close>

inductive pipe_step ::
  "pipe_t \<times> u8 list \<times> u8 list \<times> u8 list \<Rightarrow> pipe_t \<times> u8 list \<times> u8 list \<times> u8 list \<Rightarrow> bool" where
  write_byte: "pcount p \<noteq> 4096 \<Longrightarrow> pipe_step (p, b # todo, sent, got) (pipe_put b p, todo, sent @ [b], got)"
| write_wait: "pcount p = 4096 \<Longrightarrow> pipe_step (p, b # todo, sent, got) (p, b # todo, sent, got)"
| read_byte: "pcount p \<noteq> 0 \<Longrightarrow> pipe_get p = (b, p') \<Longrightarrow> pipe_step (p, todo, sent, got) (p', todo, sent, got @ [b])"
| read_wait: "pcount p = 0 \<Longrightarrow> pipe_step (p, todo, sent, got) (p, todo, sent, got)"

inductive_cases pipe_stepE: "pipe_step c c'"

lemma pipe_step_transfer:
  assumes "pipe_step (p, todo, sent, got) (p', todo', sent', got')" "pipe_inv p" "pq.transfer p0 sent got p"
  shows "pipe_inv p' \<and> pq.transfer p0 sent' got' p' \<and> sent @ todo = sent' @ todo'"
  using assms(1)
proof (cases rule: pipe_step.cases)
  case (write_byte b)
  have "unat (pcount p) \<noteq> 4096" using write_byte by (simp add: word_unat_eq_iff)
  then have room: "length (pipe_items p) < PIPE_SIZE" using pq.bounded [OF assms(2)] by simp
  with assms(2,3) write_byte show ?thesis
    using pq.put_inv pq.transfer_put by auto
next
  case (read_byte b)
  then have ne: "pipe_items p \<noteq> []" by (simp add: pipe_count_0)
  with pq.get_inv [OF assms(2) ne] read_byte assms(3) pq.transfer_get show ?thesis by fastforce
qed (use assms in auto)

text \<open>
  C16: in every interleaving of a writer and a reader on a pipe, the bytes read so far followed
  by the bytes still in the pipe are the initial contents followed by the bytes written so far;
  the pipe never holds more than 4096 bytes, and the bytes written are a prefix of the writer's
  data.
\<close>

theorem pipe_interleaving_fifo:
  assumes "pipe_step\<^sup>*\<^sup>* (p, todo, [], []) (p', todo', sent, got)" and "pipe_inv p"
  shows "pipe_inv p' \<and> got @ pipe_items p' = pipe_items p @ sent \<and> sent @ todo' = todo \<and>
    length (pipe_items p') \<le> PIPE_SIZE"
proof -
  have "pipe_inv p' \<and> pq.transfer p sent got p' \<and> todo = sent @ todo'"
    using assms(1)
  proof (induction "(p', todo', sent, got)" arbitrary: p' todo' sent got rule: rtranclp_induct)
    case base
    then show ?case using assms(2) pq.transfer_refl by simp
  next
    case (step y)
    obtain p1 todo1 sent1 got1 where y: "y = (p1, todo1, sent1, got1)" by (cases y)
    with step pipe_step_transfer [of p1 todo1 sent1 got1 p' todo' sent got p] show ?case by simp
  qed
  with pq.transfer_fifo [OF _ assms(2)] pq.bounded show ?thesis by metis
qed

theorem pipe_interleaving_fifo_witness:
  "\<exists>p'. pipe_step\<^sup>*\<^sup>* (empty_pipe, [7, 8], [], []) (p', [8], [7], [7]) \<and> pipe_items p' = []"
proof -
  let ?p1 = "pipe_put 7 empty_pipe"
  have "pcount empty_pipe \<noteq> 4096" by (simp add: empty_pipe_def)
  then have s1: "pipe_step (empty_pipe, [7, 8], [], []) (?p1, [8], [] @ [7], [])" by (rule write_byte)
  obtain b p2 where g: "pipe_get ?p1 = (b, p2)" by (cases "pipe_get ?p1")
  have b: "b = 7" using g by (simp add: pipe_get_def pipe_put_def empty_pipe_def)
  have "pcount ?p1 \<noteq> 0" by (simp add: pipe_put_def empty_pipe_def)
  then have s2: "pipe_step (?p1, [8], [7], []) (p2, [8], [7], [] @ [b])" using g by (rule read_byte)
  have "pipe_step\<^sup>*\<^sup>* (empty_pipe, [7, 8], [], []) (p2, [8], [7], [7])" using s1 s2 b by simp
  with pipe_interleaving_fifo [OF this empty_pipe_inv(1)] empty_pipe_inv(2) show ?thesis by auto
qed

end
