(* ===== verification/Queue_Contract.thy ===== *)
theory Queue_Contract
  imports Main
begin

text \<open>
  The contract of a queue of objects as the scheduler uses it: an abstraction relation to the
  list of queued objects, and what adding at the end, taking the first and removing an arbitrary
  member do to that list.  Taking the first object and adding it again rotates the list, so
  every object comes to the front once in as many rounds as there are objects.
\<close>

locale object_queue =
  fixes holds :: "'s \<Rightarrow> 'p list \<Rightarrow> bool" and null :: 'p
    and push :: "'p \<Rightarrow> 's \<Rightarrow> 's" and pop :: "'s \<Rightarrow> 'p \<times> 's" and remove :: "'p \<Rightarrow> 's \<Rightarrow> 's"
  assumes distinct_members: "holds s ps \<Longrightarrow> distinct ps \<and> null \<notin> set ps"
    and push_holds: "holds s ps \<Longrightarrow> p \<noteq> null \<Longrightarrow> p \<notin> set ps \<Longrightarrow> holds (push p s) (ps @ [p])"
    and pop_none: "holds s [] \<Longrightarrow> pop s = (null, s)"
    and pop_first: "holds s (p # ps) \<Longrightarrow> fst (pop s) = p \<and> holds (snd (pop s)) ps"
    and remove_holds: "holds s (ps @ p # qs) \<Longrightarrow> holds (remove p s) (ps @ qs)"
begin

definition turn :: "'s \<Rightarrow> 's" where
  "turn s = (case pop s of (p, s') \<Rightarrow> if p = null then s' else push p s')"

lemma turn_holds: "holds s ps \<Longrightarrow> holds (turn s) (rotate1 ps)"
proof (cases ps)
  case Nil
  then show "holds s ps \<Longrightarrow> ?thesis" by (simp add: turn_def pop_none)
next
  case (Cons p qs)
  assume holds: "holds s ps"
  with Cons have pop: "fst (pop s) = p" "holds (snd (pop s)) qs" using pop_first by blast+
  moreover have "p \<noteq> null" "p \<notin> set qs" using distinct_members [OF holds] Cons by auto
  ultimately show ?thesis using push_holds Cons by (simp add: turn_def split_beta)
qed

lemma turns_hold: "holds s ps \<Longrightarrow> holds ((turn ^^ n) s) (rotate n ps)"
  by (induction n) (simp_all add: turn_holds)

lemma pop_after_turns:
  assumes "holds s ps" "ps \<noteq> []"
  shows "fst (pop ((turn ^^ n) s)) = ps ! (n mod length ps)"
proof -
  have "holds ((turn ^^ n) s) (hd (rotate n ps) # tl (rotate n ps))"
    using turns_hold [OF assms(1), of n] assms(2) by simp
  then have "fst (pop ((turn ^^ n) s)) = hd (rotate n ps)" using pop_first by blast
  then show ?thesis using assms(2) by (simp add: hd_rotate_conv_nth)
qed

end

end
