(* ===== verification/Ready_Queue.thy ===== *)
theory Ready_Queue
  imports Pipe Queue_Contract
begin

text \<open>
  The state of process management (the static variables of \<open>src/src/kernel/process.c\<close>,
  \<open>src/src/kernel/scheduler.c\<close> and \<open>src/src/arch/x86_64/tss.c\<close>) and the ready queue, a list of
  process control blocks linked in both directions.  Control blocks and file descriptor tables
  are kept in typed stores indexed by their address: reading \<open>p->field\<close> is
  \<open>field (procs s p)\<close>.
\<close>

section \<open>State\<close>

record fd_entry_t =
  node :: u64
  fpipe :: u64
  offset :: u32
  flags :: int
  is_pipe :: bool

record tss_t =
  reserved0 :: u32
  rsp0 :: u64
  rsp1 :: u64
  rsp2 :: u64
  reserved1 :: u64
  ist :: "u64 list"
  reserved2 :: u64
  reserved3 :: u16
  iomap_base :: u16

text \<open>
  \<open>idle_process\<close>, \<open>idle_stack\<close>, \<open>default_kernel_stack\<close> and the code addresses are fixed by the
  linker; no operation changes them.  \<open>cpu\<close> holds the registers a context switch saves and
  loads, with \<open>rsp\<close> pointing to the return address as at the entry of \<open>context_switch\<close>.
\<close>

record kproc = kpipes +
  procs :: "u64 \<Rightarrow> process"
  fd_tables :: "u64 \<Rightarrow> fd_entry_t list"
  process_table :: "u64 list"
  next_pid :: u32
  ready_queue_head :: u64
  ready_queue_tail :: u64
  current_process :: u64
  scheduler_enabled :: bool
  schedule_count :: u64
  tss :: tss_t
  cpu :: context_t
  idle_process :: u64
  idle_stack :: u64
  default_kernel_stack :: u64
  idle_task :: u64
  process_entry_trampoline :: u64

abbreviation (input) MAX_PROCESSES :: nat where "MAX_PROCESSES \<equiv> 64"
abbreviation (input) KERNEL_STACK_SIZE :: u64 where "KERNEL_STACK_SIZE \<equiv> 8192"
abbreviation (input) DEFAULT_QUANTUM :: u64 where "DEFAULT_QUANTUM \<equiv> 10"

text \<open>An assignment to fields of \<open>*p\<close>.\<close>

definition upd_proc :: "u64 \<Rightarrow> (process \<Rightarrow> process) \<Rightarrow> 'a kproc_scheme \<Rightarrow> 'a kproc_scheme" where
  "upd_proc p f s = s\<lparr>procs := (procs s)(p := f (procs s p))\<rparr>"

section \<open>Operations\<close>

definition ready_queue_push :: "u64 \<Rightarrow> 'a kproc_scheme \<Rightarrow> 'a kproc_scheme" where
  "ready_queue_push proc s =
     (let s1 = upd_proc proc (\<lambda>p. p\<lparr>pnext := 0\<rparr>) s;
          s2 = upd_proc proc (\<lambda>p. p\<lparr>pprev := ready_queue_tail s1\<rparr>) s1;
          s3 = (if ready_queue_tail s2 \<noteq> 0
                then upd_proc (ready_queue_tail s2) (\<lambda>p. p\<lparr>pnext := proc\<rparr>) s2
                else s2\<lparr>ready_queue_head := proc\<rparr>)
      in s3\<lparr>ready_queue_tail := proc\<rparr>)"

definition ready_queue_remove :: "u64 \<Rightarrow> 'a kproc_scheme \<Rightarrow> 'a kproc_scheme" where
  "ready_queue_remove proc s =
     (let s1 = (if pprev (procs s proc) \<noteq> 0
                then upd_proc (pprev (procs s proc)) (\<lambda>p. p\<lparr>pnext := pnext (procs s proc)\<rparr>) s
                else s\<lparr>ready_queue_head := pnext (procs s proc)\<rparr>);
          s2 = (if pnext (procs s1 proc) \<noteq> 0
                then upd_proc (pnext (procs s1 proc)) (\<lambda>p. p\<lparr>pprev := pprev (procs s1 proc)\<rparr>) s1
                else s1\<lparr>ready_queue_tail := pprev (procs s1 proc)\<rparr>);
          s3 = upd_proc proc (\<lambda>p. p\<lparr>pnext := 0\<rparr>) s2
      in upd_proc proc (\<lambda>p. p\<lparr>pprev := 0\<rparr>) s3)"

definition ready_queue_pop :: "'a kproc_scheme \<Rightarrow> u64 \<times> 'a kproc_scheme" where
  "ready_queue_pop s =
     (let proc = ready_queue_head s
      in (proc, if proc \<noteq> 0 then ready_queue_remove proc s else s))"

section \<open>The list behind the links\<close>

definition first_of :: "u64 list \<Rightarrow> u64 \<Rightarrow> u64" where
  "first_of ps nx = (case ps of [] \<Rightarrow> nx | p # _ \<Rightarrow> p)"

definition last_of :: "u64 \<Rightarrow> u64 list \<Rightarrow> u64" where
  "last_of pv ps = (if ps = [] then pv else last ps)"

fun linked :: "(u64 \<Rightarrow> process) \<Rightarrow> u64 \<Rightarrow> u64 list \<Rightarrow> u64 \<Rightarrow> bool" where
  "linked P pv [] nx \<longleftrightarrow> True"
| "linked P pv (p # ps) nx \<longleftrightarrow> pprev (P p) = pv \<and> pnext (P p) = first_of ps nx \<and> linked P p ps nx"

definition queue :: "'a kproc_scheme \<Rightarrow> u64 list \<Rightarrow> bool" where
  "queue s ps \<longleftrightarrow> ready_queue_head s = first_of ps 0 \<and> ready_queue_tail s = last_of 0 ps \<and>
     linked (procs s) 0 ps 0 \<and> distinct ps \<and> 0 \<notin> set ps"

lemma first_of_simps [simp]:
  "first_of [] nx = nx" "first_of (p # ps) nx = p"
  "first_of (ps @ qs) nx = first_of ps (first_of qs nx)"
  by (simp_all add: first_of_def split: list.split)

lemma last_of_simps [simp]:
  "last_of pv [] = pv" "last_of pv (p # ps) = last_of p ps"
  "last_of pv (ps @ qs) = last_of (last_of pv ps) qs"
  by (simp_all add: last_of_def)

lemma linked_append [simp]:
  "linked P pv (ps @ qs) nx \<longleftrightarrow> linked P pv ps (first_of qs nx) \<and> linked P (last_of pv ps) qs nx"
  by (induction ps arbitrary: pv) auto

lemma linked_other [simp]: "p \<notin> set ps \<Longrightarrow> linked (P(p := x)) pv ps nx \<longleftrightarrow> linked P pv ps nx"
  by (induction ps arbitrary: pv) auto

text \<open>Redirecting the link that leaves a segment at its end, and at its beginning.\<close>

lemma linked_set_last:
  assumes "linked P pv ps nx" "distinct ps" "ps \<noteq> []"
  shows "linked (P(last ps := P (last ps)\<lparr>pnext := nx'\<rparr>)) pv ps nx'"
proof -
  obtain qs l where "ps = qs @ [l]" using assms(3) by (cases ps rule: rev_cases) auto
  with assms show ?thesis by simp
qed

lemma linked_set_first:
  assumes "linked P pv (p # ps) nx" "p \<notin> set ps"
  shows "linked (P(p := P p\<lparr>pprev := pv'\<rparr>)) pv' (p # ps) nx"
  using assms by simp

lemma last_not_outside: "ps \<noteq> [] \<Longrightarrow> x \<notin> set ps \<Longrightarrow> last ps \<noteq> x"
  using last_in_set by blast

section \<open>What the operations leave alone\<close>

text \<open>Only the links of control blocks and the two ends of the queue change.\<close>

definition unlinked :: "process \<Rightarrow> process" where
  "unlinked p = p\<lparr>pnext := 0, pprev := 0\<rparr>"

definition relinked :: "'a kproc_scheme \<Rightarrow> 'a kproc_scheme \<Rightarrow> bool" where
  "relinked s s' \<longleftrightarrow> (\<exists>P h t. s' = s\<lparr>procs := P, ready_queue_head := h, ready_queue_tail := t\<rparr> \<and>
     (\<forall>p. unlinked (P p) = unlinked (procs s p)))"

lemma relinked_refl [simp]: "relinked s s"
  unfolding relinked_def by (intro exI [of _ "procs s"] exI [of _ "ready_queue_head s"] exI [of _ "ready_queue_tail s"]) simp

lemma relinked_trans [trans]: "relinked s s' \<Longrightarrow> relinked s' s'' \<Longrightarrow> relinked s s''"
  unfolding relinked_def by fastforce

lemma relinked_upd:
  assumes "\<And>p. unlinked (f p) = unlinked p"
  shows "relinked s (upd_proc q f s)"
proof -
  have "upd_proc q f s = s\<lparr>procs := (procs s)(q := f (procs s q)),
      ready_queue_head := ready_queue_head s, ready_queue_tail := ready_queue_tail s\<rparr>"
    by (simp add: upd_proc_def)
  then show ?thesis unfolding relinked_def using assms by (metis fun_upd_apply)
qed

lemma relinked_ends: "relinked s (s\<lparr>ready_queue_head := h\<rparr>)" "relinked s (s\<lparr>ready_queue_tail := t\<rparr>)"
proof -
  have "s\<lparr>ready_queue_head := h\<rparr> = s\<lparr>procs := procs s, ready_queue_head := h, ready_queue_tail := ready_queue_tail s\<rparr>"
    "s\<lparr>ready_queue_tail := t\<rparr> = s\<lparr>procs := procs s, ready_queue_head := ready_queue_head s, ready_queue_tail := t\<rparr>"
    by simp_all
  then show "relinked s (s\<lparr>ready_queue_head := h\<rparr>)" "relinked s (s\<lparr>ready_queue_tail := t\<rparr>)"
    unfolding relinked_def by blast+
qed

lemma relinked_upd_links [simp]:
  "relinked s (upd_proc q (\<lambda>p. p\<lparr>pnext := v\<rparr>) s)" "relinked s (upd_proc q (\<lambda>p. p\<lparr>pprev := v\<rparr>) s)"
  by (rule relinked_upd, simp add: unlinked_def)+

lemma ready_queue_push_relinked: "relinked s (ready_queue_push p s)"
  unfolding ready_queue_push_def Let_def
  by (auto intro!: relinked_trans [OF _ relinked_ends(2)] relinked_trans [OF _ relinked_ends(1)]
      relinked_trans [OF _ relinked_upd_links(1)] relinked_trans [OF _ relinked_upd_links(2)])

lemma ready_queue_remove_relinked: "relinked s (ready_queue_remove p s)"
  unfolding ready_queue_remove_def Let_def
  by (auto intro!: relinked_trans [OF _ relinked_ends(2)] relinked_trans [OF _ relinked_ends(1)]
      relinked_trans [OF _ relinked_upd_links(1)] relinked_trans [OF _ relinked_upd_links(2)]
      relinked_ends)

lemma ready_queue_pop_relinked: "relinked s (snd (ready_queue_pop s))"
  by (simp add: ready_queue_pop_def Let_def ready_queue_remove_relinked)

lemma relinkedE:
  assumes "relinked s s'"
  obtains P h t where "s' = s\<lparr>procs := P, ready_queue_head := h, ready_queue_tail := t\<rparr>"
    "\<And>p. unlinked (P p) = unlinked (procs s p)"
  using assms unfolding relinked_def by blast

lemma relinked_fields:
  assumes "relinked s s'"
  shows "pstate (procs s' p) = pstate (procs s p)" "pid (procs s' p) = pid (procs s p)"
    "pcontext (procs s' p) = pcontext (procs s p)" "page_table (procs s' p) = page_table (procs s p)"
    "ticks_total (procs s' p) = ticks_total (procs s p)" "ticks_remaining (procs s' p) = ticks_remaining (procs s p)"
    "parent_pid (procs s' p) = parent_pid (procs s p)" "pname (procs s' p) = pname (procs s p)"
    "fd_table (procs s' p) = fd_table (procs s p)" "kernel_stack (procs s' p) = kernel_stack (procs s p)"
proof -
  obtain P h t where s': "s' = s\<lparr>procs := P, ready_queue_head := h, ready_queue_tail := t\<rparr>"
    and P: "\<And>p. unlinked (P p) = unlinked (procs s p)" by (rule relinkedE [OF assms]) blast
  have eq: "unlinked (procs s' p) = unlinked (procs s p)" using P s' by simp
  show "pstate (procs s' p) = pstate (procs s p)" using arg_cong [OF eq, of pstate] by (simp add: unlinked_def)
  show "pid (procs s' p) = pid (procs s p)" using arg_cong [OF eq, of pid] by (simp add: unlinked_def)
  show "pcontext (procs s' p) = pcontext (procs s p)" using arg_cong [OF eq, of pcontext] by (simp add: unlinked_def)
  show "page_table (procs s' p) = page_table (procs s p)" using arg_cong [OF eq, of page_table] by (simp add: unlinked_def)
  show "ticks_total (procs s' p) = ticks_total (procs s p)" using arg_cong [OF eq, of ticks_total] by (simp add: unlinked_def)
  show "ticks_remaining (procs s' p) = ticks_remaining (procs s p)"
    using arg_cong [OF eq, of ticks_remaining] by (simp add: unlinked_def)
  show "parent_pid (procs s' p) = parent_pid (procs s p)" using arg_cong [OF eq, of parent_pid] by (simp add: unlinked_def)
  show "pname (procs s' p) = pname (procs s p)" using arg_cong [OF eq, of pname] by (simp add: unlinked_def)
  show "fd_table (procs s' p) = fd_table (procs s p)" using arg_cong [OF eq, of fd_table] by (simp add: unlinked_def)
  show "kernel_stack (procs s' p) = kernel_stack (procs s p)"
    using arg_cong [OF eq, of kernel_stack] by (simp add: unlinked_def)
qed

section \<open>The operations on the list\<close>

lemma ready_queue_push_queue:
  assumes "queue s ps" "p \<noteq> 0" "p \<notin> set ps"
  shows "queue (ready_queue_push p s) (ps @ [p])"
proof (cases "ps = []")
  case True
  with assms show ?thesis by (simp add: queue_def ready_queue_push_def upd_proc_def Let_def)
next
  case False
  then have tail: "ready_queue_tail s = last ps" "last ps \<noteq> 0" "last ps \<noteq> p"
    using assms last_not_outside [OF False] by (auto simp: queue_def last_of_def)
  let ?P = "(procs s)(last ps := (procs s (last ps))\<lparr>pnext := p\<rparr>)"
  have "linked ?P 0 ps p" using assms(1) False by (intro linked_set_last) (auto simp: queue_def)
  moreover have "first_of ps 0 = first_of ps p" using False by (cases ps) simp_all
  ultimately show ?thesis using assms tail False
    by (simp add: queue_def ready_queue_push_def upd_proc_def Let_def last_of_def fun_upd_twist)
qed

lemma ready_queue_remove_queue:
  assumes "queue s (ps @ p # qs)"
  shows "queue (ready_queue_remove p s) (ps @ qs)"
proof -
  have q: "linked (procs s) 0 ps p" "pprev (procs s p) = last_of 0 ps" "pnext (procs s p) = first_of qs 0"
    "linked (procs s) p qs 0" "distinct ps" "distinct qs" "p \<notin> set ps" "p \<notin> set qs" "set ps \<inter> set qs = {}"
    "0 \<notin> set ps" "0 \<notin> set qs" "p \<noteq> 0" "ready_queue_head s = first_of ps p" "ready_queue_tail s = last_of p qs"
    using assms by (auto simp: queue_def)
  let ?s = "ready_queue_remove p s"
  show ?thesis
  proof (cases "ps = []"; cases "qs = []")
    assume "ps = []" "qs = []"
    with q show ?thesis by (simp add: queue_def ready_queue_remove_def upd_proc_def Let_def)
  next
    assume ps: "ps = []" and "qs \<noteq> []"
    then obtain r rs where qs: "qs = r # rs" by (cases qs) auto
    then have r: "r \<noteq> 0" "r \<noteq> p" "r \<notin> set rs" using q by auto
    have "linked ((procs s)(r := (procs s r)\<lparr>pprev := 0\<rparr>)) 0 (r # rs) 0"
      using q(4) r(3) unfolding qs by (rule linked_set_first)
    with q r show ?thesis unfolding ps qs
      by (simp add: queue_def ready_queue_remove_def upd_proc_def Let_def)
  next
    assume ps: "ps \<noteq> []" and qs: "qs = []"
    then have l: "last ps \<noteq> 0" "last ps \<noteq> p" "last_of 0 ps = last ps"
      using q last_not_outside [OF ps] by (auto simp: last_of_def)
    have "linked ((procs s)(last ps := (procs s (last ps))\<lparr>pnext := 0\<rparr>)) 0 ps 0"
      using q(1,5) ps by (rule linked_set_last)
    moreover have "first_of ps p = first_of ps 0" using ps by (cases ps) simp_all
    ultimately show ?thesis using q l ps unfolding qs
      by (simp add: queue_def ready_queue_remove_def upd_proc_def Let_def)
  next
    assume ps: "ps \<noteq> []" and "qs \<noteq> []"
    then obtain r rs where qs: "qs = r # rs" by (cases qs) auto
    then have r: "r \<noteq> 0" "r \<noteq> p" "r \<notin> set rs" "r \<notin> set ps" using q by auto
    have l: "last ps \<noteq> 0" "last ps \<noteq> p" "last_of 0 ps = last ps" "last ps \<noteq> r" "last ps \<notin> set rs"
      using q ps qs last_not_outside [OF ps] by (auto simp: last_of_def)
    have "linked ((procs s)(last ps := (procs s (last ps))\<lparr>pnext := r\<rparr>)) 0 ps r"
      using q(1,5) ps by (rule linked_set_last)
    moreover have "linked ((procs s)(r := (procs s r)\<lparr>pprev := last ps\<rparr>)) (last ps) (r # rs) 0"
      using q(4) r(3) unfolding qs by (rule linked_set_first)
    moreover have "first_of ps p = first_of ps r" using ps by (cases ps) simp_all
    ultimately show ?thesis using q l r ps unfolding qs
      by (simp add: queue_def ready_queue_remove_def upd_proc_def Let_def)
  qed
qed

lemma ready_queue_pop_queue:
  "queue s [] \<Longrightarrow> ready_queue_pop s = (0, s)"
  "queue s (p # ps) \<Longrightarrow> fst (ready_queue_pop s) = p \<and> queue (snd (ready_queue_pop s)) ps"
  using ready_queue_remove_queue [of s "[]"] by (auto simp: queue_def ready_queue_pop_def)

interpretation rq: object_queue queue "0 :: u64" ready_queue_push ready_queue_pop ready_queue_remove
proof
  show "distinct ps \<and> 0 \<notin> set ps" if "queue s ps" for s :: "'a kproc_scheme" and ps
    using that by (simp add: queue_def)
qed (use ready_queue_push_queue ready_queue_pop_queue ready_queue_remove_queue in blast)+

section \<open>Correctness\<close>

text \<open>
  C11: the ready queue is a first-in first-out list.  Adding a process that is not queued appends
  it; taking a process returns and removes the first, or returns NULL on the empty queue;
  removing a queued process deletes it and keeps the order of the others.  Nothing but the links
  of control blocks and the two ends of the queue changes.
\<close>

theorem ready_queue_correct:
  assumes "queue s ps"
  shows "(p \<noteq> 0 \<and> p \<notin> set ps \<longrightarrow> queue (ready_queue_push p s) (ps @ [p]) \<and> relinked s (ready_queue_push p s)) \<and>
    (case ps of [] \<Rightarrow> ready_queue_pop s = (0, s)
      | q # qs \<Rightarrow> \<exists>s'. ready_queue_pop s = (q, s') \<and> queue s' qs \<and> relinked s s') \<and>
    (\<forall>xs ys. ps = xs @ p # ys \<longrightarrow> queue (ready_queue_remove p s) (xs @ ys) \<and> relinked s (ready_queue_remove p s))"
proof (intro conjI impI allI)
  show "case ps of [] \<Rightarrow> ready_queue_pop s = (0, s)
      | q # qs \<Rightarrow> \<exists>s'. ready_queue_pop s = (q, s') \<and> queue s' qs \<and> relinked s s'"
    using assms rq.pop_none [of s] rq.pop_first [of s] ready_queue_pop_relinked [of s]
    by (cases "ready_queue_pop s") (auto split: list.split)
qed (use assms rq.push_holds rq.remove_holds ready_queue_push_relinked ready_queue_remove_relinked in auto)

text \<open>A machine with an empty process table and an idle process at 0x9000.\<close>

definition zero_tss :: tss_t where
  "zero_tss = \<lparr>reserved0 = 0, rsp0 = 0, rsp1 = 0, rsp2 = 0, reserved1 = 0, ist = replicate 7 0,
     reserved2 = 0, reserved3 = 0, iomap_base = 0\<rparr>"

definition kproc_boot :: kproc where
  "kproc_boot = kpipes.extend (kheap.extend kheap_boot \<lparr>pipes = Map.empty\<rparr>)
     \<lparr>procs = \<lambda>_. zero_process, fd_tables = \<lambda>_. [], process_table = replicate 64 0, next_pid = 1,
      ready_queue_head = 0, ready_queue_tail = 0, current_process = 0, scheduler_enabled = False,
      schedule_count = 0, tss = zero_tss, cpu = zero_context, idle_process = 0x9000, idle_stack = 0xA000,
      default_kernel_stack = 0xC000, idle_task = 0x5000, process_entry_trampoline = 0x5100\<rparr>"

lemmas kproc_boot_simps = kproc_boot_def kheap.defs kpipes.defs

lemma queue_kproc_boot: "queue kproc_boot []"
  by (simp add: queue_def kproc_boot_simps)

theorem ready_queue_correct_witness:
  "fst (ready_queue_pop (ready_queue_push 0x200 (ready_queue_push 0x100 kproc_boot))) = 0x100 \<and>
   queue (ready_queue_remove 0x100 (ready_queue_push 0x200 (ready_queue_push 0x100 kproc_boot))) [0x200]"
proof -
  have "queue (ready_queue_push 0x100 kproc_boot) [0x100]"
    using ready_queue_correct [OF queue_kproc_boot, of "0x100"] by simp
  then have "queue (ready_queue_push 0x200 (ready_queue_push 0x100 kproc_boot)) [0x100, 0x200]"
    using ready_queue_correct [of "ready_queue_push 0x100 kproc_boot" "[0x100]" "0x200"] by simp
  note both = ready_queue_correct [OF this, of "0x100"]
  from both have "fst (ready_queue_pop (ready_queue_push 0x200 (ready_queue_push 0x100 kproc_boot))) = 0x100" by auto
  with conjunct2 [OF conjunct2 [OF both], rule_format, of "[]" "[0x200]"] show ?thesis by simp
qed

text \<open>
  removal of a process that is not queued and has no links, as \<open>process_destroy\<close> does for a
  process made READY by SIGCONT, empties the queue: every queued process is forgotten.
\<close>

theorem ready_queue_remove_stray:
  assumes "queue s ps" "p \<notin> set ps" "pnext (procs s p) = 0" "pprev (procs s p) = 0"
  shows "queue (ready_queue_remove p s) []"
  using assms by (simp add: queue_def ready_queue_remove_def upd_proc_def Let_def)

theorem ready_queue_remove_stray_witness:
  "queue (ready_queue_push 0x100 kproc_boot) [0x100] \<and>
   queue (ready_queue_remove 0x200 (ready_queue_push 0x100 kproc_boot)) []"
proof
  show q: "queue (ready_queue_push 0x100 kproc_boot) [0x100]"
    using rq.push_holds [OF queue_kproc_boot, of "0x100"] by simp
  show "queue (ready_queue_remove 0x200 (ready_queue_push 0x100 kproc_boot)) []"
    by (rule ready_queue_remove_stray [OF q])
      (simp_all add: ready_queue_push_def upd_proc_def kproc_boot_simps zero_process_def)
qed

end
