(* ===== verification/Scheduler.thy ===== *)
theory Scheduler
  imports Ready_Queue
begin

text \<open>
  The round-robin scheduler (\<open>src/src/kernel/scheduler.c\<close>) and the context switch
  (\<open>src/src/arch/x86_64/context_switch.s\<close>).  A context switch hands the processor to another
  process, so the code after the call runs only when the old process is resumed: \<open>schedule\<close>
  returns whether it switched, with the state at that moment, and \<open>sti\<close> after the switch
  belongs to the resumed process.
\<close>

section \<open>Operations\<close>

definition cli :: "'a kproc_scheme \<Rightarrow> 'a kproc_scheme" where
  "cli s = s\<lparr>cpu := (cpu s)\<lparr>rflags := rflags (cpu s) AND NOT 0x200\<rparr>\<rparr>"

definition sti :: "'a kproc_scheme \<Rightarrow> 'a kproc_scheme" where
  "sti s = s\<lparr>cpu := (cpu s)\<lparr>rflags := rflags (cpu s) OR 0x200\<rparr>\<rparr>"

definition process_get_current :: "'a kproc_scheme \<Rightarrow> u64" where
  "process_get_current s = (if current_process s \<noteq> 0 then current_process s else idle_process s)"

text \<open>
  \<open>context_switch\<close>: the arguments are the control blocks whose contexts the code passes (0 for
  no old context).  The return address is read from the stack; the two push/pop pairs leave the
  new flags in the stack slot below it.
\<close>

definition context_switch :: "u64 \<Rightarrow> u64 \<Rightarrow> 'a kproc_scheme \<Rightarrow> 'a kproc_scheme" where
  "context_switch old new s =
     (let c = cpu s;
          s1 = (if old \<noteq> 0
                then upd_proc old (\<lambda>p. p\<lparr>pcontext := c\<lparr>rip := load64 (phys_mem s) (rsp c)\<rparr>\<rparr>) s
                else s);
          n = pcontext (procs s1 new)
      in s1\<lparr>phys_mem := store64 (phys_mem s1) (rsp c - 8) (rflags n), cpu := n\<rparr>)"

definition schedule :: "'a kproc_scheme \<Rightarrow> bool \<times> 'a kproc_scheme" where
  "schedule s =
     (if \<not> scheduler_enabled s then (False, s)
      else let s1 = cli s;
          s2 = s1\<lparr>schedule_count := schedule_count s1 + 1\<rparr>;
          current = process_get_current s2;
          s3 = (if current \<noteq> 0 \<and> pstate (procs s2 current) = PROCESS_STATE_RUNNING
                then ready_queue_push current (upd_proc current (\<lambda>p. p\<lparr>pstate := PROCESS_STATE_READY\<rparr>) s2)
                else s2)
      in case ready_queue_pop s3 of (q, s4) \<Rightarrow>
         let next = (if q = 0 then process_table s4 ! 0 else q)
         in if current \<noteq> next then
              let s5 = upd_proc next (\<lambda>p. p\<lparr>pstate := PROCESS_STATE_RUNNING\<rparr>) s4;
                  s6 = s5\<lparr>current_process := next\<rparr>;
                  s7 = (if (current = 0 \<or> page_table (procs s6 current) \<noteq> page_table (procs s6 next)) \<and>
                           page_table (procs s6 next) \<noteq> 0
                        then vmm_switch_address_space (page_table (procs s6 next)) s6 else s6)
              in (True, context_switch current next s7)
            else (False, sti s4))"

definition scheduler_tick :: "'a kproc_scheme \<Rightarrow> bool \<times> 'a kproc_scheme" where
  "scheduler_tick s =
     (if \<not> scheduler_enabled s then (False, s)
      else let current = process_get_current s
      in if current = 0 then (False, s)
      else let s1 = upd_proc current (\<lambda>p. p\<lparr>ticks_total := ticks_total p + 1\<rparr>) s;
               s2 = (if ticks_remaining (procs s1 current) > 0
                     then upd_proc current (\<lambda>p. p\<lparr>ticks_remaining := ticks_remaining p - 1\<rparr>) s1 else s1)
           in if ticks_remaining (procs s2 current) = 0
              then schedule (upd_proc current (\<lambda>p. p\<lparr>ticks_remaining := DEFAULT_QUANTUM\<rparr>) s2)
              else (False, s2))"

definition scheduler_init :: "'a kproc_scheme \<Rightarrow> 'a kproc_scheme" where
  "scheduler_init s =
     terminal_writestring ''Scheduler initialized (disabled)\<newline>''
       (s\<lparr>scheduler_enabled := False, schedule_count := 0\<rparr>)"

definition scheduler_enable :: "'a kproc_scheme \<Rightarrow> bool \<times> 'a kproc_scheme" where
  "scheduler_enable s =
     schedule (terminal_writestring ''Scheduler enabled\<newline>'' (s\<lparr>scheduler_enabled := True\<rparr>))"

definition scheduler_disable :: "'a kproc_scheme \<Rightarrow> 'a kproc_scheme" where
  "scheduler_disable s =
     terminal_writestring ''Scheduler disabled\<newline>'' (s\<lparr>scheduler_enabled := False\<rparr>)"

definition scheduler_stats :: "'a kproc_scheme \<Rightarrow> 'a kproc_scheme" where
  "scheduler_stats s =
     terminal_writestring ''\<newline>'' (terminal_writestring ''  Schedule count: ''
       (terminal_writestring ''Scheduler statistics:\<newline>'' s))"

section \<open>One scheduling decision\<close>

text \<open>Updates that keep the links keep the queue.\<close>

lemma linked_upd:
  "(\<And>p. pnext (f p) = pnext p) \<Longrightarrow> (\<And>p. pprev (f p) = pprev p) \<Longrightarrow>
     linked (P(q := f (P q))) pv ps nx \<longleftrightarrow> linked P pv ps nx"
  by (induction ps arbitrary: pv) simp_all

lemma queue_upd_proc [simp]:
  assumes "\<And>p. pnext (f p) = pnext p" "\<And>p. pprev (f p) = pprev p"
  shows "queue (upd_proc q f s) ps \<longleftrightarrow> queue s ps"
  using linked_upd [of f "procs s" q, OF assms] by (simp add: queue_def upd_proc_def)

lemma upd_proc_simps [simp]:
  "procs (upd_proc q f s) = (procs s)(q := f (procs s q))"
  "current_process (upd_proc q f s) = current_process s" "idle_process (upd_proc q f s) = idle_process s"
  "process_table (upd_proc q f s) = process_table s" "scheduler_enabled (upd_proc q f s) = scheduler_enabled s"
  "schedule_count (upd_proc q f s) = schedule_count s" "cpu (upd_proc q f s) = cpu s"
  "cr3 (upd_proc q f s) = cr3 s" "phys_mem (upd_proc q f s) = phys_mem s"
  by (simp_all add: upd_proc_def)

lemma queue_cong:
  "procs s' = procs s \<Longrightarrow> ready_queue_head s' = ready_queue_head s \<Longrightarrow> ready_queue_tail s' = ready_queue_tail s \<Longrightarrow>
     queue s' ps \<longleftrightarrow> queue s ps"
  by (simp add: queue_def)

lemma relinked_keeps:
  assumes "relinked s s'"
  shows "current_process s' = current_process s" "idle_process s' = idle_process s"
    "process_table s' = process_table s" "scheduler_enabled s' = scheduler_enabled s"
    "schedule_count s' = schedule_count s" "cpu s' = cpu s" "cr3 s' = cr3 s" "phys_mem s' = phys_mem s"
    "fd_tables s' = fd_tables s" "pipes s' = pipes s" "console s' = console s" "next_pid s' = next_pid s"
  by (rule relinkedE [OF assms]; simp)+

text \<open>What the scheduler takes from a list of ready processes.\<close>

definition preempted :: "process_state \<Rightarrow> process_state" where
  "preempted st = (if st = PROCESS_STATE_RUNNING then PROCESS_STATE_READY else st)"

definition ready_list :: "u64 \<Rightarrow> process_state \<Rightarrow> u64 list \<Rightarrow> u64 list" where
  "ready_list c st ps = (if st = PROCESS_STATE_RUNNING then ps @ [c] else ps)"

definition chosen :: "u64 list \<Rightarrow> u64 \<Rightarrow> u64" where
  "chosen rs idle = (if rs = [] then idle else hd rs)"

text \<open>The first half of \<open>schedule\<close>: the state from which the next process is dispatched.\<close>

lemma schedule_choice:
  assumes "scheduler_enabled s" "queue s ps" "process_get_current s = c" "c \<notin> set ps" "c \<noteq> 0"
  obtains s4 where "queue s4 (tl (ready_list c (pstate (procs s c)) ps))"
    "relinked (upd_proc c (\<lambda>p. p\<lparr>pstate := preempted (pstate p)\<rparr>) ((cli s)\<lparr>schedule_count := schedule_count s + 1\<rparr>)) s4"
    "schedule s =
      (let next = chosen (ready_list c (pstate (procs s c)) ps) (process_table s ! 0)
       in if c \<noteq> next then
            let s6 = (upd_proc next (\<lambda>p. p\<lparr>pstate := PROCESS_STATE_RUNNING\<rparr>) s4)\<lparr>current_process := next\<rparr>
            in (True, context_switch c next
                 (if page_table (procs s6 c) \<noteq> page_table (procs s6 next) \<and> page_table (procs s6 next) \<noteq> 0
                  then vmm_switch_address_space (page_table (procs s6 next)) s6 else s6))
          else (False, sti s4))"
proof -
  let ?s2 = "(cli s)\<lparr>schedule_count := schedule_count s + 1\<rparr>"
  let ?u = "upd_proc c (\<lambda>p. p\<lparr>pstate := preempted (pstate p)\<rparr>) ?s2"
  let ?rs = "ready_list c (pstate (procs s c)) ps"
  define s3 where "s3 = (if pstate (procs s c) = PROCESS_STATE_RUNNING
    then ready_queue_push c (upd_proc c (\<lambda>p. p\<lparr>pstate := PROCESS_STATE_READY\<rparr>) ?s2) else ?s2)"
  have cur: "process_get_current ?s2 = c" using assms(3) by (auto simp: process_get_current_def cli_def)
  have q2: "queue ?s2 ps" using assms(2) by (simp add: cli_def queue_def)
  have u: "?u = (if pstate (procs s c) = PROCESS_STATE_RUNNING
      then upd_proc c (\<lambda>p. p\<lparr>pstate := PROCESS_STATE_READY\<rparr>) ?s2 else ?s2)"
    by (auto simp: upd_proc_def preempted_def cli_def)
  have q3: "queue s3 ?rs" using q2 assms(4,5) by (auto simp: s3_def ready_list_def intro: rq.push_holds)
  have r3: "relinked ?u s3" unfolding u s3_def by (simp add: ready_queue_push_relinked)
  define s4 where "s4 = snd (ready_queue_pop s3)"
  have pop: "ready_queue_pop s3 = ((if ?rs = [] then 0 else hd ?rs), s4)" "queue s4 (tl ?rs)"
    using rq.pop_none [of s3] rq.pop_first [of s3 "hd ?rs" "tl ?rs"] q3
    by (cases "?rs = []"; simp add: s4_def prod_eq_iff)+
  have r4: "relinked ?u s4"
    using relinked_trans [OF r3 ready_queue_pop_relinked [of s3]] by (simp add: s4_def)
  have hd: "?rs \<noteq> [] \<Longrightarrow> hd ?rs \<noteq> 0" using rq.distinct_members [OF q3] hd_in_set by metis
  have tbl: "process_table s4 = process_table s" using relinked_keeps(3) [OF r4] by (simp add: cli_def)
  have "schedule s =
      (let next = chosen ?rs (process_table s ! 0)
       in if c \<noteq> next then
            let s6 = (upd_proc next (\<lambda>p. p\<lparr>pstate := PROCESS_STATE_RUNNING\<rparr>) s4)\<lparr>current_process := next\<rparr>
            in (True, context_switch c next
                 (if page_table (procs s6 c) \<noteq> page_table (procs s6 next) \<and> page_table (procs s6 next) \<noteq> 0
                  then vmm_switch_address_space (page_table (procs s6 next)) s6 else s6))
          else (False, sti s4))"
  proof -
    have sc: "schedule_count (cli s) = schedule_count s" "procs (cli s) = procs s" by (simp_all add: cli_def)
    have "schedule s = (case ready_queue_pop s3 of (q, s4) \<Rightarrow>
        let next = (if q = 0 then process_table s4 ! 0 else q)
        in if c \<noteq> next then
             let s6 = (upd_proc next (\<lambda>p. p\<lparr>pstate := PROCESS_STATE_RUNNING\<rparr>) s4)\<lparr>current_process := next\<rparr>
             in (True, context_switch c next
                 (if page_table (procs s6 c) \<noteq> page_table (procs s6 next) \<and> page_table (procs s6 next) \<noteq> 0
                  then vmm_switch_address_space (page_table (procs s6 next)) s6 else s6))
           else (False, sti s4))"
      unfolding schedule_def Let_def sc cur s3_def using assms(1,5) by (simp add: sc split_beta)
    then show ?thesis unfolding pop chosen_def using hd tbl by (simp add: Let_def)
  qed
  with pop(2) r4 show ?thesis by (rule that)
qed

lemma context_switch_queue [simp]: "queue (context_switch old new s) ps \<longleftrightarrow> queue s ps"
proof -
  have "queue (context_switch old new s) ps \<longleftrightarrow>
      queue (if old \<noteq> 0 then upd_proc old (\<lambda>p. p\<lparr>pcontext := (cpu s)\<lparr>rip := load64 (phys_mem s) (rsp (cpu s))\<rparr>\<rparr>) s else s) ps"
    by (rule queue_cong) (simp_all add: context_switch_def Let_def)
  also have "\<dots> \<longleftrightarrow> queue s ps" by simp
  finally show ?thesis .
qed

lemma context_switch_fields [simp]:
  "current_process (context_switch old new s) = current_process s"
  "idle_process (context_switch old new s) = idle_process s"
  "process_table (context_switch old new s) = process_table s"
  "scheduler_enabled (context_switch old new s) = scheduler_enabled s"
  "schedule_count (context_switch old new s) = schedule_count s"
  "cr3 (context_switch old new s) = cr3 s"
  "pstate (procs (context_switch old new s) p) = pstate (procs s p)"
  by (simp_all add: context_switch_def Let_def)

lemma context_switch_contexts:
  assumes "old \<noteq> 0" "old \<noteq> new"
  shows "cpu (context_switch old new s) = pcontext (procs s new)"
    "pcontext (procs (context_switch old new s) p) =
      (if p = old then (cpu s)\<lparr>rip := load64 (phys_mem s) (rsp (cpu s))\<rparr> else pcontext (procs s p))"
  using assms by (simp_all add: context_switch_def Let_def)

text \<open>The registers a process is preempted with: interrupts off, the return address as \<open>rip\<close>.\<close>

definition saved_context :: "'a kproc_scheme \<Rightarrow> context_t" where
  "saved_context s = (cpu (cli s))\<lparr>rip := load64 (phys_mem s) (rsp (cpu s))\<rparr>"

lemma schedule_switches:
  assumes "scheduler_enabled s" "queue s ps" "process_get_current s = c" "c \<notin> set ps" "c \<noteq> 0"
    and nx: "chosen (ready_list c (pstate (procs s c)) ps) (process_table s ! 0) = nxt" "nxt \<noteq> c"
  obtains s' where "schedule s = (True, s')" "queue s' (tl (ready_list c (pstate (procs s c)) ps))"
    "current_process s' = nxt" "cpu s' = pcontext (procs s nxt)"
    "\<And>p. pstate (procs s' p) = (if p = nxt then PROCESS_STATE_RUNNING
        else if p = c then preempted (pstate (procs s c)) else pstate (procs s p))"
    "\<And>p. pcontext (procs s' p) = (if p = c then saved_context s else pcontext (procs s p))"
    "cr3 s' = (if page_table (procs s c) \<noteq> page_table (procs s nxt) \<and> page_table (procs s nxt) \<noteq> 0
       then page_table (procs s nxt) else cr3 s)"
    "schedule_count s' = schedule_count s + 1" "process_table s' = process_table s"
    "idle_process s' = idle_process s" "scheduler_enabled s'"
proof -
  obtain s4 where q4: "queue s4 (tl (ready_list c (pstate (procs s c)) ps))"
    and r4: "relinked (upd_proc c (\<lambda>p. p\<lparr>pstate := preempted (pstate p)\<rparr>) ((cli s)\<lparr>schedule_count := schedule_count s + 1\<rparr>)) s4"
    and eq: "schedule s =
      (let next = chosen (ready_list c (pstate (procs s c)) ps) (process_table s ! 0)
       in if c \<noteq> next then
            let s6 = (upd_proc next (\<lambda>p. p\<lparr>pstate := PROCESS_STATE_RUNNING\<rparr>) s4)\<lparr>current_process := next\<rparr>
            in (True, context_switch c next
                 (if page_table (procs s6 c) \<noteq> page_table (procs s6 next) \<and> page_table (procs s6 next) \<noteq> 0
                  then vmm_switch_address_space (page_table (procs s6 next)) s6 else s6))
          else (False, sti s4))"
    by (rule schedule_choice [OF assms(1-5)])
  note keep = relinked_keeps [OF r4] relinked_fields [OF r4]
  let ?s6 = "(upd_proc nxt (\<lambda>p. p\<lparr>pstate := PROCESS_STATE_RUNNING\<rparr>) s4)\<lparr>current_process := nxt\<rparr>"
  let ?s7 = "if page_table (procs ?s6 c) \<noteq> page_table (procs ?s6 nxt) \<and> page_table (procs ?s6 nxt) \<noteq> 0
    then vmm_switch_address_space (page_table (procs ?s6 nxt)) ?s6 else ?s6"
  have "queue (upd_proc nxt (\<lambda>p. p\<lparr>pstate := PROCESS_STATE_RUNNING\<rparr>) s4) (tl (ready_list c (pstate (procs s c)) ps))"
    using q4 by simp
  then have q7: "queue ?s7 (tl (ready_list c (pstate (procs s c)) ps))"
    by (subst queue_cong [of _ "upd_proc nxt (\<lambda>p. p\<lparr>pstate := PROCESS_STATE_RUNNING\<rparr>) s4"])
      (simp_all add: vmm_switch_address_space_def)
  show ?thesis
  proof (rule that)
    show "schedule s = (True, context_switch c nxt ?s7)" unfolding eq nx(1) using nx(2) by (simp add: Let_def)
    show "queue (context_switch c nxt ?s7) (tl (ready_list c (pstate (procs s c)) ps))" using q7 by simp
    show "pcontext (procs (context_switch c nxt ?s7) p) = (if p = c then saved_context s else pcontext (procs s p))" for p
      using nx(2) assms(5) keep
      by (simp add: context_switch_contexts vmm_switch_address_space_def saved_context_def cli_def)
  qed (use nx(2) assms(1,5) keep in
      \<open>simp_all add: context_switch_contexts vmm_switch_address_space_def cli_def\<close>)
qed

lemma schedule_stays:
  assumes "scheduler_enabled s" "queue s ps" "process_get_current s = c" "c \<notin> set ps" "c \<noteq> 0"
    and nx: "chosen (ready_list c (pstate (procs s c)) ps) (process_table s ! 0) = c"
  obtains s' where "schedule s = (False, s')" "queue s' (tl (ready_list c (pstate (procs s c)) ps))"
    "process_get_current s' = c" "\<And>p. pcontext (procs s' p) = pcontext (procs s p)"
    "\<And>p. pstate (procs s' p) = (if p = c then preempted (pstate (procs s c)) else pstate (procs s p))"
    "cr3 s' = cr3 s" "cpu s' = (cpu s)\<lparr>rflags := (rflags (cpu s) AND NOT 0x200) OR 0x200\<rparr>"
    "schedule_count s' = schedule_count s + 1" "process_table s' = process_table s"
    "idle_process s' = idle_process s" "scheduler_enabled s'"
proof -
  obtain s4 where q4: "queue s4 (tl (ready_list c (pstate (procs s c)) ps))"
    and r4: "relinked (upd_proc c (\<lambda>p. p\<lparr>pstate := preempted (pstate p)\<rparr>) ((cli s)\<lparr>schedule_count := schedule_count s + 1\<rparr>)) s4"
    and eq: "schedule s = (False, sti s4)"
    by (rule schedule_choice [OF assms(1-5)], rule that, assumption, assumption) (simp add: nx)
  note keep = relinked_keeps [OF r4] relinked_fields [OF r4]
  have "queue (sti s4) (tl (ready_list c (pstate (procs s c)) ps))"
    using q4 by (simp add: queue_def sti_def)
  moreover have "process_get_current (sti s4) = c"
    using assms(3) keep by (auto simp: process_get_current_def sti_def cli_def)
  ultimately show ?thesis
    by (rule that [OF eq]) (use keep assms(1) in \<open>simp_all add: sti_def cli_def\<close>)
qed

section \<open>What scheduling leaves alone\<close>

definition sched_forget :: "'a kproc_scheme \<Rightarrow> 'a kproc_scheme" where
  "sched_forget s = s\<lparr>phys_mem := \<lambda>_. 0, cr3 := 0, procs := \<lambda>_. zero_process, ready_queue_head := 0,
     ready_queue_tail := 0, current_process := 0, schedule_count := 0, cpu := zero_context\<rparr>"

definition sched_frame :: "'a kproc_scheme \<Rightarrow> 'a kproc_scheme \<Rightarrow> bool" where
  "sched_frame s s' \<longleftrightarrow> sched_forget s' = sched_forget s"

lemma sched_frame_trans [trans]: "sched_frame s s' \<Longrightarrow> sched_frame s' s'' \<Longrightarrow> sched_frame s s''"
  by (simp add: sched_frame_def)

lemma sched_frame_upd: "sched_frame s (upd_proc p f s)"
  by (simp add: sched_frame_def sched_forget_def upd_proc_def)

lemma sched_frame_relinked: "relinked s s' \<Longrightarrow> sched_frame s s'"
  by (erule relinkedE) (simp add: sched_frame_def sched_forget_def)

lemma sched_frame_cpu:
  "sched_frame s (cli s)" "sched_frame s (sti s)" "sched_frame s (s\<lparr>schedule_count := k\<rparr>)" "sched_frame s (s\<lparr>current_process := q\<rparr>)"
  "sched_frame s (vmm_switch_address_space a s)" "sched_frame s (s\<lparr>phys_mem := m, cpu := r\<rparr>)" "sched_frame s s"
  by (simp_all add: sched_frame_def sched_forget_def cli_def sti_def vmm_switch_address_space_def)

lemma sched_frame_context_switch: "sched_frame s (context_switch old new s)"
  unfolding context_switch_def Let_def by (rule sched_frame_trans [OF _ sched_frame_cpu(6)]) (simp add: sched_frame_upd sched_frame_cpu)

lemma schedule_frame: "sched_frame s (snd (schedule s))"
proof (cases "scheduler_enabled s")
  case True
  define s2 where "s2 = (cli s)\<lparr>schedule_count := schedule_count (cli s) + 1\<rparr>"
  define c where "c = process_get_current s2"
  define s3 where "s3 = (if c \<noteq> 0 \<and> pstate (procs s2 c) = PROCESS_STATE_RUNNING
    then ready_queue_push c (upd_proc c (\<lambda>p. p\<lparr>pstate := PROCESS_STATE_READY\<rparr>) s2) else s2)"
  define s4 where "s4 = snd (ready_queue_pop s3)"
  define nx where "nx = (if fst (ready_queue_pop s3) = 0 then process_table s4 ! 0 else fst (ready_queue_pop s3))"
  define s6 where "s6 = (upd_proc nx (\<lambda>p. p\<lparr>pstate := PROCESS_STATE_RUNNING\<rparr>) s4)\<lparr>current_process := nx\<rparr>"
  define s7 where "s7 = (if (c = 0 \<or> page_table (procs s6 c) \<noteq> page_table (procs s6 nx)) \<and> page_table (procs s6 nx) \<noteq> 0
    then vmm_switch_address_space (page_table (procs s6 nx)) s6 else s6)"
  have eq: "schedule s = (if c \<noteq> nx then (True, context_switch c nx s7) else (False, sti s4))"
    by (simp only: schedule_def Let_def split_beta s7_def s6_def nx_def s4_def s3_def c_def s2_def True simp_thms if_False)
  have "sched_frame s s2" unfolding s2_def by (rule sched_frame_trans [OF sched_frame_cpu(1) sched_frame_cpu(3)])
  also have "sched_frame s2 s3"
    by (simp add: s3_def sched_frame_cpu sched_frame_trans [OF sched_frame_upd sched_frame_relinked [OF ready_queue_push_relinked]])
  also have "sched_frame s3 s4" unfolding s4_def by (rule sched_frame_relinked [OF ready_queue_pop_relinked])
  finally have f4: "sched_frame s s4" .
  have "sched_frame s4 s6" unfolding s6_def by (rule sched_frame_trans [OF sched_frame_upd sched_frame_cpu(4)])
  also have "sched_frame s6 s7" by (simp add: s7_def sched_frame_cpu)
  also have "sched_frame s7 (context_switch c nx s7)" by (rule sched_frame_context_switch)
  finally have "sched_frame s (context_switch c nx s7)" "sched_frame s (sti s4)"
    using sched_frame_trans [OF f4] sched_frame_cpu(2) by blast+
  then show ?thesis unfolding eq by simp
qed (simp add: schedule_def sched_frame_cpu)

lemma scheduler_tick_frame: "sched_frame s (snd (scheduler_tick s))"
proof -
  have "sched_frame s (snd (schedule (upd_proc c f (upd_proc c g t))))" if "sched_frame s t" for c f g t
    using sched_frame_trans [OF sched_frame_trans [OF that sched_frame_trans [OF sched_frame_upd sched_frame_upd]] schedule_frame] .
  moreover have "sched_frame s (snd (schedule (upd_proc c f t)))" if "sched_frame s t" for c f t
    using sched_frame_trans [OF sched_frame_trans [OF that sched_frame_upd] schedule_frame] .
  ultimately show ?thesis
    by (simp add: scheduler_tick_def Let_def sched_frame_upd sched_frame_cpu sched_frame_trans [OF sched_frame_upd sched_frame_upd])
qed


section \<open>Rotation\<close>

text \<open>
  The runnable processes in the order they run: the running process first, then the ready queue.
\<close>

definition rotation :: "'a kproc_scheme \<Rightarrow> u64 list \<Rightarrow> bool" where
  "rotation s rs \<longleftrightarrow> scheduler_enabled s \<and> 2 \<le> length rs \<and> distinct rs \<and> 0 \<notin> set rs \<and>
     process_get_current s = hd rs \<and> queue s (tl rs) \<and> pstate (procs s (hd rs)) = PROCESS_STATE_RUNNING \<and>
     (\<forall>p \<in> set (tl rs). pstate (procs s p) = PROCESS_STATE_READY)"

definition reschedule :: "'a kproc_scheme \<Rightarrow> 'a kproc_scheme" where
  "reschedule s = snd (schedule s)"

lemma rotation_step:
  assumes "rotation s rs"
  shows "rotation (reschedule s) (rotate1 rs)"
proof -
  obtain c n ps where rs: "rs = c # n # ps"
    using assms by (cases rs; cases "tl rs") (auto simp: rotation_def)
  have r: "scheduler_enabled s" "queue s (n # ps)" "process_get_current s = c" "c \<notin> set (n # ps)" "c \<noteq> 0"
    "n \<noteq> 0" "n \<notin> set ps" "pstate (procs s c) = PROCESS_STATE_RUNNING" "distinct ps" "0 \<notin> set ps"
    "\<forall>p \<in> set (n # ps). pstate (procs s p) = PROCESS_STATE_READY"
    using assms by (auto simp: rotation_def rs)
  have list: "ready_list c (pstate (procs s c)) (n # ps) = n # ps @ [c]" by (simp add: ready_list_def r(8))
  have "chosen (ready_list c (pstate (procs s c)) (n # ps)) (process_table s ! 0) = n" "n \<noteq> c"
    using r(4) by (auto simp: list chosen_def)
  from schedule_switches [OF r(1-5) this] obtain s' where s': "schedule s = (True, s')" "queue s' (ps @ [c])"
    "current_process s' = n" "scheduler_enabled s'"
    and st: "\<And>p. pstate (procs s' p) = (if p = n then PROCESS_STATE_RUNNING
        else if p = c then preempted (pstate (procs s c)) else pstate (procs s p))"
    unfolding list list.sel by metis
  have "process_get_current s' = n" using s'(3) r(6) by (simp add: process_get_current_def)
  with s' r st show ?thesis by (auto simp: reschedule_def rotation_def rs preempted_def)
qed

lemma rotation_steps: "rotation s rs \<Longrightarrow> rotation ((reschedule ^^ n) s) (rotate n rs)"
  by (induction n) (simp_all add: rotation_step)

text \<open>When only the process at the front of the table is left, nothing else ever runs.\<close>

definition only_idle :: "u64 \<Rightarrow> 'a kproc_scheme \<Rightarrow> bool" where
  "only_idle d s \<longleftrightarrow> scheduler_enabled s \<and> queue s [] \<and> process_get_current s = d \<and> d \<noteq> 0 \<and> process_table s ! 0 = d"

lemma only_idle_step:
  assumes "only_idle d s"
  shows "only_idle d (reschedule s)"
proof -
  let ?l = "ready_list d (pstate (procs s d)) []"
  have l: "tl ?l = []" "chosen ?l (process_table s ! 0) = d"
    using assms by (auto simp: ready_list_def chosen_def only_idle_def)
  from assms have "scheduler_enabled s" "queue s []" "process_get_current s = d" "d \<notin> set []" "d \<noteq> 0"
    by (auto simp: only_idle_def)
  from schedule_stays [OF this l(2)] obtain s' where "schedule s = (False, s')" "queue s' []"
    "process_get_current s' = d" "process_table s' = process_table s" "scheduler_enabled s'"
    unfolding l(1) by metis
  with assms show ?thesis by (simp add: only_idle_def reschedule_def)
qed

lemma only_idle_steps: "only_idle d s \<Longrightarrow> only_idle d ((reschedule ^^ n) s)"
  by (induction n) (simp_all add: only_idle_step)

section \<open>Correctness\<close>

text \<open>
  C19: one scheduling decision.  The running process goes to the end of the ready queue, the first
  ready process (or, when there is none, the process in slot 0 of the table) is taken out of the
  queue and becomes the running one.  Its saved registers are loaded, those of the old process
  are saved with its return address, and its address space is installed when it has one that
  differs.  No other process changes.
\<close>

theorem schedule_correct:
  assumes "scheduler_enabled s" "queue s ps" "process_get_current s = c" "c \<notin> set ps" "c \<noteq> 0"
    and "nxt = chosen (ready_list c (pstate (procs s c)) ps) (process_table s ! 0)"
  shows "\<exists>s'. schedule s = (nxt \<noteq> c, s') \<and> queue s' (tl (ready_list c (pstate (procs s c)) ps)) \<and>
    schedule_count s' = schedule_count s + 1 \<and>
    (\<forall>p. pstate (procs s' p) = (if p = nxt \<and> nxt \<noteq> c then PROCESS_STATE_RUNNING
        else if p = c then preempted (pstate (procs s c)) else pstate (procs s p))) \<and>
    (\<forall>p. p \<noteq> c \<longrightarrow> pcontext (procs s' p) = pcontext (procs s p)) \<and>
    (nxt \<noteq> c \<longrightarrow> current_process s' = nxt \<and> cpu s' = pcontext (procs s nxt) \<and>
       pcontext (procs s' c) = saved_context s \<and>
       cr3 s' = (if page_table (procs s c) \<noteq> page_table (procs s nxt) \<and> page_table (procs s nxt) \<noteq> 0
                 then page_table (procs s nxt) else cr3 s))"
proof (cases "nxt = c")
  case True
  with assms(6) have "chosen (ready_list c (pstate (procs s c)) ps) (process_table s ! 0) = c" by simp
  from schedule_stays [OF assms(1-5) this] obtain s' where "schedule s = (False, s')"
    "queue s' (tl (ready_list c (pstate (procs s c)) ps))" "\<And>p. pcontext (procs s' p) = pcontext (procs s p)"
    "\<And>p. pstate (procs s' p) = (if p = c then preempted (pstate (procs s c)) else pstate (procs s p))"
    "schedule_count s' = schedule_count s + 1" by metis
  with True show ?thesis by simp
next
  case False
  show ?thesis
    apply (rule schedule_switches [OF assms(1-5) assms(6) [symmetric] False])
    subgoal for s' using False by (intro exI [of _ s']) simp
    done
qed

definition sched_demo :: kproc where
  "sched_demo = ready_queue_push 0x200 (kproc_boot\<lparr>current_process := 0x100, scheduler_enabled := True,
     procs := (\<lambda>_. zero_process)(0x100 := zero_process\<lparr>pstate := PROCESS_STATE_RUNNING\<rparr>)\<rparr>)"

lemma sched_demo_facts:
  "scheduler_enabled sched_demo" "queue sched_demo [0x200]" "process_get_current sched_demo = 0x100"
  "pstate (procs sched_demo 0x100) = PROCESS_STATE_RUNNING" "pstate (procs sched_demo 0x200) = PROCESS_STATE_READY"
proof -
  let ?s = "kproc_boot\<lparr>current_process := 0x100, scheduler_enabled := True,
     procs := (\<lambda>_. zero_process)(0x100 := zero_process\<lparr>pstate := PROCESS_STATE_RUNNING\<rparr>)\<rparr>"
  have "queue ?s []" by (simp add: queue_def kproc_boot_simps)
  from rq.push_holds [OF this, of "0x200"] show "queue sched_demo [0x200]" by (simp add: sched_demo_def)
  have r: "relinked ?s sched_demo" unfolding sched_demo_def by (rule ready_queue_push_relinked)
  show "scheduler_enabled sched_demo" "process_get_current sched_demo = 0x100"
    "pstate (procs sched_demo 0x100) = PROCESS_STATE_RUNNING" "pstate (procs sched_demo 0x200) = PROCESS_STATE_READY"
    by (simp_all add: relinked_keeps [OF r] relinked_fields [OF r] process_get_current_def zero_process_def)
qed

theorem schedule_correct_witness:
  "\<exists>s'. schedule sched_demo = (True, s') \<and> queue s' [0x100] \<and> current_process s' = 0x200"
proof -
  have "0x200 = chosen (ready_list 0x100 (pstate (procs sched_demo 0x100)) [0x200]) (process_table sched_demo ! 0)"
    by (simp add: sched_demo_facts ready_list_def chosen_def)
  from schedule_correct [OF sched_demo_facts(1-3) _ _ this] show ?thesis
    by (auto simp: sched_demo_facts ready_list_def)
qed

text \<open>
  C21: round robin.  With at least two runnable processes, the \<open>n\<close>-th scheduling decision runs the
  process \<open>n\<close> places further in the rotation, so in as many decisions as there are processes each
  of them runs once; the running process is always RUNNING and out of the queue, the others are
  READY and queued in order.
\<close>

theorem round_robin:
  assumes "rotation s rs"
  shows "rotation ((reschedule ^^ n) s) (rotate n rs) \<and>
    process_get_current ((reschedule ^^ n) s) = rs ! (n mod length rs)"
proof -
  have r: "rotation ((reschedule ^^ n) s) (rotate n rs)" using assms by (rule rotation_steps)
  then have "process_get_current ((reschedule ^^ n) s) = hd (rotate n rs)" by (simp add: rotation_def)
  moreover have "rs \<noteq> []" using assms by (auto simp: rotation_def)
  ultimately show ?thesis using r by (simp add: hd_rotate_conv_nth)
qed

theorem round_robin_witness:
  "process_get_current ((reschedule ^^ 5) sched_demo) = 0x200 \<and> process_get_current ((reschedule ^^ 6) sched_demo) = 0x100"
proof -
  have "rotation sched_demo [0x100, 0x200]" by (simp add: rotation_def sched_demo_facts)
  from round_robin [OF this, of 5] round_robin [OF this, of 6] show ?thesis
    by (simp add: numeral_2_eq_2 [symmetric])
qed

text \<open>
  a lone process loses the processor.  When the running process is the only runnable one, the
  next scheduling decision leaves it running but marked READY and outside the queue; the decision
  after that switches to the process in slot 0 of the table, and the lone process never runs
  again, however often the scheduler is called.
\<close>

theorem lone_process_starves:
  assumes "scheduler_enabled s" "queue s []" "process_get_current s = c" "c \<noteq> 0"
    and "pstate (procs s c) = PROCESS_STATE_RUNNING" and "process_table s ! 0 = d" "d \<noteq> 0" "d \<noteq> c"
  shows "process_get_current (reschedule s) = c \<and> pstate (procs (reschedule s) c) = PROCESS_STATE_READY \<and>
    queue (reschedule s) [] \<and> process_get_current ((reschedule ^^ (n + 2)) s) = d"
proof -
  have c1: "chosen (ready_list c (pstate (procs s c)) []) (process_table s ! 0) = c"
    by (simp add: assms(5) ready_list_def chosen_def)
  obtain s1 where s1: "schedule s = (False, s1)"
    "queue s1 []" "process_get_current s1 = c" "pstate (procs s1 c) = PROCESS_STATE_READY"
    "process_table s1 = process_table s" "scheduler_enabled s1"
    by (rule schedule_stays [OF assms(1-3) _ assms(4) c1], simp, rule that)
      (simp_all add: assms(5) ready_list_def preempted_def)
  have c2: "chosen (ready_list c (pstate (procs s1 c)) []) (process_table s1 ! 0) = d"
    using assms(6) by (simp add: s1 ready_list_def chosen_def)
  obtain s2 where s2: "schedule s1 = (True, s2)"
    "queue s2 []" "current_process s2 = d" "process_table s2 = process_table s1" "scheduler_enabled s2"
    by (rule schedule_switches [OF s1(6,2,3) _ assms(4) c2 assms(8)], simp, rule that)
      (simp_all add: s1(4) ready_list_def)
  have "only_idle d s2" using s2 s1(5) assms(6,7) by (simp add: only_idle_def process_get_current_def)
  then have "only_idle d ((reschedule ^^ n) s2)" by (rule only_idle_steps)
  moreover have "(reschedule ^^ (n + 2)) s = (reschedule ^^ n) s2"
  proof -
    have "(reschedule ^^ 2) s = s2" using s1(1) s2(1) by (simp add: reschedule_def numeral_2_eq_2)
    then show ?thesis by (simp only: funpow_add o_apply)
  qed
  ultimately have "process_get_current ((reschedule ^^ (n + 2)) s) = d" by (simp add: only_idle_def)
  with s1 show ?thesis by (simp add: reschedule_def)
qed

theorem lone_process_starves_witness:
  "let s = kproc_boot\<lparr>current_process := 0x100, scheduler_enabled := True, process_table := (replicate 64 0)[0 := 0x9000],
       procs := (\<lambda>_. zero_process)(0x100 := zero_process\<lparr>pstate := PROCESS_STATE_RUNNING\<rparr>)\<rparr>
   in process_get_current s = 0x100 \<and> process_get_current ((reschedule ^^ (98 + 2)) s) = 0x9000"
proof -
  let ?s = "kproc_boot\<lparr>current_process := 0x100, scheduler_enabled := True, process_table := (replicate 64 0)[0 := 0x9000],
       procs := (\<lambda>_. zero_process)(0x100 := zero_process\<lparr>pstate := PROCESS_STATE_RUNNING\<rparr>)\<rparr>"
  have c: "process_get_current ?s = 0x100" by (simp add: process_get_current_def)
  have "queue ?s []" by (simp add: queue_def kproc_boot_simps)
  from lone_process_starves [OF _ this c, of "0x9000" 98] c show ?thesis unfolding Let_def by simp
qed

section \<open>Time slices\<close>

lemma scheduler_tick_counts:
  assumes "scheduler_enabled s" "process_get_current s = c" "c \<noteq> 0" "1 < ticks_remaining (procs s c)"
  shows "scheduler_tick s = (False, upd_proc c
    (\<lambda>p. p\<lparr>ticks_total := ticks_total p + 1, ticks_remaining := ticks_remaining p - 1\<rparr>) s)"
proof -
  have "0 < ticks_remaining (procs s c)" "ticks_remaining (procs s c) - 1 \<noteq> 0"
    using assms(4) by (auto simp: word_less_nat_alt)
  with assms(1-3) show ?thesis by (simp add: scheduler_tick_def Let_def) (simp add: upd_proc_def)
qed

definition tick :: "'a kproc_scheme \<Rightarrow> 'a kproc_scheme" where
  "tick s = snd (scheduler_tick s)"

lemma ticks_count:
  assumes "scheduler_enabled s" "process_get_current s = c" "c \<noteq> 0" "k < unat (ticks_remaining (procs s c))"
  shows "(tick ^^ k) s = upd_proc c
    (\<lambda>p. p\<lparr>ticks_total := ticks_total p + of_nat k, ticks_remaining := ticks_remaining p - of_nat k\<rparr>) s"
  using assms(4)
proof (induction k)
  case 0
  show ?case by (simp add: upd_proc_def)
next
  case (Suc k)
  let ?s = "upd_proc c (\<lambda>p. p\<lparr>ticks_total := ticks_total p + of_nat k, ticks_remaining := ticks_remaining p - of_nat k\<rparr>) s"
  have "k < 18446744073709551616" using Suc.prems unat_less_64 [of "ticks_remaining (procs s c)"] by linarith
  then have k: "unat (of_nat k :: u64) = k" by (rule unat_of_nat_64)
  then have le: "of_nat k \<le> ticks_remaining (procs s c)" using Suc.prems by (simp add: word_le_nat_alt)
  with k have "unat (ticks_remaining (procs s c) - of_nat k) = unat (ticks_remaining (procs s c)) - k"
    by (simp add: unat_sub)
  then have r: "1 < ticks_remaining (procs ?s c)" using Suc.prems by (simp add: word_less_nat_alt)
  have "scheduler_enabled ?s" "process_get_current ?s = c"
    using assms(1,2) by (auto simp: process_get_current_def)
  from scheduler_tick_counts [OF this assms(3) r] have "tick ?s = upd_proc c (\<lambda>p. p\<lparr>ticks_total := ticks_total p + 1, ticks_remaining := ticks_remaining p - 1\<rparr>) ?s"
    unfolding tick_def by (rule ssubst) (rule snd_conv)
  also have "\<dots> = upd_proc c (\<lambda>p. p\<lparr>ticks_total := ticks_total p + of_nat (Suc k), ticks_remaining := ticks_remaining p - of_nat (Suc k)\<rparr>) s"
    by (simp add: upd_proc_def algebra_simps)
  finally show ?case using Suc by simp
qed

text \<open>
  Time slices.  A running process keeps the processor for exactly the ticks it has left: each
  earlier tick only counts, and the last one resets the slice to 10 ticks and schedules.
\<close>

theorem time_slice:
  assumes "scheduler_enabled s" "process_get_current s = c" "c \<noteq> 0"
    and "unat (ticks_remaining (procs s c)) = Suc n"
  shows "(\<forall>k \<le> n. (tick ^^ k) s = upd_proc c (\<lambda>p. p\<lparr>ticks_total := ticks_total p + of_nat k,
        ticks_remaining := ticks_remaining p - of_nat k\<rparr>) s) \<and>
    scheduler_tick ((tick ^^ n) s) = schedule (upd_proc c (\<lambda>p. p\<lparr>ticks_total := ticks_total p + of_nat (Suc n),
        ticks_remaining := DEFAULT_QUANTUM\<rparr>) s)"
proof
  show "\<forall>k \<le> n. (tick ^^ k) s = upd_proc c (\<lambda>p. p\<lparr>ticks_total := ticks_total p + of_nat k,
        ticks_remaining := ticks_remaining p - of_nat k\<rparr>) s"
    using ticks_count [OF assms(1-3)] assms(4) by simp
  let ?s = "upd_proc c (\<lambda>p. p\<lparr>ticks_total := ticks_total p + of_nat n, ticks_remaining := ticks_remaining p - of_nat n\<rparr>) s"
  have n: "(tick ^^ n) s = ?s" using ticks_count [OF assms(1-3)] assms(4) by simp
  have "ticks_remaining (procs s c) = of_nat (unat (ticks_remaining (procs s c)))" by simp
  then have "ticks_remaining (procs s c) = of_nat (Suc n)" unfolding assms(4) .
  then have "ticks_remaining (procs ?s c) = 1" by simp
  moreover have "scheduler_enabled ?s" "process_get_current ?s = c"
    using assms(1,2) by (auto simp: process_get_current_def)
  ultimately show "scheduler_tick ((tick ^^ n) s) = schedule (upd_proc c (\<lambda>p. p\<lparr>ticks_total := ticks_total p + of_nat (Suc n),
        ticks_remaining := DEFAULT_QUANTUM\<rparr>) s)"
    unfolding n using assms(3) by (simp add: scheduler_tick_def Let_def) (simp add: upd_proc_def algebra_simps)
qed

theorem time_slice_witness:
  "let s = kproc_boot\<lparr>current_process := 0x100, scheduler_enabled := True,
       procs := (\<lambda>_. zero_process)(0x100 := zero_process\<lparr>ticks_remaining := 10\<rparr>)\<rparr>
   in process_get_current ((tick ^^ 9) s) = 0x100 \<and> ticks_remaining (procs ((tick ^^ 9) s) 0x100) = 1"
proof -
  let ?s = "kproc_boot\<lparr>current_process := 0x100, scheduler_enabled := True,
       procs := (\<lambda>_. zero_process)(0x100 := zero_process\<lparr>ticks_remaining := 10\<rparr>)\<rparr>"
  have c: "process_get_current ?s = 0x100" by (simp add: process_get_current_def)
  have "(tick ^^ 9) ?s = upd_proc 0x100 (\<lambda>p. p\<lparr>ticks_total := ticks_total p + of_nat 9,
        ticks_remaining := ticks_remaining p - of_nat 9\<rparr>) ?s"
    using time_slice [OF _ c, of 9] by simp
  with c show ?thesis unfolding Let_def by (auto simp: process_get_current_def)
qed

section \<open>Switching away and back\<close>

text \<open>The registers a call leaves when its callee returns with \<open>ret\<close>.\<close>

definition returned :: "'a kproc_scheme \<Rightarrow> context_t" where
  "returned s = (cpu s)\<lparr>rip := load64 (phys_mem s) (rsp (cpu s)), rsp := rsp (cpu s) + 8\<rparr>"

text \<open>
  A process that is switched away from and later resumed continues at the return address of
  its call with all saved registers and flags as they were, except for the stack pointer: it is 8
  bytes below its value after an ordinary return, since the return address is jumped to and never
  popped.
\<close>

theorem context_switch_resume:
  assumes "a \<noteq> 0" "b \<noteq> 0" "a \<noteq> b"
    and "pcontext (procs t a) = pcontext (procs (context_switch a b s) a)"
  shows "cpu (context_switch b a t) = (returned s)\<lparr>rsp := rsp (returned s) - 8\<rparr> \<and>
    rsp (cpu (context_switch b a t)) \<noteq> rsp (returned s)"
proof -
  have "cpu (context_switch b a t) = (cpu s)\<lparr>rip := load64 (phys_mem s) (rsp (cpu s))\<rparr>"
    using assms by (simp add: context_switch_contexts)
  then show ?thesis by (simp add: returned_def)
qed

theorem context_switch_resume_witness:
  "rsp (cpu (context_switch 0x200 0x100 (context_switch 0x100 0x200 kproc_boot))) = 0 \<and> rsp (returned kproc_boot) = 8"
proof -
  have "rsp (returned kproc_boot) = 8" by (simp add: returned_def kproc_boot_simps zero_context_def)
  with context_switch_resume [of "0x100" "0x200" "context_switch 0x100 0x200 kproc_boot" kproc_boot]
  show ?thesis by simp
qed

end
