(* ===== verification/Heap_Objects.thy ===== *)
theory Heap_Objects
  imports Kmalloc
begin

text \<open>
  The kernel heap as its clients see it: a set of live objects (address and size), none of which
  overlap, and an amount of room.  The contract says that an allocation within the room returns
  an object that is disjoint from all live ones, that releasing a live object returns, and that
  neither touches anything but the heap.  It is discharged here for \<open>kmalloc\<close> and \<open>kfree\<close>; the
  process and file components build on it.
\<close>

section \<open>The contract\<close>

text \<open>The bytes of the objects \<open>A\<close> are the same in both memories.\<close>

definition same_contents :: "(nat \<times> nat) set \<Rightarrow> pmem \<Rightarrow> pmem \<Rightarrow> bool" where
  "same_contents A m m' \<longleftrightarrow> (\<forall>(q, k) \<in> A. \<forall>x. q \<le> unat x \<and> unat x < q + k \<longrightarrow> m' x = m x)"

lemma same_contents_trans: "same_contents A m m' \<Longrightarrow> same_contents A m' m'' \<Longrightarrow> same_contents A m m''"
  unfolding same_contents_def by fastforce

lemma same_contents_mono: "same_contents A m m' \<Longrightarrow> B \<subseteq> A \<Longrightarrow> same_contents B m m'"
  unfolding same_contents_def by blast

locale object_allocator =
  fixes holds :: "'s \<Rightarrow> (nat \<times> nat) set \<Rightarrow> nat \<Rightarrow> bool" and limit :: nat
    and mem :: "'s \<Rightarrow> pmem" and frame :: "'s \<Rightarrow> 's \<Rightarrow> bool"
    and alloc :: "u64 \<Rightarrow> 's \<Rightarrow> (u64 \<times> 's) res" and release :: "u64 \<Rightarrow> 's \<Rightarrow> 's res"
  assumes live_bound: "holds s A r \<Longrightarrow> (p, n) \<in> A \<Longrightarrow> 0 < p \<and> p + n \<le> limit"
    and limit_word: "limit < 2 ^ 64"
    and alloc_ok: "holds s A (align8 (unat sz) + 24 + r) \<Longrightarrow> 16 \<le> r \<Longrightarrow> unat sz \<le> limit \<Longrightarrow>
      \<exists>p n s'. alloc sz s = Inr (of_nat p, s') \<and> unat sz \<le> n \<and>
        (\<forall>(q, k) \<in> A. p + n < q \<or> q + k < p) \<and> holds s' (insert (p, n) A) r \<and> frame s s' \<and>
        same_contents A (mem s) (mem s')"
    and release_ok: "holds s A r \<Longrightarrow> (p, n) \<in> A \<Longrightarrow>
      \<exists>s'. release (of_nat p) s = Inr s' \<and> holds s' (A - {(p, n)}) r \<and> frame s s' \<and>
        same_contents A (mem s) (mem s')"
    and frame_trans: "frame s s' \<Longrightarrow> frame s' s'' \<Longrightarrow> frame s s''"
begin

lemma alloc_fresh:
  assumes "holds s A (align8 (unat sz) + 24 + r)" "16 \<le> r" "unat sz \<le> limit"
  obtains p n s' where "alloc sz s = Inr (of_nat p, s')" "unat sz \<le> n" "p \<notin> fst ` A"
    "holds s' (insert (p, n) A) r" "frame s s'" "0 < p" "p + n \<le> limit" "(of_nat p :: u64) \<noteq> 0"
    "unat (of_nat p :: u64) = p" "same_contents A (mem s) (mem s')" "\<forall>(q, k) \<in> A. p + n < q \<or> q + k < p"
proof -
  obtain p n s' where *: "alloc sz s = Inr (of_nat p, s')" "unat sz \<le> n"
      "\<forall>(q, k) \<in> A. p + n < q \<or> q + k < p" "holds s' (insert (p, n) A) r" "frame s s'"
      "same_contents A (mem s) (mem s')"
    using alloc_ok [OF assms] by blast
  have b: "0 < p" "p + n \<le> limit" using live_bound [OF *(4)] by auto
  have "p < 2 ^ 64" using b limit_word by linarith
  then have u: "unat (of_nat p :: u64) = p" by (simp add: unat_of_nat_64)
  then have "(of_nat p :: u64) \<noteq> 0" using b(1) by auto
  moreover have "p \<notin> fst ` A" using *(3) by force
  ultimately show ?thesis using * b u by (intro that) auto
qed

text \<open>Allocating and releasing at once gives back the same live objects.\<close>

lemma alloc_release:
  assumes "holds s A (align8 (unat sz) + 24 + r)" "16 \<le> r" "unat sz \<le> limit"
  obtains p s' s'' where "alloc sz s = Inr (p, s')" "release p s' = Inr s''" "holds s'' A r" "frame s s''"
    "same_contents A (mem s) (mem s'')"
proof -
  obtain p n s' where *: "alloc sz s = Inr (of_nat p, s')" "p \<notin> fst ` A" "holds s' (insert (p, n) A) r" "frame s s'"
    "same_contents A (mem s) (mem s')"
    by (rule alloc_fresh [OF assms]) (rule that)
  from release_ok [OF *(3)] obtain s'' where r: "release (of_nat p) s' = Inr s''"
    "holds s'' (insert (p, n) A - {(p, n)}) r" "frame s' s''" "same_contents (insert (p, n) A) (mem s') (mem s'')" by blast
  have "same_contents A (mem s) (mem s'')"
    using same_contents_trans [OF *(5) same_contents_mono [OF r(4)]] by blast
  moreover have "insert (p, n) A - {(p, n)} = A" using *(2) by force
  ultimately show ?thesis using that [OF *(1) r(1) _ frame_trans [OF *(4) r(3)]] r(2) by simp
qed

end

section \<open>The live objects of the block list\<close>

fun objects_from :: "nat \<Rightarrow> (nat \<times> bool) list \<Rightarrow> (nat \<times> nat) set" where
  "objects_from a [] = {}"
| "objects_from a ((n, f) # bs) = (if f then {} else {(a + 24, n)}) \<union> objects_from (a + 24 + n) bs"

lemma objects_append [simp]:
  "objects_from a (bs @ cs) = objects_from a bs \<union> objects_from (blocks_end a bs) cs"
  by (induction a bs rule: objects_from.induct) auto

lemma objects_bounds: "(p, n) \<in> objects_from a bs \<Longrightarrow> a + 24 \<le> p \<and> p + n \<le> blocks_end a bs"
proof (induction a bs rule: objects_from.induct)
  case (2 a k f bs)
  then show ?case using blocks_end_ge [of "a + 24 + k" bs] by (auto split: if_splits)
qed simp

lemma objects_merge [simp]: "objects_from a (merge bs) = objects_from a bs"
proof (induction bs arbitrary: a rule: merge.induct)
  case (3 b c bs)
  then show ?case by (cases b, cases c) (auto simp: algebra_simps)
qed simp_all

lemma objects_alloc_split:
  "objects_from b (alloc_split k n) = {(b + 24, if k + 40 \<le> n then k else n)}"
  by (simp add: alloc_split_def)

lemma objects_apart_headers:
  "(p, n) \<in> objects_from a bs \<Longrightarrow> h \<in> set (block_addrs a bs) \<Longrightarrow> h + 24 \<le> p \<or> p + n \<le> h"
proof (induction a bs rule: objects_from.induct)
  case (2 a k f bs)
  then show ?case
    using objects_bounds [of p n "a + 24 + k" bs] block_addrs_bounds [of h "a + 24 + k" bs]
    by (auto split: if_splits)
qed simp

lemma object_split:
  assumes "(p, n) \<in> objects_from a bs"
  obtains pre post where "bs = pre @ (n, False) # post" "p = blocks_end a pre + 24"
  using assms
proof (induction a bs arbitrary: thesis rule: objects_from.induct)
  case (2 a k f bs)
  show ?case
  proof (cases "(p, n) \<in> objects_from (a + 24 + k) bs")
    case True
    then obtain pre post where "bs = pre @ (n, False) # post" "p = blocks_end (a + 24 + k) pre + 24"
      using "2.IH" by blast
    then show ?thesis using "2.prems"(1) [of "(k, f) # pre" post] by simp
  next
    case False
    then have "\<not> f" "p = a + 24" "n = k" using "2.prems"(2) by (auto split: if_splits)
    then show ?thesis using "2.prems"(1) [of "[]" bs] by simp
  qed
qed simp

lemma merge_room: "(n, True) \<in> set bs \<Longrightarrow> \<exists>k \<ge> n. (k, True) \<in> set (merge bs)"
proof (induction bs arbitrary: n rule: merge.induct)
  case (3 b c bs)
  show ?case
  proof (cases "snd b \<and> snd c")
    case True
    have "(n, True) \<in> set bs \<or> n \<le> fst b + 24 + fst c" using "3.prems" by auto
    then obtain k where k: "n \<le> k" "(k, True) \<in> set ((fst b + 24 + fst c, True) # bs)" by auto
    from "3.IH"(1) [OF True k(2)] obtain j where "k \<le> j" "(j, True) \<in> set (merge ((fst b + 24 + fst c, True) # bs))"
      by blast
    with True k(1) show ?thesis by (intro exI [of _ j]) simp
  next
    case False
    then show ?thesis using "3.IH"(2) [OF False] "3.prems" by auto
  qed
qed auto

section \<open>The kernel heap meets the contract\<close>

text \<open>
  \<open>heap_objects s A r\<close>: the live objects are \<open>A\<close> and some free block has at least \<open>r\<close> bytes.
\<close>

definition heap_objects :: "'a kheap_scheme \<Rightarrow> (nat \<times> nat) set \<Rightarrow> nat \<Rightarrow> bool" where
  "heap_objects s A r \<longleftrightarrow> (A = {} \<or> heap_initialized s) \<and>
     (\<exists>bs. heap_inv s bs \<and> A = objects_from HEAP_BASE bs \<and> (\<exists>n. (n, True) \<in> set bs \<and> r \<le> n))"

definition heap_frame :: "'a kheap_scheme \<Rightarrow> 'a kheap_scheme \<Rightarrow> bool" where
  "heap_frame s s' \<longleftrightarrow> (\<exists>m h i ta tf ac. s' = s\<lparr>phys_mem := m, head := h, heap_initialized := i,
     total_allocated := ta, total_free := tf, allocation_count := ac\<rparr>)"

lemma heap_frame_trans: "heap_frame s s' \<Longrightarrow> heap_frame s' s'' \<Longrightarrow> heap_frame s s''"
  by (fastforce simp: heap_frame_def)

lemma heap_frame_mem: "heap_frame s (s\<lparr>phys_mem := m\<rparr>)"
proof -
  have "s\<lparr>phys_mem := m\<rparr> = s\<lparr>phys_mem := m, head := head s, heap_initialized := heap_initialized s,
     total_allocated := total_allocated s, total_free := total_free s, allocation_count := allocation_count s\<rparr>"
    by simp
  then show ?thesis unfolding heap_frame_def by blast
qed

lemma heap_frame_ready:
  assumes "s' = (heap_ready s)\<lparr>phys_mem := m, total_allocated := ta, total_free := tf, allocation_count := ac\<rparr>"
  shows "heap_frame s s'"
proof -
  have "s' = s\<lparr>phys_mem := m, head := head (heap_ready s), heap_initialized := heap_initialized (heap_ready s),
     total_allocated := ta, total_free := tf, allocation_count := ac\<rparr>"
    using assms by (simp add: heap_ready_def init_heap_def)
  then show ?thesis unfolding heap_frame_def by blast
qed

lemma heap_inv_end: "heap_inv s bs \<Longrightarrow> blocks_end HEAP_BASE bs = HEAP_END"
  by (simp add: heap_inv_def heap_state_def heap_rep_def)

lemma heap_state_inv: "heap_state s bs \<Longrightarrow> heap_inv s bs \<and> heap_initialized s"
  by (simp add: heap_inv_def heap_ready_def heap_state_def)

lemma kmalloc_object:
  assumes "heap_objects s A (align8 (unat sz) + 24 + r)" "16 \<le> r" "unat sz \<le> HEAP_END"
  shows "\<exists>p n s'. kmalloc sz s = Inr (of_nat p, s') \<and> unat sz \<le> n \<and>
    (\<forall>(q, k) \<in> A. p + n < q \<or> q + k < p) \<and> heap_objects s' (insert (p, n) A) r \<and> heap_frame s s' \<and>
    same_contents A (phys_mem s) (phys_mem s')"
proof -
  let ?k = "align8 (unat sz)"
  obtain bs n0 where inv: "heap_inv s bs" and A: "A = objects_from HEAP_BASE bs"
    and room: "(n0, True) \<in> set bs" "?k + 24 + r \<le> n0" using assms(1) unfolding heap_objects_def by blast
  have "\<not> (\<forall>b \<in> set bs. \<not> fits ?k b)" using room by (force simp: fits_def)
  then obtain pre n post where bs: "bs = pre @ (n, True) # post" "?k \<le> n" "\<forall>b \<in> set pre. \<not> fits ?k b"
    by (rule first_fit_split)
  have nw: "unat sz + 7 < 18446744073709551616" using assms(3) by simp
  let ?b = "blocks_end HEAP_BASE pre" and ?n = "if ?k + 40 \<le> n then ?k else n"
  let ?bs = "pre @ alloc_split ?k n @ post"
  obtain s' where s': "kmalloc sz s = Inr (of_nat (?b + 24), s')" "heap_state s' ?bs"
    "\<And>x. unat x < ?b \<or> ?b + 24 + n \<le> unat x \<Longrightarrow> phys_mem s' x = phys_mem (heap_ready s) x"
    "\<exists>m ta tf ac. s' = (heap_ready s)\<lparr>phys_mem := m, total_allocated := ta, total_free := tf, allocation_count := ac\<rparr>"
    by (rule kmalloc_spec [OF inv nw bs]) (rule that)
  have sz: "unat sz \<le> ?k" by (rule align8_props(2))
  have "objects_from HEAP_BASE ?bs = insert (?b + 24, ?n) A"
    unfolding A bs(1) using alloc_split_end [OF bs(2), of ?b "[]"] by (auto simp: objects_alloc_split)
  moreover have "\<exists>j. (j, True) \<in> set ?bs \<and> r \<le> j"
  proof (cases "(n0, True) \<in> set pre \<union> set post")
    case True
    then show ?thesis using room(2) by (intro exI [of _ n0]) auto
  next
    case False
    then have "n0 = n" using room(1) bs(1) by auto
    then have "?k + 40 \<le> n" "r \<le> n - ?k - 24" using room(2) assms(2) by auto
    then show ?thesis by (intro exI [of _ "n - ?k - 24"]) (simp add: alloc_split_def)
  qed
  ultimately have "heap_objects s' (insert (?b + 24, ?n) A) r"
    using heap_state_inv [OF s'(2)] unfolding heap_objects_def by blast
  moreover have "?b + 24 + ?n < q \<or> q + k < ?b + 24" if "(q, k) \<in> A" for q k
  proof -
    have "(q, k) \<in> objects_from HEAP_BASE pre \<or> (q, k) \<in> objects_from (?b + 24 + n) post"
      using that unfolding A bs(1) by auto
    then show ?thesis using objects_bounds [of q k HEAP_BASE pre] objects_bounds [of q k "?b + 24 + n" post] bs(2) by auto
  qed
  moreover have "heap_frame s s'" using s'(4) heap_frame_ready by blast
  moreover have "same_contents A (phys_mem s) (phys_mem s')"
  proof (cases "A = {}")
    case False
    then have "heap_ready s = s" using assms(1) by (auto simp: heap_objects_def heap_ready_def)
    moreover have "unat x < ?b \<or> ?b + 24 + n \<le> unat x" if "(q, k) \<in> A" "q \<le> unat x" "unat x < q + k" for q k x
    proof -
      have "(q, k) \<in> objects_from HEAP_BASE pre \<or> (q, k) \<in> objects_from (?b + 24 + n) post"
        using that unfolding A bs(1) by auto
      then show ?thesis
        using objects_bounds [of q k HEAP_BASE pre] objects_bounds [of q k "?b + 24 + n" post] that by auto
    qed
    ultimately show ?thesis using s'(3) unfolding same_contents_def by auto
  qed (simp add: same_contents_def)
  moreover have "unat sz \<le> ?n" using sz bs(2) by simp
  ultimately have "kmalloc sz s = Inr (of_nat (?b + 24), s') \<and> unat sz \<le> ?n \<and>
    (\<forall>(q, k) \<in> A. ?b + 24 + ?n < q \<or> q + k < ?b + 24) \<and> heap_objects s' (insert (?b + 24, ?n) A) r \<and> heap_frame s s' \<and>
    same_contents A (phys_mem s) (phys_mem s')"
    using s'(1) by blast
  then show ?thesis by blast
qed

lemma kfree_object:
  assumes "heap_objects s A r" "(p, n) \<in> A"
  shows "\<exists>s'. kfree (of_nat p) s = Inr s' \<and> heap_objects s' (A - {(p, n)}) r \<and> heap_frame s s' \<and>
    same_contents A (phys_mem s) (phys_mem s')"
proof -
  obtain bs n0 where inv: "heap_inv s bs" and A: "A = objects_from HEAP_BASE bs" and init: "heap_initialized s"
    and room: "(n0, True) \<in> set bs" "r \<le> n0" using assms unfolding heap_objects_def by blast
  obtain pre post where bs: "bs = pre @ (n, False) # post" "p = blocks_end HEAP_BASE pre + 24"
    using assms(2) unfolding A by (rule object_split)
  have st: "heap_state s bs" using inv init by (simp add: heap_inv_def heap_ready_def)
  obtain s' where s': "kfree (of_nat p) s = Inr s'" "heap_state s' (merge (pre @ (n, True) # post))"
    "only_headers (set (block_addrs HEAP_BASE bs)) (phys_mem s) (phys_mem s')"
    "\<exists>m ta tf ac. s' = s\<lparr>phys_mem := m, total_allocated := ta, total_free := tf, allocation_count := ac\<rparr>"
    by (rule kfree_spec [OF st bs(1), folded bs(2)]) (rule that)
  let ?b = "blocks_end HEAP_BASE pre"
  have "(p, n) \<notin> objects_from HEAP_BASE pre" "(p, n) \<notin> objects_from (?b + 24 + n) post"
    using objects_bounds [of p n HEAP_BASE pre] objects_bounds [of p n "?b + 24 + n" post] unfolding bs(2) by auto
  then have "objects_from HEAP_BASE (merge (pre @ (n, True) # post)) = A - {(p, n)}"
    unfolding A bs by auto
  moreover have "\<exists>j. (j, True) \<in> set (merge (pre @ (n, True) # post)) \<and> r \<le> j"
    using merge_room [of n0 "pre @ (n, True) # post"] room bs(1) by (auto intro: le_trans)
  ultimately have "heap_objects s' (A - {(p, n)}) r"
    using heap_state_inv [OF s'(2)] unfolding heap_objects_def by metis
  moreover have "heap_frame s s'"
    using s'(4) heap_frame_ready [where s = s] init by (auto simp: heap_ready_def)
  moreover have "same_contents A (phys_mem s) (phys_mem s')"
    unfolding same_contents_def
  proof (clarify)
    fix q k and x :: u64 assume q: "(q, k) \<in> A" "q \<le> unat x" "unat x < q + k"
    have "unat x < h \<or> h + 24 \<le> unat x" if "h \<in> set (block_addrs HEAP_BASE bs)" for h
      using objects_apart_headers [OF q(1) [unfolded A] that] q(2,3) by linarith
    with s'(3) show "phys_mem s' x = phys_mem s x" by (simp add: only_headers_def)
  qed
  ultimately show ?thesis using s'(1) by blast
qed

interpretation heap: object_allocator heap_objects HEAP_END phys_mem heap_frame kmalloc kfree
proof
  fix s :: "'a kheap_scheme" and A r p n
  assume "heap_objects s A r" "(p, n) \<in> A"
  then obtain bs where "heap_inv s bs" "(p, n) \<in> objects_from HEAP_BASE bs" by (auto simp: heap_objects_def)
  then show "0 < p \<and> p + n \<le> HEAP_END" using objects_bounds heap_inv_end by fastforce
next
  show "\<exists>p n s'. kmalloc sz s = Inr (of_nat p, s') \<and> unat sz \<le> n \<and>
      (\<forall>(q, k) \<in> A. p + n < q \<or> q + k < p) \<and> heap_objects s' (insert (p, n) A) r \<and> heap_frame s s' \<and>
      same_contents A (phys_mem s) (phys_mem s')"
    if "heap_objects s A (align8 (unat sz) + 24 + r)" "16 \<le> r" "unat sz \<le> HEAP_END"
    for s :: "'a kheap_scheme" and A sz r using that by (rule kmalloc_object)
  show "\<exists>s'. kfree (of_nat p) s = Inr s' \<and> heap_objects s' (A - {(p, n)}) r \<and> heap_frame s s' \<and>
    same_contents A (phys_mem s) (phys_mem s')"
    if "heap_objects s A r" "(p, n) \<in> A" for s :: "'a kheap_scheme" and A r p n using that by (rule kfree_object)
  show "heap_frame s s''" if "heap_frame s s'" "heap_frame s' s''" for s s' s'' :: "'a kheap_scheme"
    using that by (rule heap_frame_trans)
qed simp

section \<open>Writing into live objects\<close>

lemma heap_objects_write:
  assumes "heap_objects s A r" "(p, n) \<in> A" "\<And>x. unat x < p \<or> p + n \<le> unat x \<Longrightarrow> m x = phys_mem s x"
  shows "heap_objects (s\<lparr>phys_mem := m\<rparr>) A r"
proof -
  obtain bs n0 where inv: "heap_inv s bs" and A: "A = objects_from HEAP_BASE bs" and init: "heap_initialized s"
    and room: "(n0, True) \<in> set bs" "r \<le> n0" using assms unfolding heap_objects_def by blast
  have st: "heap_state s bs" using inv init by (simp add: heap_inv_def heap_ready_def)
  then have rep: "heap_seg (phys_mem s) HEAP_BASE bs 0" "blocks_end HEAP_BASE bs = HEAP_END"
    by (simp_all add: heap_state_def heap_rep_def)
  have "heap_seg m HEAP_BASE bs 0"
  proof (rule heap_seg_cong [OF rep(1)])
    fix h assume h: "h \<in> set (block_addrs HEAP_BASE bs)"
    have he: "h + 24 \<le> HEAP_END" using block_addrs_bounds [OF h] rep(2) by simp
    have byte: "m (of_nat h + of_nat i) = phys_mem s (of_nat h + of_nat i)" if "i < 24" for i
    proof -
      have "unat (of_nat (h + i) :: u64) = h + i" using he that by (intro of_nat_heap_addr) simp
      then show ?thesis
        using assms(3) [of "of_nat (h + i)"] objects_apart_headers [OF assms(2) [unfolded A] h] that by auto
    qed
    have "blk_size m (of_nat h) = blk_size (phys_mem s) (of_nat h)"
      unfolding blk_size_def by (rule load64_bytes_cong) (use byte in simp)
    moreover have "blk_next m (of_nat h) = blk_next (phys_mem s) (of_nat h)"
      unfolding blk_next_def
    proof (rule load64_bytes_cong)
      fix i :: nat assume "i < 8"
      then show "m (of_nat h + 8 + of_nat i) = phys_mem s (of_nat h + 8 + of_nat i)"
        using byte [of "8 + i"] by (simp add: add.assoc)
    qed
    moreover have "blk_free m (of_nat h) = blk_free (phys_mem s) (of_nat h)"
      unfolding blk_free_def using byte [of 16] by simp
    ultimately show "blk_size m (of_nat h) = blk_size (phys_mem s) (of_nat h) \<and>
        blk_next m (of_nat h) = blk_next (phys_mem s) (of_nat h) \<and> blk_free m (of_nat h) = blk_free (phys_mem s) (of_nat h)"
      by blast
  qed
  then have "heap_inv (s\<lparr>phys_mem := m\<rparr>) bs"
    using st rep(2) by (simp add: heap_inv_def heap_ready_def heap_state_def heap_rep_def)
  with A room init show ?thesis unfolding heap_objects_def by auto
qed

text \<open>A state with the same heap variables and memory has the same objects.\<close>

lemma heap_objects_cong:
  assumes "phys_mem s' = phys_mem s" "head s' = head s" "heap_initialized s' = heap_initialized s"
    "total_allocated s' = total_allocated s" "total_free s' = total_free s" "allocation_count s' = allocation_count s"
  shows "heap_objects s' A r \<longleftrightarrow> heap_objects s A r"
  using assms by (simp add: heap_objects_def heap_inv_def heap_state_def heap_ready_def init_heap_def)

lemma heap_objects_room: "heap_objects s A r \<Longrightarrow> r' \<le> r \<Longrightarrow> heap_objects s A r'"
  unfolding heap_objects_def using le_trans [of r' r] by blast

lemma zero_bytes_apply:
  assumes "n \<le> 18446744073709551616"
  shows "zero_bytes a n m x = (if unat (x - a) < n then 0 else m x)"
  using assms
proof (induction n)
  case (Suc n)
  then have u: "unat (of_nat n :: u64) = n" by (simp add: unat_of_nat_64)
  have "x = a + of_nat n \<longleftrightarrow> unat (x - a) = n"
  proof
    assume "unat (x - a) = n"
    then have "x - a = of_nat n" using u by (metis of_nat_unat ucast_id)
    then show "x = a + of_nat n" by (simp add: algebra_simps)
  qed (simp add: u)
  with Suc show ?case by (auto simp: zero_bytes_def less_Suc_eq)
qed (simp add: zero_bytes_def)

lemma unat_diff_outside:
  fixes x :: u64
  assumes "unat x < p \<or> p + n \<le> unat x" "p + n \<le> HEAP_END"
  shows "n \<le> unat (x - of_nat p)"
proof -
  have "unat (of_nat p :: u64) = p" using assms(2) by (intro of_nat_heap_addr) simp
  then have "unat (x - of_nat p) = (if p \<le> unat x then unat x - p else unat x + 18446744073709551616 - p)"
    using unat_diff_64 [of x "of_nat p"] by metis
  with assms show ?thesis by auto
qed

lemma kzalloc_object:
  assumes "heap_objects s A (align8 (unat sz) + 24 + r)" "16 \<le> r" "unat sz \<le> HEAP_END"
  obtains p n s' where "kzalloc sz s = Inr (of_nat p, s')" "unat sz \<le> n" "p \<notin> fst ` A"
    "heap_objects s' (insert (p, n) A) r" "heap_frame s s'" "(of_nat p :: u64) \<noteq> 0" "unat (of_nat p :: u64) = p"
    "same_contents A (phys_mem s) (phys_mem s')" "\<forall>i < unat sz. phys_mem s' (of_nat (p + i)) = 0"
proof -
  obtain p n s1 where a: "kmalloc sz s = Inr (of_nat p, s1)" "unat sz \<le> n" "p \<notin> fst ` A"
    "heap_objects s1 (insert (p, n) A) r" "heap_frame s s1" "0 < p" "p + n \<le> HEAP_END" "(of_nat p :: u64) \<noteq> 0"
    "unat (of_nat p :: u64) = p" "same_contents A (phys_mem s) (phys_mem s1)" "\<forall>(q, k) \<in> A. p + n < q \<or> q + k < p"
    by (rule heap.alloc_fresh [OF assms]) (rule that)
  define m where "m = zero_bytes (of_nat p) (unat sz) (phys_mem s1)"
  have szb: "unat sz \<le> 18446744073709551616" using unat_less_64 [of sz] by linarith
  have out: "m x = phys_mem s1 x" if "unat x < p \<or> p + n \<le> unat x" for x :: u64
    using unat_diff_outside [OF that a(7)] a(2) zero_bytes_apply [OF szb, of "of_nat p" "phys_mem s1" x]
    by (simp add: m_def)
  show ?thesis
  proof (rule that)
    show "kzalloc sz s = Inr (of_nat p, s1\<lparr>phys_mem := m\<rparr>)" using a(1,8) by (simp add: kzalloc_def m_def)
    show "heap_objects (s1\<lparr>phys_mem := m\<rparr>) (insert (p, n) A) r" by (rule heap_objects_write [OF a(4)]) (use out in auto)
    show "heap_frame s (s1\<lparr>phys_mem := m\<rparr>)" using a(5) heap_frame_mem by (rule heap_frame_trans)
    have "same_contents A (phys_mem s1) m" using a(11) out unfolding same_contents_def by fastforce
    with a(10) show "same_contents A (phys_mem s) (phys_mem (s1\<lparr>phys_mem := m\<rparr>))"
      by (simp add: same_contents_trans)
    show "\<forall>i < unat sz. phys_mem (s1\<lparr>phys_mem := m\<rparr>) (of_nat (p + i)) = 0"
    proof (clarify)
      fix i assume i: "i < unat sz"
      have "unat (of_nat i :: u64) = i" using i unat_less_64 [of sz] by (intro unat_of_nat_64) linarith
      then show "phys_mem (s1\<lparr>phys_mem := m\<rparr>) (of_nat (p + i)) = 0"
        using i zero_bytes_apply [OF szb, of "of_nat p" "phys_mem s1" "of_nat (p + i)"] by (simp add: m_def)
    qed
  qed (use a in auto)
qed

lemma live_base: "heap_objects s A r \<Longrightarrow> (p, n) \<in> A \<Longrightarrow> HEAP_BASE < p"
  unfolding heap_objects_def using objects_bounds by fastforce

section \<open>Resizing\<close>

lemma object_size:
  assumes "heap_objects s A r" "(p, n) \<in> A"
  shows "blk_size (phys_mem s) (of_nat p - 24) = of_nat n"
proof -
  obtain bs where inv: "heap_inv s bs" and A: "A = objects_from HEAP_BASE bs" and init: "heap_initialized s"
    using assms unfolding heap_objects_def by blast
  obtain pre post where bs: "bs = pre @ (n, False) # post" "p = blocks_end HEAP_BASE pre + 24"
    using assms(2) unfolding A by (rule object_split)
  have "heap_rep (phys_mem s) (pre @ (n, False) # post)"
    using inv init bs(1) by (simp add: heap_inv_def heap_ready_def heap_state_def)
  from heap_rep_split(2) [OF this] show ?thesis by (simp add: bs(2))
qed

lemma live_disjoint:
  assumes "heap_objects s A r" "(p, n) \<in> A" "(q, k) \<in> A" "(p, n) \<noteq> (q, k)"
  shows "p + n < q \<or> q + k < p"
proof -
  obtain bs where "A = objects_from HEAP_BASE bs" using assms(1) unfolding heap_objects_def by blast
  then have pn: "(p, n) \<in> objects_from HEAP_BASE bs" and qk: "(q, k) \<in> objects_from HEAP_BASE bs" using assms by auto
  obtain pre post where bs: "bs = pre @ (n, False) # post" "p = blocks_end HEAP_BASE pre + 24"
    using pn by (rule object_split)
  have "(q, k) \<in> objects_from HEAP_BASE pre \<or> (q, k) \<in> objects_from (blocks_end HEAP_BASE pre + 24 + n) post"
    using qk assms(4) unfolding bs by auto
  then show ?thesis unfolding bs(2)
    using objects_bounds [of q k HEAP_BASE pre] objects_bounds [of q k "blocks_end HEAP_BASE pre + 24 + n" post] by auto
qed

lemma copy_object:
  fixes m :: pmem
  assumes "p + n < q \<or> q + n < p" "p + n \<le> HEAP_END" "q + n \<le> HEAP_END"
  shows "copy_bytes m (of_nat q) (of_nat p) n x = (if unat (x - of_nat q) < n then m (of_nat p + (x - of_nat q)) else m x)"
proof (rule copy_bytes_apply)
  show "n \<le> 18446744073709551616" using assms(2) by simp
  fix i j assume ij: "i < n" "j < n"
  have "unat (of_nat (q + i) :: u64) = q + i" "unat (of_nat (p + j) :: u64) = p + j"
    using assms ij by (intro of_nat_heap_addr; simp)+
  then have "(of_nat (q + i) :: u64) \<noteq> of_nat (p + j)" using assms(1) ij by fastforce
  then show "(of_nat q + of_nat i :: u64) \<noteq> of_nat p + of_nat j" by simp
qed

text \<open>
  Resizing.  When the new size fits into the block, \<open>krealloc\<close> returns the same pointer and
  changes nothing.  Otherwise it returns an object of at least the new size that begins with the
  old contents, the old object is released, and every other live object keeps its bytes.
\<close>

theorem krealloc_correct:
  assumes "heap_objects s A (align8 (unat sz) + 24 + r)" "16 \<le> r" "unat sz \<le> HEAP_END" "(p, n) \<in> A"
  shows "if unat sz \<le> n then krealloc (of_nat p) sz s = Inr (of_nat p, s)
    else \<exists>q k s'. krealloc (of_nat p) sz s = Inr (of_nat q, s') \<and> unat sz \<le> k \<and>
      heap_objects s' (insert (q, k) (A - {(p, n)})) r \<and>
      (\<forall>i < n. phys_mem s' (of_nat (q + i)) = phys_mem s (of_nat (p + i))) \<and>
      same_contents (A - {(p, n)}) (phys_mem s) (phys_mem s')"
proof -
  have pn: "0 < p" "p + n \<le> HEAP_END" using heap.live_bound [OF assms(1,4)] by simp_all
  have up: "unat (of_nat p :: u64) = p" "unat (of_nat n :: u64) = n" using pn by (auto intro: of_nat_heap_addr)
  have p0: "(of_nat p :: u64) \<noteq> 0" using up pn by auto
  note size = object_size [OF assms(1,4)]
  have le: "sz \<le> of_nat n \<longleftrightarrow> unat sz \<le> n" using up(2) by (simp add: word_le_nat_alt)
  show ?thesis
  proof (cases "unat sz \<le> n")
    case True
    then show ?thesis using p0 le by (simp add: krealloc_def Let_def size)
  next
    case False
    obtain q k s1 where a: "kmalloc sz s = Inr (of_nat q, s1)" "unat sz \<le> k" "q \<notin> fst ` A"
      "heap_objects s1 (insert (q, k) A) r" "heap_frame s s1" "0 < q" "q + k \<le> HEAP_END" "(of_nat q :: u64) \<noteq> 0"
      "unat (of_nat q :: u64) = q" "same_contents A (phys_mem s) (phys_mem s1)" "\<forall>(q', k') \<in> A. q + k < q' \<or> q' + k' < q"
      by (rule heap.alloc_fresh [OF assms(1-3)]) (rule that)
    have nk: "n < k" using False a(2) by simp
    define m where "m = copy_bytes (phys_mem s1) (of_nat q) (of_nat p) n"
    have dis: "p + n < q \<or> q + n < p" using a(11) assms(4) nk by auto
    have m: "m x = (if unat (x - of_nat q) < n then phys_mem s1 (of_nat p + (x - of_nat q)) else phys_mem s1 x)" for x
      unfolding m_def using copy_object [OF dis pn(2)] a(7) nk by simp
    have out: "m x = phys_mem s1 x" if "unat x < q \<or> q + k \<le> unat x" for x :: u64
      using unat_diff_outside [OF that a(7)] nk by (simp add: m)
    have h2: "heap_objects (s1\<lparr>phys_mem := m\<rparr>) (insert (q, k) A) r" by (rule heap_objects_write [OF a(4)]) (use out in auto)
    obtain s' where f: "kfree (of_nat p) (s1\<lparr>phys_mem := m\<rparr>) = Inr s'" "heap_objects s' (insert (q, k) A - {(p, n)}) r"
      "same_contents (insert (q, k) A) m (phys_mem s')"
      using heap.release_ok [OF h2, of p n] assms(4) by auto
    have "same_contents A (phys_mem s1) m" using a(11) out unfolding same_contents_def by fastforce
    then have keep: "same_contents A (phys_mem s) (phys_mem s')"
      using same_contents_trans [OF same_contents_trans [OF a(10)] same_contents_mono [OF f(3)]] by blast
    have "krealloc (of_nat p) sz s = Inr (of_nat q, s')"
      using p0 le False a(1,8) f(1) up(2) by (simp add: krealloc_def Let_def size m_def)
    moreover have "insert (q, k) A - {(p, n)} = insert (q, k) (A - {(p, n)})" using a(3) assms(4) by force
    moreover have "phys_mem s' (of_nat (q + i)) = phys_mem s (of_nat (p + i))" if "i < n" for i
    proof -
      have ui: "unat (of_nat (q + i) :: u64) = q + i" "unat (of_nat (p + i) :: u64) = p + i" "unat (of_nat i :: u64) = i"
        using that nk a(7) pn by (intro of_nat_heap_addr; simp)+
      then have "phys_mem s' (of_nat (q + i)) = m (of_nat (q + i))"
        using f(3) that nk unfolding same_contents_def by auto
      also have "\<dots> = phys_mem s1 (of_nat (p + i))" using that ui(3) by (simp add: m)
      also have "\<dots> = phys_mem s (of_nat (p + i))"
        using a(10) assms(4) that ui(2) unfolding same_contents_def by auto
      finally show ?thesis .
    qed
    ultimately have "krealloc (of_nat p) sz s = Inr (of_nat q, s') \<and> unat sz \<le> k \<and>
      heap_objects s' (insert (q, k) (A - {(p, n)})) r \<and>
      (\<forall>i < n. phys_mem s' (of_nat (q + i)) = phys_mem s (of_nat (p + i))) \<and>
      same_contents (A - {(p, n)}) (phys_mem s) (phys_mem s')"
      using a(2) f(2) same_contents_mono [OF keep] by auto
    with False show ?thesis unfolding if_not_P [OF False] by blast
  qed
qed

lemma heap_objects_boot: "heap_objects kheap_boot {} 0xFFFFE8"
  unfolding heap_objects_def using kheap_boot_inv by (intro conjI exI [of _ "[(0xFFFFE8, True)]"]) auto

theorem krealloc_correct_witness:
  "\<exists>s q s'. kmalloc 100 kheap_boot = Inr (0x2000018, s) \<and> krealloc 0x2000018 104 s = Inr (0x2000018, s) \<and>
     krealloc 0x2000018 200 s = Inr (q, s') \<and> (\<forall>i < 104. phys_mem s' (q + of_nat i) = phys_mem s (0x2000018 + of_nat i))"
proof -
  obtain s where s: "kmalloc 100 kheap_boot = Inr (0x2000018, s)" "heap_state s [(104, False), (0xFFFF68, True)]"
    by (rule kheap_one_block)
  have ho: "heap_objects s {(0x2000018, 104)} 0xFFFF68"
    unfolding heap_objects_def using heap_state_inv [OF s(2)]
    by (intro conjI exI [of _ "[(104, False), (0xFFFF68, True)]"]) auto
  then have ho': "heap_objects s {(0x2000018, 104)} (align8 (unat (200 :: u64)) + 24 + 16)"
    "heap_objects s {(0x2000018, 104)} (align8 (unat (104 :: u64)) + 24 + 16)"
    by (auto simp: align8_def elim: heap_objects_room)
  have "krealloc 0x2000018 104 s = Inr (0x2000018, s)"
    using krealloc_correct [OF ho'(2), of "0x2000018" 104] by simp
  moreover obtain q s' where "krealloc 0x2000018 200 s = Inr (of_nat q, s')"
    "\<forall>i < 104. phys_mem s' (of_nat (q + i)) = phys_mem s (of_nat (0x2000018 + i))"
    using krealloc_correct [OF ho'(1), of "0x2000018" 104] by auto
  ultimately show ?thesis using s(1) by (intro exI [of _ s] exI [of _ "of_nat q"] exI [of _ s']) simp
qed

end
