(* ===== verification/Process.thy ===== *)
theory Process
  imports Scheduler Heap_Objects
begin

text \<open>
  Process management (\<open>src/src/kernel/process.c\<close>, \<open>src/src/arch/x86_64/tss.c\<close> and the
  descriptor-table set-up of \<open>src/src/kernel/syscall.c\<close>): creation, destruction, blocking, the
  process table and process identifiers.  A call of \<open>schedule\<close> that switches hands the processor
  over, so code after it runs only when \<open>schedule\<close> reports that it did not switch.
\<close>

section \<open>The task state segment\<close>

definition tss_init :: "'a kproc_scheme \<Rightarrow> 'a kproc_scheme" where
  "tss_init s =
     (let cleared = \<lparr>reserved0 = 0, rsp0 = 0, rsp1 = 0, rsp2 = 0, reserved1 = 0, ist = replicate 7 0,
            reserved2 = 0, reserved3 = 0, iomap_base = 0\<rparr>;
          s1 = s\<lparr>tss := cleared\<lparr>rsp0 := default_kernel_stack s + 8192, iomap_base := 104\<rparr>\<rparr>
      in terminal_writestring ''\<newline>'' (terminal_writestring ''TSS initialized at '' s1))"

definition tss_set_kernel_stack :: "u64 \<Rightarrow> 'a kproc_scheme \<Rightarrow> 'a kproc_scheme" where
  "tss_set_kernel_stack stack s = s\<lparr>tss := (tss s)\<lparr>rsp0 := stack\<rparr>\<rparr>"

definition tss_get_kernel_stack :: "'a kproc_scheme \<Rightarrow> u64" where
  "tss_get_kernel_stack s = rsp0 (tss s)"

section \<open>Descriptor tables\<close>

abbreviation (input) MAX_FDS :: nat where "MAX_FDS \<equiv> 16"

definition empty_fd :: fd_entry_t where
  "empty_fd = \<lparr>node = 0, fpipe = 0, offset = 0, flags = 0, is_pipe = False\<rparr>"

definition init_process_fd_table :: "u64 \<Rightarrow> 'a kproc_scheme \<Rightarrow> 'a kproc_scheme res" where
  "init_process_fd_table proc s =
     (if proc = 0 then Inr s
      else bind_res (kmalloc 512 s) (\<lambda>(fds, s1).
        let s2 = upd_proc proc (\<lambda>p. p\<lparr>fd_table := fds\<rparr>) s1
        in if fds = 0 then Inr s2
           else Inr (s2\<lparr>fd_tables := (fd_tables s2)(fds := replicate MAX_FDS empty_fd)\<rparr>)))"

section \<open>Creation and destruction\<close>

text \<open>\<open>strncpy(dest, src, n)\<close> into a zeroed array, read back as a string.\<close>

definition c_strncpy :: "string \<Rightarrow> nat \<Rightarrow> string" where
  "c_strncpy src n = take n src"

definition process_init :: "'a kproc_scheme \<Rightarrow> 'a kproc_scheme res" where
  "process_init s =
     (let s1 = s\<lparr>process_table := replicate MAX_PROCESSES 0\<rparr>;
          idle = idle_process s1;
          s2 = upd_proc idle (\<lambda>p. p\<lparr>pid := 0, pname := ''idle'', pstate := PROCESS_STATE_READY,
                 kernel_stack := idle_stack s1, kernel_stack_size := KERNEL_STACK_SIZE, priority := 255,
                 ticks_total := 0, ticks_remaining := 1, entry_point := idle_task s1,
                 pcontext := (pcontext p)\<lparr>rsp := idle_stack s1 + KERNEL_STACK_SIZE, rip := idle_task s1,
                   rflags := 0x202\<rparr>\<rparr>) s1;
          s3 = s2\<lparr>process_table := (process_table s2)[0 := idle]\<rparr>
      in bind_res (init_process_fd_table idle s3) (\<lambda>s4.
           Inr (terminal_writestring ''Process management initialized\<newline>'' s4)))"

definition free_slot :: "'a kproc_scheme \<Rightarrow> nat option" where
  "free_slot s = find (\<lambda>i. process_table s ! i = 0) (for_range 1 MAX_PROCESSES)"

definition process_create :: "string \<Rightarrow> u64 \<Rightarrow> u32 \<Rightarrow> 'a kproc_scheme \<Rightarrow> (u64 \<times> 'a kproc_scheme) res" where
  "process_create name start prio s =
     (case free_slot s of
        None \<Rightarrow> Inr (0, terminal_writestring ''Error: Process table full\<newline>'' s)
      | Some slot \<Rightarrow>
        bind_res (kzalloc 264 s) (\<lambda>(proc, s1).
        if proc = 0 then Inl (Panic ''process_create: Out of memory for PCB'')
        else bind_res (kmalloc KERNEL_STACK_SIZE (upd_proc proc (\<lambda>_. zero_process) s1)) (\<lambda>(stack, s2).
        let s3 = upd_proc proc (\<lambda>p. p\<lparr>kernel_stack := stack\<rparr>) s2
        in if stack = 0 then bind_res (kfree proc s3) (\<lambda>_. Inl (Panic ''process_create: Out of memory for kernel stack''))
        else let s4 = (upd_proc proc (\<lambda>p. p\<lparr>pid := next_pid s3, pname := c_strncpy name 31,
                 pstate := PROCESS_STATE_READY, kernel_stack_size := KERNEL_STACK_SIZE, priority := prio,
                 ticks_total := 0, ticks_remaining := DEFAULT_QUANTUM, entry_point := start\<rparr>) s3)
                 \<lparr>next_pid := next_pid s3 + 1\<rparr>
        in case vmm_create_address_space s4 of (pt, s5) \<Rightarrow>
        let s6 = upd_proc proc (\<lambda>p. p\<lparr>page_table := pt\<rparr>) s5;
            give_up = (\<lambda>msg s. bind_res (kfree stack s) (\<lambda>s. bind_res (kfree proc s) (\<lambda>_. Inl (Panic msg))))
        in if pt = 0 then give_up ''process_create: Failed to create address space'' s6
        else bind_res (vmm_setup_user_stack (procs s6 proc) s6) (\<lambda>(r, p7, s7).
        let s8 = upd_proc proc (\<lambda>_. p7) s7
        in if r < 0 then bind_res (vmm_destroy_address_space pt s8)
               (give_up ''process_create: Failed to set up user stack'')
        else case vmm_setup_user_heap (procs s8 proc) of (r, p9) \<Rightarrow>
        let s9 = upd_proc proc (\<lambda>_. p9) s8
        in if r < 0 then bind_res (vmm_destroy_address_space pt s9)
               (give_up ''process_create: Failed to set up user heap'')
        else let stack_top = stack + KERNEL_STACK_SIZE - 8;
                 s10 = upd_proc proc (\<lambda>p. p\<lparr>pages_allocated := 0, page_faults := 0,
                   pcontext := \<lparr>r15 = 0, r14 = 0, r13 = 0, r12 = 0, rbx = 0, rbp = 0, rsp = stack_top,
                     rip = process_entry_trampoline s9, rflags = 0x202\<rparr>\<rparr>)
                   (s9\<lparr>phys_mem := store64 (phys_mem s9) stack_top start\<rparr>);
                 s11 = s10\<lparr>process_table := (process_table s10)[slot := proc]\<rparr>
        in bind_res (init_process_fd_table proc s11) (\<lambda>s12.
           Inr (proc, terminal_writestring '')\<newline>'' (terminal_writestring '' (PID ''
             (terminal_writestring name (terminal_writestring ''Created process: ''
               (ready_queue_push proc s12))))))))))"

text \<open>The loop that clears the first slot holding the process.\<close>

definition clear_slot :: "u64 \<Rightarrow> 'a kproc_scheme \<Rightarrow> 'a kproc_scheme" where
  "clear_slot process s =
     (case find (\<lambda>i. process_table s ! i = process) (for_range 0 MAX_PROCESSES) of
        None \<Rightarrow> s
      | Some i \<Rightarrow> s\<lparr>process_table := (process_table s)[i := 0]\<rparr>)"

definition process_destroy :: "u64 \<Rightarrow> 'a kproc_scheme \<Rightarrow> 'a kproc_scheme res" where
  "process_destroy process s =
     (if process = 0 \<or> process = idle_process s then Inr s
      else let s1 = (if pstate (procs s process) = PROCESS_STATE_READY then ready_queue_remove process s else s);
               s2 = clear_slot process s1; p = procs s2 process
      in bind_res (if kernel_stack p \<noteq> 0 then kfree (kernel_stack p) s2 else Inr s2) (\<lambda>s3.
         bind_res (if fd_table p \<noteq> 0 then kfree (fd_table p) s3 else Inr s3) (\<lambda>s4.
         bind_res (if page_table p \<noteq> 0 then vmm_destroy_address_space (page_table p) s4 else Inr s4) (\<lambda>s5.
         kfree process s5))))"

section \<open>The running process\<close>

definition process_get_pid :: "'a kproc_scheme \<Rightarrow> u32" where
  "process_get_pid s = pid (procs s (process_get_current s))"

definition process_get_name :: "'a kproc_scheme \<Rightarrow> string" where
  "process_get_name s = pname (procs s (process_get_current s))"

definition process_get_state :: "u64 \<Rightarrow> 'a kproc_scheme \<Rightarrow> process_state" where
  "process_get_state process s = (if process \<noteq> 0 then pstate (procs s process) else PROCESS_STATE_TERMINATED)"

definition process_yield :: "'a kproc_scheme \<Rightarrow> bool \<times> 'a kproc_scheme" where
  "process_yield s =
     (let current = process_get_current s
      in schedule (if current \<noteq> 0 \<and> current \<noteq> idle_process s
           then tss_set_kernel_stack (kernel_stack (procs s current) + kernel_stack_size (procs s current)) s else s))"

definition process_block :: "'a kproc_scheme \<Rightarrow> bool \<times> 'a kproc_scheme" where
  "process_block s =
     (if current_process s \<noteq> 0 \<and> current_process s \<noteq> idle_process s
      then schedule (upd_proc (current_process s) (\<lambda>p. p\<lparr>pstate := PROCESS_STATE_BLOCKED\<rparr>) s)
      else (False, s))"

definition process_unblock :: "u64 \<Rightarrow> 'a kproc_scheme \<Rightarrow> 'a kproc_scheme" where
  "process_unblock process s =
     (if process \<noteq> 0 \<and> pstate (procs s process) = PROCESS_STATE_BLOCKED
      then ready_queue_push process (upd_proc process (\<lambda>p. p\<lparr>pstate := PROCESS_STATE_READY\<rparr>) s)
      else s)"

definition process_exit :: "'a kproc_scheme \<Rightarrow> (bool \<times> 'a kproc_scheme) res" where
  "process_exit s =
     (if current_process s \<noteq> 0 \<and> current_process s \<noteq> idle_process s then
        let s1 = terminal_writestring ''\<newline>'' (terminal_writestring (pname (procs s (current_process s)))
                   (terminal_writestring ''Process exiting: '' s));
            s2 = upd_proc (current_process s1) (\<lambda>p. p\<lparr>pstate := PROCESS_STATE_TERMINATED\<rparr>) s1
        in case schedule s2 of (switched, s3) \<Rightarrow>
           if switched then Inr (True, s3) else Inl (Panic ''process_exit: schedule() returned!'')
      else Inr (False, s))"

definition process_print_all :: "'a kproc_scheme \<Rightarrow> 'a kproc_scheme" where
  "process_print_all s =
     fold (\<lambda>i s. let proc = process_table s ! i
                 in if proc \<noteq> 0 then terminal_writestring ''\<newline>'' (terminal_writestring (pname (procs s proc))
                      (terminal_writestring ''  '' s)) else s) (for_range 0 MAX_PROCESSES)
       (terminal_writestring ''---  ----------------------  ---------  ------\<newline>''
         (terminal_writestring ''PID  Name                     State      Ticks\<newline>''
           (terminal_writestring ''\<newline>Process List:\<newline>'' s)))"

section \<open>Helpers of fork and wait\<close>

definition allocate_process_struct :: "'a kproc_scheme \<Rightarrow> (u64 \<times> 'a kproc_scheme) res" where
  "allocate_process_struct s =
     (case free_slot s of
        None \<Rightarrow> Inr (0, s)
      | Some slot \<Rightarrow>
        bind_res (kzalloc 264 s) (\<lambda>(proc, s1).
        if proc = 0 then Inr (0, s1)
        else bind_res (kmalloc KERNEL_STACK_SIZE (upd_proc proc (\<lambda>_. zero_process) s1)) (\<lambda>(stack, s2).
        let s3 = upd_proc proc (\<lambda>p. p\<lparr>kernel_stack := stack\<rparr>) s2
        in if stack = 0 then bind_res (kfree proc s3) (\<lambda>s4. Inr (0, s4))
        else let s4 = (upd_proc proc (\<lambda>p. p\<lparr>pid := next_pid s3, kernel_stack_size := KERNEL_STACK_SIZE\<rparr>) s3)
                   \<lparr>next_pid := next_pid s3 + 1, process_table := (process_table s3)[slot := proc]\<rparr>
             in bind_res (init_process_fd_table proc s4) (\<lambda>s5. Inr (proc, s5)))))"

definition free_process_struct :: "u64 \<Rightarrow> 'a kproc_scheme \<Rightarrow> 'a kproc_scheme res" where
  "free_process_struct process s =
     (if process = 0 then Inr s
      else let s1 = clear_slot process s; p = procs s1 process
      in bind_res (if kernel_stack p \<noteq> 0 then kfree (kernel_stack p) s1 else Inr s1) (\<lambda>s2.
         bind_res (if page_table p \<noteq> 0 then vmm_destroy_address_space (page_table p) s2 else Inr s2) (\<lambda>s3.
         kfree process s3)))"

definition find_zombie_child :: "u32 \<Rightarrow> 'a kproc_scheme \<Rightarrow> u64" where
  "find_zombie_child ppid s =
     (case find (\<lambda>i. let proc = process_table s ! i in proc \<noteq> 0 \<and> parent_pid (procs s proc) = ppid \<and>
                   pstate (procs s proc) = PROCESS_STATE_ZOMBIE) (for_range 0 MAX_PROCESSES) of
        None \<Rightarrow> 0
      | Some i \<Rightarrow> process_table s ! i)"

section \<open>Heap objects and the process table\<close>

lemma heap_frame_kproc:
  assumes "heap_frame s s'"
  shows "procs s' = procs s" "fd_tables s' = fd_tables s" "process_table s' = process_table s" "next_pid s' = next_pid s"
    "ready_queue_head s' = ready_queue_head s" "ready_queue_tail s' = ready_queue_tail s"
    "current_process s' = current_process s" "scheduler_enabled s' = scheduler_enabled s"
    "idle_process s' = idle_process s" "cpu s' = cpu s" "cr3 s' = cr3 s" "pml4 s' = pml4 s" "console s' = console s"
    "pipes s' = pipes s" "tss s' = tss s"
  using assms by (auto simp: heap_frame_def)

lemma heap_objects_kproc [simp]:
  "heap_objects (upd_proc p f s) A r \<longleftrightarrow> heap_objects s A r"
  "heap_objects (s\<lparr>fd_tables := t\<rparr>) A r \<longleftrightarrow> heap_objects s A r"
  "heap_objects (s\<lparr>process_table := pt\<rparr>) A r \<longleftrightarrow> heap_objects s A r"
  "heap_objects (s\<lparr>next_pid := n\<rparr>) A r \<longleftrightarrow> heap_objects s A r"
  "heap_objects (s\<lparr>next_pid := n, process_table := pt\<rparr>) A r \<longleftrightarrow> heap_objects s A r"
  by (rule heap_objects_cong; simp add: upd_proc_def)+

text \<open>
  The process table: 64 slots, whose occupied ones hold live heap objects (or the static idle
  process), no process twice and no identifier twice, all identifiers already handed out.
\<close>

definition table_inv :: "'a kproc_scheme \<Rightarrow> (nat \<times> nat) set \<Rightarrow> bool" where
  "table_inv s A \<longleftrightarrow> length (process_table s) = 64 \<and>
     (unat (idle_process s) < HEAP_BASE \<or> HEAP_END < unat (idle_process s)) \<and>
     (\<forall>i < 64. process_table s ! i \<noteq> 0 \<longrightarrow>
        (unat (process_table s ! i) \<in> fst ` A \<or> process_table s ! i = idle_process s) \<and>
        pid (procs s (process_table s ! i)) < next_pid s) \<and>
     (\<forall>i < 64. \<forall>j < 64. i \<noteq> j \<longrightarrow> process_table s ! i \<noteq> 0 \<longrightarrow> process_table s ! j \<noteq> 0 \<longrightarrow>
        process_table s ! i \<noteq> process_table s ! j \<and>
        pid (procs s (process_table s ! i)) \<noteq> pid (procs s (process_table s ! j)))"

lemma table_member:
  "table_inv s A \<Longrightarrow> p \<in> set (process_table s) \<Longrightarrow> p \<noteq> 0 \<Longrightarrow> unat p \<in> fst ` A \<or> p = idle_process s"
  by (auto simp: table_inv_def in_set_conv_nth)

lemma init_process_fd_table_object:
  assumes "heap_objects s A (512 + 24 + r)" "16 \<le> r" "proc \<noteq> 0"
  obtains fds n s1 where
    "init_process_fd_table proc s = Inr ((upd_proc proc (\<lambda>p. p\<lparr>fd_table := of_nat fds\<rparr>) s1)
       \<lparr>fd_tables := (fd_tables s)(of_nat fds := replicate MAX_FDS empty_fd)\<rparr>)"
    "heap_frame s s1" "fds \<notin> fst ` A" "heap_objects s1 (insert (fds, n) A) r" "unat (of_nat fds :: u64) = fds"
proof -
  have "heap_objects s A (align8 (unat (512 :: u64)) + 24 + r)" using assms(1) by (simp add: align8_def)
  then obtain fds n s1 where a: "kmalloc 512 s = Inr (of_nat fds, s1)" "fds \<notin> fst ` A"
    "heap_objects s1 (insert (fds, n) A) r" "heap_frame s s1" "(of_nat fds :: u64) \<noteq> 0" "unat (of_nat fds :: u64) = fds"
    by (rule heap.alloc_fresh [OF _ assms(2)]) (simp, rule that)
  then show ?thesis
    using assms(3) heap_frame_kproc(2) [OF a(4)]
    by (intro that [of fds s1 n]) (simp_all add: init_process_fd_table_def Let_def upd_proc_def)
qed

lemma allocate_process_struct_object:
  assumes "heap_objects s A (9040 + r)" "16 \<le> r" "free_slot s = Some slot"
  obtains p n1 k n2 f n3 s' where
    "allocate_process_struct s = Inr (of_nat p, s')" "p \<notin> fst ` A" "unat (of_nat p :: u64) = p" "(of_nat p :: u64) \<noteq> 0"
    "heap_objects s' (insert (f, n3) (insert (k, n2) (insert (p, n1) A))) r"
    "k \<notin> insert p (fst ` A)" "f \<notin> insert k (insert p (fst ` A))"
    "unat (of_nat k :: u64) = k" "(of_nat k :: u64) \<noteq> 0"
    "procs s' = (procs s)(of_nat p := zero_process\<lparr>kernel_stack := of_nat k, pid := next_pid s,
       kernel_stack_size := KERNEL_STACK_SIZE, fd_table := of_nat f\<rparr>)"
    "process_table s' = (process_table s)[slot := of_nat p]" "next_pid s' = next_pid s + 1"
    "fd_tables s' = (fd_tables s)(of_nat f := replicate MAX_FDS empty_fd)" "idle_process s' = idle_process s"
    "pml4 s' = pml4 s"
proof -
  have h1: "heap_objects s A (align8 (unat (264 :: u64)) + 24 + (8752 + r))" "16 \<le> 8752 + r" "unat (264 :: u64) \<le> HEAP_END"
    using assms(1) by (simp_all add: align8_def)
  obtain p n1 s1 where a: "kzalloc 264 s = Inr (of_nat p, s1)" "p \<notin> fst ` A" "heap_objects s1 (insert (p, n1) A) (8752 + r)"
    "heap_frame s s1" "(of_nat p :: u64) \<noteq> 0" "unat (of_nat p :: u64) = p"
    by (rule kzalloc_object [OF h1]) (rule that)
  let ?s1 = "upd_proc (of_nat p) (\<lambda>_. zero_process) s1"
  have h2: "heap_objects ?s1 (insert (p, n1) A) (align8 (unat (8192 :: u64)) + 24 + (536 + r))" "16 \<le> 536 + r" "unat (8192 :: u64) \<le> HEAP_END"
    using a(3) by (simp_all add: align8_def)
  obtain k n2 s2 where b: "kmalloc 8192 ?s1 = Inr (of_nat k, s2)" "k \<notin> fst ` insert (p, n1) A"
    "heap_objects s2 (insert (k, n2) (insert (p, n1) A)) (536 + r)" "heap_frame ?s1 s2" "(of_nat k :: u64) \<noteq> 0" "unat (of_nat k :: u64) = k"
    by (rule heap.alloc_fresh [OF h2]) (rule that)
  let ?s4 = "(upd_proc (of_nat p) (\<lambda>q. q\<lparr>pid := next_pid s, kernel_stack_size := KERNEL_STACK_SIZE\<rparr>)
      (upd_proc (of_nat p) (\<lambda>q. q\<lparr>kernel_stack := of_nat k\<rparr>) s2))
      \<lparr>next_pid := next_pid s + 1, process_table := (process_table s)[slot := of_nat p]\<rparr>"
  have h3: "heap_objects ?s4 (insert (k, n2) (insert (p, n1) A)) (512 + 24 + r)" using b(3) by simp
  obtain f n3 s5 where c: "init_process_fd_table (of_nat p) ?s4 = Inr ((upd_proc (of_nat p) (\<lambda>q. q\<lparr>fd_table := of_nat f\<rparr>) s5)
       \<lparr>fd_tables := (fd_tables ?s4)(of_nat f := replicate MAX_FDS empty_fd)\<rparr>)"
    "heap_frame ?s4 s5" "f \<notin> fst ` insert (k, n2) (insert (p, n1) A)"
    "heap_objects s5 (insert (f, n3) (insert (k, n2) (insert (p, n1) A))) r"
    by (rule init_process_fd_table_object [OF h3 assms(2) a(5)]) (rule that)
  note keep = heap_frame_kproc [OF a(4)] heap_frame_kproc [OF b(4)] heap_frame_kproc [OF c(2)]
  let ?s' = "(upd_proc (of_nat p) (\<lambda>q. q\<lparr>fd_table := of_nat f\<rparr>) s5)
       \<lparr>fd_tables := (fd_tables ?s4)(of_nat f := replicate MAX_FDS empty_fd)\<rparr>"
  have n2: "next_pid s2 = next_pid s" "process_table s2 = process_table s" using keep by (simp_all add: upd_proc_def)
  have "allocate_process_struct s = Inr (of_nat p, ?s')"
    using assms(3) a(1,5) b(1,5) c(1) n2 by (simp add: allocate_process_struct_def Let_def upd_proc_def)
  then show ?thesis
  proof (rule that)
    show "procs ?s' = (procs s)(of_nat p := zero_process\<lparr>kernel_stack := of_nat k, pid := next_pid s,
       kernel_stack_size := KERNEL_STACK_SIZE, fd_table := of_nat f\<rparr>)"
      using keep by (simp add: upd_proc_def)
    show "heap_objects ?s' (insert (f, n3) (insert (k, n2) (insert (p, n1) A))) r" using c(4) by simp
    show "k \<notin> insert p (fst ` A)" "f \<notin> insert k (insert p (fst ` A))" using b(2) c(3) by simp_all
    show "process_table ?s' = (process_table s)[slot := of_nat p]" "next_pid ?s' = next_pid s + 1"
      "idle_process ?s' = idle_process s" "pml4 ?s' = pml4 s"
      "fd_tables ?s' = (fd_tables s)(of_nat f := replicate MAX_FDS empty_fd)"
      using keep by (simp_all add: upd_proc_def)
  qed (use a(2,5,6) b(5,6) in simp_all)
qed

lemma free_slot_Some: "free_slot s = Some i \<longleftrightarrow> 1 \<le> i \<and> i < 64 \<and> process_table s ! i = 0 \<and>
    (\<forall>j. 1 \<le> j \<and> j < i \<longrightarrow> process_table s ! j \<noteq> 0)"
  unfolding free_slot_def find_for_range_Some by auto

lemma table_inv_insert:
  assumes inv: "table_inv s A" and slot: "slot < 64" "process_table s ! slot = 0"
    and p: "p \<noteq> 0" "unat p \<notin> fst ` A" "p \<noteq> idle_process s" "unat p \<in> fst ` A'" "fst ` A \<subseteq> fst ` A'"
    and s': "process_table s' = (process_table s)[slot := p]" "idle_process s' = idle_process s"
      "\<And>q. q \<noteq> p \<Longrightarrow> procs s' q = procs s q" "pid (procs s' p) = next_pid s" "next_pid s' = next_pid s + 1" "next_pid s + 1 \<noteq> 0"
  shows "table_inv s' A'"
proof -
  have len: "length (process_table s) = 64" using inv by (simp add: table_inv_def)
  have nth: "process_table s' ! i = (if i = slot then p else process_table s ! i)" if "i < 64" for i
    using slot(1) len that by (simp add: s'(1))
  have old: "process_table s ! i \<noteq> p" if "i < 64" for i
    using inv p(1-3) that by (auto simp: table_inv_def)
  have lt: "x < next_pid s'" if "x < next_pid s \<or> x = next_pid s" for x
  proof -
    have "unat (next_pid s + 1) \<noteq> 0" using s'(6) by (simp add: unat_eq_0)
    then have "unat (next_pid s + 1) = unat (next_pid s) + 1"
      using unat_less_32 [of "next_pid s"] by (simp add: unat_word_ariths mod_Suc split: if_splits)
    with that show ?thesis unfolding s'(5) by (auto simp: word_less_nat_alt)
  qed
  have live: "(unat (process_table s ! i) \<in> fst ` A' \<or> process_table s ! i = idle_process s) \<and>
      pid (procs s (process_table s ! i)) < next_pid s" if "i < 64" "process_table s ! i \<noteq> 0" for i
    using inv that p(5) by (auto simp: table_inv_def)
  have diff: "process_table s ! i \<noteq> process_table s ! j \<and> pid (procs s (process_table s ! i)) \<noteq> pid (procs s (process_table s ! j))"
    if "i < 64" "j < 64" "i \<noteq> j" "process_table s ! i \<noteq> 0" "process_table s ! j \<noteq> 0" for i j
    using inv that by (simp add: table_inv_def)
  show ?thesis unfolding table_inv_def
  proof (intro conjI allI impI)
    show "length (process_table s') = 64" using len by (simp add: s'(1))
    show "unat (idle_process s') < HEAP_BASE \<or> HEAP_END < unat (idle_process s')"
      using inv by (simp add: table_inv_def s'(2))
    fix i assume i: "i < (64 :: nat)" "process_table s' ! i \<noteq> 0"
    show "unat (process_table s' ! i) \<in> fst ` A' \<or> process_table s' ! i = idle_process s'"
      using live [OF i(1)] i p(4) by (auto simp: nth s'(2))
    show "pid (procs s' (process_table s' ! i)) < next_pid s'"
      using live [OF i(1)] i old [OF i(1)] by (cases "i = slot") (auto simp: nth s'(3,4) intro!: lt)
    fix j assume j: "j < (64 :: nat)" "i \<noteq> j" "process_table s' ! j \<noteq> 0"
    show "process_table s' ! i \<noteq> process_table s' ! j"
      using i j diff [OF i(1) j(1)] old [OF i(1)] old [OF j(1)] by (auto simp: nth)
    show "pid (procs s' (process_table s' ! i)) \<noteq> pid (procs s' (process_table s' ! j))"
      using i j diff [OF i(1) j(1)] live [OF i(1)] live [OF j(1)] old [OF i(1)] old [OF j(1)]
      by (auto simp: nth s'(3,4))
  qed
qed

section \<open>Correctness\<close>

text \<open>
  C25: new process structures.  With no free slot the call returns NULL and changes nothing.
  Otherwise, given room on the heap, it returns a fresh control block in the lowest free slot,
  with the next identifier, its own kernel stack and an empty descriptor table, keeps every other
  control block, and keeps the table invariant: no two slots share a process or an identifier.
\<close>

theorem allocate_process_struct_correct:
  assumes "heap_objects s A (9040 + r)" "16 \<le> r" "table_inv s A" "next_pid s + 1 \<noteq> 0"
  shows "case free_slot s of None \<Rightarrow> allocate_process_struct s = Inr (0, s)
    | Some slot \<Rightarrow> \<exists>p s' A'. allocate_process_struct s = Inr (p, s') \<and> p \<noteq> 0 \<and> p \<notin> set (process_table s) \<and>
        process_table s' = (process_table s)[slot := p] \<and> pid (procs s' p) = next_pid s \<and> next_pid s' = next_pid s + 1 \<and>
        (\<forall>q. q \<noteq> p \<longrightarrow> procs s' q = procs s q) \<and>
        fd_tables s' (fd_table (procs s' p)) = replicate MAX_FDS empty_fd \<and>
        unat (kernel_stack (procs s' p)) \<in> fst ` (A' - A) \<and> table_inv s' A' \<and> heap_objects s' A' r"
proof (cases "free_slot s")
  case None
  then show ?thesis by (simp add: allocate_process_struct_def)
next
  case (Some slot)
  from Some have slot: "slot < 64" "process_table s ! slot = 0" by (auto simp: free_slot_Some)
  obtain p n1 k n2 f n3 s' where a:
    "allocate_process_struct s = Inr (of_nat p, s')" "p \<notin> fst ` A" "unat (of_nat p :: u64) = p" "(of_nat p :: u64) \<noteq> 0"
    "heap_objects s' (insert (f, n3) (insert (k, n2) (insert (p, n1) A))) r"
    "k \<notin> insert p (fst ` A)" "unat (of_nat k :: u64) = k"
    "procs s' = (procs s)(of_nat p := zero_process\<lparr>kernel_stack := of_nat k, pid := next_pid s,
       kernel_stack_size := KERNEL_STACK_SIZE, fd_table := of_nat f\<rparr>)"
    "process_table s' = (process_table s)[slot := of_nat p]" "next_pid s' = next_pid s + 1"
    "fd_tables s' = (fd_tables s)(of_nat f := replicate MAX_FDS empty_fd)" "idle_process s' = idle_process s"
    by (rule allocate_process_struct_object [OF assms(1,2) Some]) (rule that)
  let ?A = "insert (f, n3) (insert (k, n2) (insert (p, n1) A))"
  have "HEAP_BASE < p" "p + n1 \<le> HEAP_END" using live_base [OF a(5)] heap.live_bound [OF a(5)] by auto
  then have idle: "of_nat p \<noteq> idle_process s" using assms(3) a(3,7) a(5) by (auto simp: table_inv_def)
  have "(of_nat p :: u64) \<notin> set (process_table s)" using table_member [OF assms(3), of "of_nat p"] a(2-4) idle by auto
  moreover have "table_inv s' ?A"
    by (rule table_inv_insert [OF assms(3) slot a(4) _ idle _ _ a(9,12)]) (use a assms(4) in auto)
  moreover have "k \<in> fst ` (?A - A)" using a(6) by force
  ultimately have res: "allocate_process_struct s = Inr (of_nat p, s') \<and> (of_nat p :: u64) \<noteq> 0 \<and> of_nat p \<notin> set (process_table s) \<and>
        process_table s' = (process_table s)[slot := of_nat p] \<and> pid (procs s' (of_nat p)) = next_pid s \<and>
        next_pid s' = next_pid s + 1 \<and> (\<forall>q. q \<noteq> of_nat p \<longrightarrow> procs s' q = procs s q) \<and>
        fd_tables s' (fd_table (procs s' (of_nat p))) = replicate MAX_FDS empty_fd \<and>
        unat (kernel_stack (procs s' (of_nat p))) \<in> fst ` (?A - A) \<and> table_inv s' ?A \<and> heap_objects s' ?A r"
    using a(1,4,5,7-11) by simp
  show ?thesis unfolding Some option.case
    by (rule exI [of _ "of_nat p"], rule exI [of _ s'], rule exI [of _ ?A]) (rule res)
qed

lemma heap_objects_kproc_boot: "heap_objects kproc_boot {} 0xFFFFE8"
proof -
  have "heap_inv kproc_boot [(0xFFFFE8, True)]"
    by (rule init_heap_state) (simp_all add: kproc_boot_simps kheap_boot_def vmm.defs)
  then show ?thesis unfolding heap_objects_def by (intro conjI exI [of _ "[(0xFFFFE8, True)]"]) auto
qed

lemma table_inv_kproc_boot: "table_inv kproc_boot {}"
  by (simp add: table_inv_def kproc_boot_simps)

lemma free_slot_kproc_boot: "free_slot kproc_boot = Some 1"
  by (simp add: free_slot_Some kproc_boot_simps)

lemma next_pid_kproc_boot [simp]: "next_pid kproc_boot = 1"
  by (simp add: kproc_boot_simps)

theorem allocate_process_struct_correct_witness:
  "\<exists>p s'. allocate_process_struct kproc_boot = Inr (p, s') \<and> process_table s' = (replicate 64 0)[1 := p] \<and>
     pid (procs s' p) = 1 \<and> next_pid s' = 2"
proof -
  have "heap_objects kproc_boot {} (9040 + 16)" using heap_objects_kproc_boot by (rule heap_objects_room) simp
  from allocate_process_struct_correct [OF this _ table_inv_kproc_boot] free_slot_kproc_boot
  obtain p s' where "allocate_process_struct kproc_boot = Inr (p, s')"
    "process_table s' = (process_table kproc_boot)[1 := p]" "pid (procs s' p) = 1" "next_pid s' = 2" by auto
  moreover have "process_table kproc_boot = replicate 64 0" by (simp add: kproc_boot_simps)
  ultimately show ?thesis by metis
qed

text \<open>
  reaping leaks.  Releasing a process structure right after it was allocated, as a failed fork
  and every reaped child do, frees the slot, the control block and the kernel stack, but not the
  descriptor table: that object stays allocated for ever.
\<close>

theorem free_process_struct_leaks:
  assumes "heap_objects s A (9040 + r)" "16 \<le> r" "table_inv s A" "free_slot s = Some slot"
  shows "\<exists>p s' s'' f n. allocate_process_struct s = Inr (p, s') \<and> free_process_struct p s' = Inr s'' \<and>
    process_table s'' = process_table s \<and> f \<notin> fst ` A \<and> of_nat f = fd_table (procs s' p) \<and>
    heap_objects s'' (insert (f, n) A) r"
proof -
  obtain p n1 k n2 f n3 s' where a:
    "allocate_process_struct s = Inr (of_nat p, s')" "p \<notin> fst ` A" "unat (of_nat p :: u64) = p" "(of_nat p :: u64) \<noteq> 0"
    "heap_objects s' (insert (f, n3) (insert (k, n2) (insert (p, n1) A))) r"
    "k \<notin> insert p (fst ` A)" "f \<notin> insert k (insert p (fst ` A))" "(of_nat k :: u64) \<noteq> 0"
    "procs s' = (procs s)(of_nat p := zero_process\<lparr>kernel_stack := of_nat k, pid := next_pid s,
       kernel_stack_size := KERNEL_STACK_SIZE, fd_table := of_nat f\<rparr>)"
    "process_table s' = (process_table s)[slot := of_nat p]"
    by (rule allocate_process_struct_object [OF assms(1,2,4)]) (rule that)
  have slot: "slot < 64" "process_table s ! slot = 0" "length (process_table s) = 64"
    using assms(3,4) by (auto simp: free_slot_Some table_inv_def)
  have other: "process_table s ! j \<noteq> of_nat p" if "j < 64" for j
  proof
    assume j: "process_table s ! j = of_nat p"
    then have "(of_nat p :: u64) \<in> set (process_table s)" using slot(3) that by (metis nth_mem)
    moreover have "of_nat p \<noteq> idle_process s"
      using assms(3) a(3) live_base [OF a(5)] heap.live_bound [OF a(5)] by (fastforce simp: table_inv_def)
    ultimately show False using table_member [OF assms(3)] a(2-4) by force
  qed
  have "find (\<lambda>i. process_table s' ! i = of_nat p) (for_range 0 64) = Some slot"
    unfolding find_for_range_Some using slot other by (auto simp: a(10) nth_list_update)
  then have clear: "clear_slot (of_nat p) s' = s'\<lparr>process_table := process_table s\<rparr>"
    using slot by (simp add: clear_slot_def a(10) list_update_same_conv)
  let ?s1 = "s'\<lparr>process_table := process_table s\<rparr>"
  have h1: "heap_objects ?s1 (insert (f, n3) (insert (k, n2) (insert (p, n1) A))) r" using a(5) by simp
  obtain s2 where s2: "kfree (of_nat k) ?s1 = Inr s2" "heap_frame ?s1 s2"
    "heap_objects s2 (insert (f, n3) (insert (k, n2) (insert (p, n1) A)) - {(k, n2)}) r"
    using heap.release_ok [OF h1, of k n2] by auto
  obtain s3 where s3: "kfree (of_nat p) s2 = Inr s3" "heap_frame s2 s3"
    "heap_objects s3 (insert (f, n3) (insert (k, n2) (insert (p, n1) A)) - {(k, n2)} - {(p, n1)}) r"
    using heap.release_ok [OF s2(3), of p n1] a(6) by auto
  have "insert (f, n3) (insert (k, n2) (insert (p, n1) A)) - {(k, n2)} - {(p, n1)} = insert (f, n3) A"
    using a(2,6,7) by force
  then have "heap_objects s3 (insert (f, n3) A) r" using s3(3) by simp
  moreover have "free_process_struct (of_nat p) s' = Inr s3"
    using a(4,8,9) clear s2(1) s3(1) by (simp add: free_process_struct_def Let_def zero_process_def)
  moreover have "process_table s3 = process_table s"
    using heap_frame_kproc(3) [OF s2(2)] heap_frame_kproc(3) [OF s3(2)] by simp
  ultimately show ?thesis using a(1,7,9)
    by (intro exI [of _ "of_nat p"] exI [of _ s'] exI [of _ s3] exI [of _ f] exI [of _ n3]) simp
qed

theorem free_process_struct_leaks_witness:
  "\<exists>p s' s'' f n. allocate_process_struct kproc_boot = Inr (p, s') \<and> free_process_struct p s' = Inr s'' \<and>
     process_table s'' = process_table kproc_boot \<and> heap_objects s'' {(f, n)} 16"
proof -
  have "heap_objects kproc_boot {} (9040 + 16)" using heap_objects_kproc_boot by (rule heap_objects_room) simp
  from free_process_struct_leaks [OF this _ table_inv_kproc_boot free_slot_kproc_boot] show ?thesis
    by (simp only: order.refl simp_thms) metis
qed

text \<open>
  Blocking and waking.  A process that blocks is BLOCKED and out of the ready queue while the
  first ready process runs, and waking it makes it READY at the end of the queue.  A process that
  exits is TERMINATED and out of the queue, and the processor goes to the first ready process.
\<close>

theorem process_block_unblock:
  assumes "scheduler_enabled s" "queue s (n # ps)" "current_process s = c" "c \<noteq> 0" "c \<noteq> idle_process s" "c \<notin> set (n # ps)"
  shows "(\<exists>s'. process_block s = (True, s') \<and> current_process s' = n \<and> queue s' ps \<and>
      pstate (procs s' c) = PROCESS_STATE_BLOCKED \<and> pstate (procs s' n) = PROCESS_STATE_RUNNING \<and>
      queue (process_unblock c s') (ps @ [c]) \<and> pstate (procs (process_unblock c s') c) = PROCESS_STATE_READY) \<and>
    (\<exists>s'. process_exit s = Inr (True, s') \<and> current_process s' = n \<and> queue s' ps \<and>
      pstate (procs s' c) = PROCESS_STATE_TERMINATED \<and> pstate (procs s' n) = PROCESS_STATE_RUNNING)"
proof -
  have leave: "\<exists>s'. schedule (upd_proc c (\<lambda>p. p\<lparr>pstate := st\<rparr>) t) = (True, s') \<and> current_process s' = n \<and> queue s' ps \<and>
      pstate (procs s' c) = st \<and> pstate (procs s' n) = PROCESS_STATE_RUNNING"
    if st: "st \<noteq> PROCESS_STATE_RUNNING" and t: "scheduler_enabled t" "queue t (n # ps)" "current_process t = c"
    for st and t :: "'a kproc_scheme"
  proof -
    let ?t = "upd_proc c (\<lambda>p. p\<lparr>pstate := st\<rparr>) t"
    have q: "scheduler_enabled ?t" "queue ?t (n # ps)" "process_get_current ?t = c"
      using t assms(4) by (simp_all add: process_get_current_def)
    have l: "ready_list c (pstate (procs ?t c)) (n # ps) = n # ps" using st by (simp add: ready_list_def)
    have nx: "chosen (ready_list c (pstate (procs ?t c)) (n # ps)) (process_table ?t ! 0) = n" "n \<noteq> c"
      unfolding l using assms(6) by (auto simp: chosen_def)
    show ?thesis
      apply (rule schedule_switches [OF q assms(6,4) nx])
      subgoal for s' using nx(2) st unfolding l by (intro exI [of _ s']) (simp add: preempted_def)
      done
  qed
  obtain s' where s': "process_block s = (True, s')" "current_process s' = n" "queue s' ps"
    "pstate (procs s' c) = PROCESS_STATE_BLOCKED" "pstate (procs s' n) = PROCESS_STATE_RUNNING"
    using leave [of PROCESS_STATE_BLOCKED s] assms(1-5) by (auto simp: process_block_def)
  let ?u = "upd_proc c (\<lambda>p. p\<lparr>pstate := PROCESS_STATE_READY\<rparr>) s'"
  have "queue ?u ps" using s'(3) by simp
  then have "queue (ready_queue_push c ?u) (ps @ [c])" using assms(4,6) by (intro rq.push_holds) auto
  moreover have "process_unblock c s' = ready_queue_push c ?u" using s'(4) assms(4) by (simp add: process_unblock_def)
  moreover have "pstate (procs (ready_queue_push c ?u) c) = PROCESS_STATE_READY"
    using relinked_fields(1) [OF ready_queue_push_relinked [of ?u c]] by simp
  ultimately have block: "\<exists>s'. process_block s = (True, s') \<and> current_process s' = n \<and> queue s' ps \<and>
      pstate (procs s' c) = PROCESS_STATE_BLOCKED \<and> pstate (procs s' n) = PROCESS_STATE_RUNNING \<and>
      queue (process_unblock c s') (ps @ [c]) \<and> pstate (procs (process_unblock c s') c) = PROCESS_STATE_READY"
    using s' by auto
  let ?t = "terminal_writestring ''\<newline>'' (terminal_writestring (pname (procs s c)) (terminal_writestring ''Process exiting: '' s))"
  have "scheduler_enabled ?t" "queue ?t (n # ps)" "current_process ?t = c"
    using assms(1-3) by (simp_all add: terminal_writestring_eq queue_def)
  from leave [OF _ this, of PROCESS_STATE_TERMINATED]
  have "\<exists>s'. process_exit s = Inr (True, s') \<and> current_process s' = n \<and> queue s' ps \<and>
      pstate (procs s' c) = PROCESS_STATE_TERMINATED \<and> pstate (procs s' n) = PROCESS_STATE_RUNNING"
    using assms(3-5) \<open>current_process ?t = c\<close> by (auto simp: process_exit_def Let_def)
  with block show ?thesis by blast
qed

theorem process_block_unblock_witness:
  "\<exists>s'. process_block sched_demo = (True, s') \<and> current_process s' = 0x200 \<and> queue (process_unblock 0x100 s') [0x100]"
proof -
  have r: "relinked (kproc_boot\<lparr>current_process := 0x100, scheduler_enabled := True,
     procs := (\<lambda>_. zero_process)(0x100 := zero_process\<lparr>pstate := PROCESS_STATE_RUNNING\<rparr>)\<rparr>) sched_demo"
    unfolding sched_demo_def by (rule ready_queue_push_relinked)
  have "current_process sched_demo = 0x100" "idle_process sched_demo = 0x9000"
    using relinked_keeps [OF r] by (simp_all add: kproc_boot_simps)
  with process_block_unblock [OF sched_demo_facts(1,2), of "0x100"] show ?thesis by auto
qed

end
