(* ===== verification/Signal.thy ===== *)
theory Signal
  imports Process
begin

text \<open>
  Signals (\<open>src/src/ipc/signal.c\<close>).  \<open>process_find_by_pid\<close> is declared nowhere and defined
  nowhere in the repository: it is a parameter of the model, a function from an identifier and
  the state to a control block address (0 when there is none).
\<close>

abbreviation (input) SIGINT :: int where "SIGINT \<equiv> 2"
abbreviation (input) SIGKILL :: int where "SIGKILL \<equiv> 9"
abbreviation (input) SIGTERM :: int where "SIGTERM \<equiv> 15"
abbreviation (input) SIGCONT :: int where "SIGCONT \<equiv> 18"
abbreviation (input) SIGSTOP :: int where "SIGSTOP \<equiv> 19"

definition signal_init :: "'a kproc_scheme \<Rightarrow> 'a kproc_scheme" where
  "signal_init s = s"

definition announce :: "string \<Rightarrow> u64 \<Rightarrow> 'a kproc_scheme \<Rightarrow> 'a kproc_scheme" where
  "announce msg proc s =
     terminal_writestring ''\<newline>'' (terminal_writestring (pname (procs s proc)) (terminal_writestring msg s))"

definition signal_send ::
  "(int \<Rightarrow> 'a kproc_scheme \<Rightarrow> u64) \<Rightarrow> int \<Rightarrow> int \<Rightarrow> 'a kproc_scheme \<Rightarrow> 'a kproc_scheme" where
  "signal_send process_find_by_pid n sig s =
     (let proc = process_find_by_pid n s; set_state = (\<lambda>st. upd_proc proc (\<lambda>p. p\<lparr>pstate := st\<rparr>))
      in if proc = 0 then s
      else if sig = SIGKILL then
        set_state PROCESS_STATE_TERMINATED (announce ''[SIGNAL] Killing process '' proc s)
      else if sig = SIGTERM then
        set_state PROCESS_STATE_TERMINATED (announce ''[SIGNAL] Terminating process '' proc s)
      else if sig = SIGSTOP then
        (if pstate (procs s proc) = PROCESS_STATE_RUNNING \<or> pstate (procs s proc) = PROCESS_STATE_READY
         then set_state PROCESS_STATE_BLOCKED (announce ''[SIGNAL] Stopping process '' proc s) else s)
      else if sig = SIGCONT then
        (if pstate (procs s proc) = PROCESS_STATE_BLOCKED
         then set_state PROCESS_STATE_READY (announce ''[SIGNAL] Continuing process '' proc s) else s)
      else if sig = SIGINT then
        set_state PROCESS_STATE_TERMINATED (announce ''[SIGNAL] Interrupting process '' proc s)
      else terminal_writestring ''[SIGNAL] Unknown signal\<newline>'' s)"

definition signal_handle :: "'a kproc_scheme \<Rightarrow> 'a kproc_scheme" where
  "signal_handle s = s"

section \<open>Correctness\<close>

text \<open>The state a signal puts a process into.\<close>

definition signalled :: "int \<Rightarrow> process_state \<Rightarrow> process_state" where
  "signalled sig st =
     (if sig \<in> {SIGKILL, SIGTERM, SIGINT} then PROCESS_STATE_TERMINATED
      else if sig = SIGSTOP \<and> st \<in> {PROCESS_STATE_RUNNING, PROCESS_STATE_READY} then PROCESS_STATE_BLOCKED
      else if sig = SIGCONT \<and> st = PROCESS_STATE_BLOCKED then PROCESS_STATE_READY
      else st)"

lemma announce_fields [simp]:
  "procs (announce msg p s) = procs s" "queue (announce msg p s) ps \<longleftrightarrow> queue s ps"
  "current_process (announce msg p s) = current_process s" "idle_process (announce msg p s) = idle_process s"
  "scheduler_enabled (announce msg p s) = scheduler_enabled s" "process_table (announce msg p s) = process_table s"
  by (simp_all add: announce_def terminal_writestring_eq queue_def)

lemma signal_send_effect:
  assumes "by_pid n s = p" "p \<noteq> 0"
  shows "procs (signal_send by_pid n sig s) = (procs s)(p := (procs s p)\<lparr>pstate := signalled sig (pstate (procs s p))\<rparr>)"
    "queue (signal_send by_pid n sig s) ps \<longleftrightarrow> queue s ps"
    "current_process (signal_send by_pid n sig s) = current_process s"
    "idle_process (signal_send by_pid n sig s) = idle_process s"
    "scheduler_enabled (signal_send by_pid n sig s) = scheduler_enabled s"
    "process_table (signal_send by_pid n sig s) = process_table s"
proof -
  have same: "procs s = (procs s)(p := (procs s p)\<lparr>pstate := st\<rparr>)" if "pstate (procs s p) = st" for st
    using that by (auto simp: fun_upd_idem)
  show "procs (signal_send by_pid n sig s) = (procs s)(p := (procs s p)\<lparr>pstate := signalled sig (pstate (procs s p))\<rparr>)"
    using assms by (simp add: signal_send_def signalled_def Let_def terminal_writestring_eq) (auto intro: same)
  show "queue (signal_send by_pid n sig s) ps \<longleftrightarrow> queue s ps"
    using assms queue_cong [of "s\<lparr>console := x\<rparr>" s ps for x]
    by (simp add: signal_send_def Let_def terminal_writestring_eq)
  show "current_process (signal_send by_pid n sig s) = current_process s"
    "idle_process (signal_send by_pid n sig s) = idle_process s"
    "scheduler_enabled (signal_send by_pid n sig s) = scheduler_enabled s"
    "process_table (signal_send by_pid n sig s) = process_table s"
    by (simp_all add: signal_send_def Let_def terminal_writestring_eq)
qed



text \<open>
  a process that is killed or stopped while it waits in the ready queue runs again: the next
  scheduling decision takes it from the queue and marks it RUNNING.
\<close>

theorem killed_process_runs:
  assumes "scheduler_enabled s" "queue s (p # ps)" "process_get_current s = c" "c \<notin> set (p # ps)" "c \<noteq> 0"
    and "by_pid n s = p" "sig \<in> {SIGKILL, SIGTERM, SIGINT, SIGSTOP}"
  shows "\<exists>s'. schedule (signal_send by_pid n sig s) = (True, s') \<and> current_process s' = p \<and>
    pstate (procs s' p) = PROCESS_STATE_RUNNING"
proof -
  have p: "p \<noteq> 0" "p \<noteq> c" using rq.distinct_members [OF assms(2)] assms(4) by auto
  let ?s = "signal_send by_pid n sig s"
  note eff = signal_send_effect [of by_pid n s p sig, OF assms(6) p(1)]
  have s: "scheduler_enabled ?s" "queue ?s (p # ps)" "process_get_current ?s = c"
    using assms(1-3) by (auto simp: eff process_get_current_def)
  have "chosen (ready_list c (pstate (procs ?s c)) (p # ps)) (process_table ?s ! 0) = p"
    by (simp add: ready_list_def chosen_def)
  from schedule_switches [OF s assms(4,5) this p(2)] obtain s' where "schedule ?s = (True, s')"
    "current_process s' = p" "pstate (procs s' p) = PROCESS_STATE_RUNNING" by metis
  then show ?thesis by blast
qed

theorem killed_process_runs_witness:
  "\<exists>s'. schedule (signal_send (\<lambda>n s. 0x200) 7 9 sched_demo) = (True, s') \<and> current_process s' = 0x200 \<and>
     pstate (procs s' 0x200) = PROCESS_STATE_RUNNING"
  by (rule killed_process_runs [OF sched_demo_facts(1-3)]) simp_all

end
