(* ===== verification/Devices.thy ===== *)
theory Devices
  imports Signal
begin

text \<open>
  The device side of the kernel state: bytes written to I/O ports
  (\<open>src/src/drivers/ports.c\<close>), the table of interrupt handlers and the interrupt controller
  (\<open>src/src/kernel/kernel.c\<close>), and the timer (\<open>src/src/drivers/timer.c\<close>).
\<close>

section \<open>State\<close>

text \<open>The functions that are ever registered as interrupt handlers.\<close>

datatype isr_t =
    Timer_callback | Keyboard_callback | Syscall_handler
  | Invalid_opcode_handler | Double_fault_handler | Stack_fault_handler
  | General_protection_fault_handler | Page_fault_handler

text \<open>
  \<open>port_log\<close> is the sequence of bytes sent to ports.  \<open>vt_requests\<close> is the sequence of calls of
  \<open>vt_switch\<close>, each with the number of characters written to the console before it.
\<close>

record kdev = kproc +
  port_log :: "(u16 \<times> u8) list"
  interrupt_handlers :: "nat \<Rightarrow> isr_t option"
  timer_ticks :: u64
  timer_frequency :: u32
  kbd_buffer :: "char list"
  kbd_read_pos :: u8
  kbd_write_pos :: u8
  ctrl_pressed :: bool
  alt_pressed :: bool
  vt_requests :: "(nat \<times> int) list"

abbreviation (input) IRQ0 :: u8 where "IRQ0 \<equiv> 32"
abbreviation (input) IRQ1 :: u8 where "IRQ1 \<equiv> 33"

definition outb :: "u16 \<Rightarrow> u8 \<Rightarrow> 'a kdev_scheme \<Rightarrow> 'a kdev_scheme" where
  "outb port d s = s\<lparr>port_log := port_log s @ [(port, d)]\<rparr>"

definition register_interrupt_handler :: "u8 \<Rightarrow> isr_t \<Rightarrow> 'a kdev_scheme \<Rightarrow> 'a kdev_scheme" where
  "register_interrupt_handler n handler s =
     s\<lparr>interrupt_handlers := (interrupt_handlers s)(unat n := Some handler)\<rparr>"

definition init_pic :: "'a kdev_scheme \<Rightarrow> 'a kdev_scheme" where
  "init_pic s =
     fold (\<lambda>(port, d). outb port d)
       [(0x20, 0x11), (0xA0, 0x11), (0x21, 0x20), (0xA1, 0x28), (0x21, 0x04), (0xA1, 0x02),
        (0x21, 0x01), (0xA1, 0x01), (0x21, 0xFC), (0xA1, 0xFF)] s"

section \<open>The timer\<close>

abbreviation (input) PIT_FREQUENCY :: u32 where "PIT_FREQUENCY \<equiv> 1193180"

definition timer_get_ticks :: "'a kdev_scheme \<Rightarrow> u64" where
  "timer_get_ticks s = timer_ticks s"

text \<open>\<open>timer_get_ms\<close>; the division faults while the frequency is 0.\<close>

definition ms_of :: "u64 \<Rightarrow> u32 \<Rightarrow> u64" where
  "ms_of ticks freq = (ticks * 1000) div ucast freq"

definition timer_get_ms :: "'a kdev_scheme \<Rightarrow> u64 res" where
  "timer_get_ms s =
     (if timer_frequency s = 0 then Inl (Panic ''Division By Zero'') else Inr (ms_of (timer_ticks s) (timer_frequency s)))"

text \<open>
  \<open>sleep_ms\<close>: after the \<open>k\<close>-th return from \<open>hlt\<close> the tick counter has the value \<open>clock k\<close>, which
  depends on the interrupts that arrive; the result is the number of halts.
\<close>

partial_function (option) sleep_loop :: "(nat \<Rightarrow> u64) \<Rightarrow> u32 \<Rightarrow> u64 \<Rightarrow> u32 \<Rightarrow> nat \<Rightarrow> nat option" where
  "sleep_loop clock freq start ms k =
     (if ms_of (clock k) freq - start < ucast ms then sleep_loop clock freq start ms (k + 1) else Some k)"

definition sleep_ms :: "(nat \<Rightarrow> u64) \<Rightarrow> u32 \<Rightarrow> 'a kdev_scheme \<Rightarrow> nat res" where
  "sleep_ms clock ms s =
     bind_res (timer_get_ms s) (\<lambda>start. returns (sleep_loop clock (timer_frequency s) start ms 0))"

text \<open>
  The end of interrupt is sent after the scheduler's tick: when that switches to another
  process, it is sent only when the interrupted process is resumed.
\<close>

definition timer_callback :: "'a kdev_scheme \<Rightarrow> bool \<times> 'a kdev_scheme" where
  "timer_callback s =
     (let s1 = s\<lparr>timer_ticks := timer_ticks s + 1\<rparr>
      in case scheduler_tick s1 of (switched, s2) \<Rightarrow>
         if switched then (True, s2) else (False, outb 0x20 0x20 s2))"

definition init_timer :: "u32 \<Rightarrow> 'a kdev_scheme \<Rightarrow> 'a kdev_scheme res" where
  "init_timer frequency s =
     (if frequency = 0 then Inl (Panic ''Division By Zero'')
      else let divisor = PIT_FREQUENCY div frequency;
               s1 = outb 0x40 (ucast (drop_bit 8 divisor AND 0xFF)) (outb 0x40 (ucast (divisor AND 0xFF))
                      (outb 0x43 0x36 (s\<lparr>timer_frequency := frequency\<rparr>)));
               s2 = register_interrupt_handler IRQ0 Timer_callback s1
           in Inr (terminal_writestring '' Hz\<newline>'' (terminal_writestring ''Timer initialized at '' s2)))"

section \<open>Correctness\<close>

text \<open>The two bytes sent for a divisor, read back as the 16-bit reload value.\<close>

definition reload_value :: "u8 \<Rightarrow> u8 \<Rightarrow> nat" where
  "reload_value low high = unat low + 256 * unat high"

lemma bytes_of_divisor:
  "reload_value (ucast (d AND 0xFF :: u32)) (ucast (drop_bit 8 d AND 0xFF)) = unat d mod 65536"
proof -
  have m: "(0xFF :: u32) = mask 8" by (simp add: mask_eq_exp_minus_1)
  have l: "unat (ucast (d AND mask 8) :: u8) = unat d mod 256"
    by (simp add: take_bit_eq_mask [symmetric] unsigned_ucast_eq unsigned_take_bit_eq take_bit_eq_mod unat_mod)
  have h: "unat (ucast (drop_bit 8 d AND mask 8) :: u8) = unat d div 256 mod 256"
    by (simp add: take_bit_eq_mask [symmetric] unsigned_ucast_eq unsigned_take_bit_eq unsigned_drop_bit_eq take_bit_eq_mod drop_bit_eq_div unat_mod unat_div)
  show ?thesis unfolding reload_value_def m l h using mod_mult2_eq [of "unat d" 256 256] by simp
qed

text \<open>
  the timer's rate.  \<open>init_timer\<close> sends the two bytes of the divisor to the interval timer,
  which counts down from their 16-bit value; that value is the divisor for the requested rate
  exactly for rates of at least 19 Hz, and the divisor modulo 65536 below.
\<close>

theorem init_timer_rate:
  assumes "frequency \<noteq> 0"
  shows "\<exists>s' low high. init_timer frequency s = Inr s' \<and>
    port_log s' = port_log s @ [(0x43, 0x36), (0x40, low), (0x40, high)] \<and>
    reload_value low high = 1193180 div unat frequency mod 65536 \<and>
    (reload_value low high = 1193180 div unat frequency \<longleftrightarrow> 19 \<le> unat frequency) \<and>
    timer_frequency s' = frequency \<and> interrupt_handlers s' 32 = Some Timer_callback"
proof -
  let ?d = "1193180 div frequency" and ?n = "1193180 div unat frequency"
  have d: "unat ?d = ?n" by (simp add: unat_div)
  have r: "reload_value (ucast (?d AND 0xFF)) (ucast (drop_bit 8 ?d AND 0xFF)) = ?n mod 65536"
    unfolding bytes_of_divisor d ..
  have f: "0 < unat frequency" using assms by (simp add: unat_gt_0)
  have "?n < 65536 \<longleftrightarrow> 19 \<le> unat frequency"
  proof
    assume "?n < 65536"
    then have "1193180 < 65536 * unat frequency" using f by (simp add: div_less_iff_less_mult mult.commute)
    then show "19 \<le> unat frequency" by simp
  next
    assume "19 \<le> unat frequency"
    then show "?n < 65536" using f by (simp add: div_less_iff_less_mult)
  qed
  moreover have "?n mod 65536 = ?n \<longleftrightarrow> ?n < 65536" by (metis mod_less mod_less_divisor zero_less_numeral)
  ultimately show ?thesis using assms r
    by (auto simp: init_timer_def Let_def outb_def register_interrupt_handler_def terminal_writestring_eq)
qed

lemma sleep_loop_reaches:
  assumes "\<And>j. i \<le> j \<Longrightarrow> j < k \<Longrightarrow> ms_of (clock j) freq - start < ucast ms" "i \<le> k"
    and "\<not> ms_of (clock k) freq - start < ucast ms"
  shows "sleep_loop clock freq start ms i = Some k"
  using assms(1,2)
proof (induction "k - i" arbitrary: i)
  case 0
  then show ?case using assms(3) by (simp add: sleep_loop.simps)
next
  case (Suc n)
  then have "sleep_loop clock freq start ms (i + 1) = Some k" by (intro Suc.hyps(1)) auto
  then show ?case using Suc.prems(1) [of i] Suc.hyps(2) by (subst sleep_loop.simps) auto
qed

lemma unat_ucast_32_64: "unat (ucast (w :: u32) :: u64) = unat w"
  using order_less_trans [OF unat_less_32, of 18446744073709551616 w]
  by (simp add: unsigned_ucast_eq take_bit_nat_eq_self_iff)

lemma unat_ms_of:
  assumes "f \<noteq> 0" "unat t * 1000 < 18446744073709551616"
  shows "unat (ms_of t f) = unat t * 1000 div unat f"
proof -
  have "unat (t * 1000) = unat t * 1000" using assms(2) by (simp add: unat_word_ariths)
  moreover have "unat (ucast f :: u64) = unat f" by (rule unat_ucast_32_64)
  ultimately show ?thesis by (simp add: ms_of_def unat_div)
qed

lemma round_up: "(x :: nat) \<le> (x + 999) div 1000 * 1000"
  using div_mult_mod_eq [of "x + 999" 1000] mod_less_divisor [of 1000 "x + 999"] by linarith

text \<open>
  C31: sleeping ends.  When every halt lasts one tick, \<open>sleep_ms\<close> returns after at most
  \<open>\<lceil>ms * frequency / 1000\<rceil>\<close> halts, as soon as and not before \<open>ms\<close> milliseconds have been counted.
\<close>

theorem sleep_ms_terminates:
  assumes f: "timer_frequency s \<noteq> 0" and clock: "\<And>k. clock k = timer_ticks s + of_nat k"
    and K: "K = (unat ms * unat (timer_frequency s) + 999) div 1000"
    and small: "(unat (timer_ticks s) + K) * 1000 < 18446744073709551616"
  shows "\<exists>k \<le> K. sleep_ms clock ms s = Inr k \<and>
    (\<forall>j \<le> k. j = k \<longleftrightarrow> unat ms \<le>
       (unat (timer_ticks s) + j) * 1000 div unat (timer_frequency s) - unat (timer_ticks s) * 1000 div unat (timer_frequency s))"
proof -
  let ?t = "unat (timer_ticks s)" and ?f = "unat (timer_frequency s)"
  let ?start = "ms_of (timer_ticks s) (timer_frequency s)"
  let ?e = "\<lambda>j. (?t + j) * 1000 div ?f - ?t * 1000 div ?f"
  have f0: "0 < ?f" using f by (simp add: unat_gt_0)
  have elapsed: "ms_of (clock j) (timer_frequency s) - ?start < ucast ms \<longleftrightarrow> ?e j < unat ms" if "j \<le> K" for j
  proof -
    have "unat (of_nat j :: u64) = j" using that small by (intro unat_of_nat_64) simp
    then have "unat (clock j) = ?t + j"
      using that small unfolding clock by (subst unat_add_no_wrap) auto
    then have a: "unat (ms_of (clock j) (timer_frequency s)) = (?t + j) * 1000 div ?f"
      using unat_ms_of [OF f, of "clock j"] that small by simp
    have b: "unat ?start = ?t * 1000 div ?f" using unat_ms_of [OF f, of "timer_ticks s"] small by simp
    have "unat ?start \<le> unat (ms_of (clock j) (timer_frequency s))" unfolding a b by (intro div_le_mono) simp
    then have "unat (ms_of (clock j) (timer_frequency s) - ?start) = ?e j"
      using a b by (simp add: unat_sub word_le_nat_alt)
    moreover have "unat (ucast ms :: u64) = unat ms" by (rule unat_ucast_32_64)
    ultimately show ?thesis by (simp add: word_less_nat_alt)
  qed
  have "unat ms * ?f \<le> K * 1000" unfolding K by (rule round_up)
  then have "(?t * 1000 + unat ms * ?f) div ?f \<le> (?t + K) * 1000 div ?f" by (intro div_le_mono) simp
  moreover have "(?t * 1000 + unat ms * ?f) div ?f = ?t * 1000 div ?f + unat ms" using f0 by simp
  ultimately have PK: "unat ms \<le> ?e K" by simp
  define k where "k = (LEAST j. unat ms \<le> ?e j)"
  have k: "unat ms \<le> ?e k" "k \<le> K" "\<And>j. j < k \<Longrightarrow> ?e j < unat ms"
    unfolding k_def using PK LeastI [of "\<lambda>j. unat ms \<le> ?e j"] Least_le [of "\<lambda>j. unat ms \<le> ?e j"]
      not_less_Least [of _ "\<lambda>j. unat ms \<le> ?e j"] by (auto simp: not_le)
  have "sleep_loop clock (timer_frequency s) ?start ms 0 = Some k"
    by (rule sleep_loop_reaches) (use k elapsed in \<open>auto simp: not_less\<close>)
  then have "sleep_ms clock ms s = Inr k" using f by (simp add: sleep_ms_def timer_get_ms_def returns_def)
  moreover have "j = k \<longleftrightarrow> unat ms \<le> ?e j" if "j \<le> k" for j
  proof (cases "j = k")
    case False
    then have "?e j < unat ms" using that by (intro k(3)) simp
    with False show ?thesis by linarith
  qed (use k(1) in simp)
  ultimately show ?thesis using k(2) by (intro exI [of _ k]) blast
qed

definition kdev_boot :: kdev where
  "kdev_boot = kproc.extend kproc_boot
     \<lparr>port_log = [], interrupt_handlers = (\<lambda>_. None), timer_ticks = 0, timer_frequency = 0,
      kbd_buffer = replicate 256 (CHR 0x00), kbd_read_pos = 0, kbd_write_pos = 0, ctrl_pressed = False,
      alt_pressed = False, vt_requests = []\<rparr>"

lemmas kdev_boot_simps = kdev_boot_def kproc.defs

theorem init_timer_rate_witness:
  "\<exists>s low high. init_timer 100 kdev_boot = Inr s \<and> port_log s = [(0x43, 0x36), (0x40, low), (0x40, high)] \<and>
     reload_value low high = 11931"
  using init_timer_rate [of 100 kdev_boot] by (auto simp: kdev_boot_simps)

theorem sleep_ms_terminates_witness:
  "\<exists>k \<le> 200. sleep_ms (\<lambda>k. of_nat k) 2000 (kdev_boot\<lparr>timer_frequency := 100\<rparr>) = Inr k"
  using sleep_ms_terminates [of "kdev_boot\<lparr>timer_frequency := 100\<rparr>" "\<lambda>k. of_nat k" 200 2000]
  by (auto simp: kdev_boot_simps)

text \<open>
  The interrupt controller gets its end-of-interrupt byte exactly when the timer interrupt
  does not switch processes: a tick that starts a new process leaves the interrupt
  unacknowledged.
\<close>

lemma timer_callback_eoi:
  "timer_ticks (snd (timer_callback s)) = timer_ticks s + 1 \<and>
   port_log (snd (timer_callback s)) =
     (if fst (timer_callback s) then port_log s else port_log s @ [(0x20, 0x20)])"
proof -
  let ?t = "s\<lparr>timer_ticks := timer_ticks s + 1\<rparr>"
  have "sched_forget (snd (scheduler_tick ?t)) = sched_forget ?t"
    using scheduler_tick_frame [of ?t] by (simp add: sched_frame_def)
  from arg_cong [OF this, of timer_ticks] arg_cong [OF this, of port_log]
  have "timer_ticks (snd (scheduler_tick ?t)) = timer_ticks s + 1" "port_log (snd (scheduler_tick ?t)) = port_log s"
    by (simp_all add: sched_forget_def)
  then show ?thesis by (simp add: timer_callback_def Let_def outb_def split_beta)
qed

end
