(* ===== verification/Exceptions.thy ===== *)
theory Exceptions
  imports Devices
begin

text \<open>
  The reports the kernel prints before it halts: \<open>src/kernel/panic.c\<close> and
  \<open>src/boot/exceptions.c\<close>.  A panic never returns, so the functions that end in one give the
  state in which the processor halts.  The address of a page fault, which the processor keeps in
  CR2, is an argument.  The lemmas show that the hexadecimal numbers read back to the printed
  values and that the dump holds every register.
\<close>

section \<open>The registers of an interrupted program\<close>

text \<open>The structure \<open>registers_t\<close> of \<open>include/kernel/isr.h\<close>.\<close>

record registers_t =
  reg_r15 :: u64
  reg_r14 :: u64
  reg_r13 :: u64
  reg_r12 :: u64
  reg_r11 :: u64
  reg_r10 :: u64
  reg_r9 :: u64
  reg_r8 :: u64
  reg_rdi :: u64
  reg_rsi :: u64
  reg_rbp :: u64
  reg_rbx :: u64
  reg_rdx :: u64
  reg_rcx :: u64
  reg_rax :: u64
  reg_int_no :: u64
  reg_err_code :: u64
  reg_rip :: u64
  reg_cs :: u64
  reg_rflags :: u64
  reg_rsp :: u64
  reg_ss :: u64

section \<open>Printing\<close>

definition hex_digit :: "u8 \<Rightarrow> char" where
  "hex_digit digit = (if digit < 10 then char_of (0x30 + unat digit) else char_of (0x41 + unat digit - 10))"

text \<open>The values of the loop variable: 60, 56, \<dots>, 0.\<close>

definition hex_shifts :: "nat list" where
  "hex_shifts = map (\<lambda>k. 4 * k) (rev [0..<16])"

definition print_digits :: "u64 \<Rightarrow> 'a machine_scheme \<Rightarrow> 'a machine_scheme" where
  "print_digits val = fold (\<lambda>i. terminal_putchar_log (hex_digit (ucast (drop_bit i val AND 0xF)))) hex_shifts"

definition print_hex_value :: "u64 \<Rightarrow> 'a machine_scheme \<Rightarrow> 'a machine_scheme" where
  "print_hex_value val s = print_digits val (terminal_writestring ''0x'' s)"

definition print_hex :: "string \<Rightarrow> u64 \<Rightarrow> 'a machine_scheme \<Rightarrow> 'a machine_scheme" where
  "print_hex label val s =
     terminal_writestring ''  '' (print_digits val (terminal_writestring '': 0x'' (terminal_writestring label s)))"

text \<open>Statements of a C block, run one after the other.\<close>

definition stmts :: "('s \<Rightarrow> 's) list \<Rightarrow> 's \<Rightarrow> 's" where
  "stmts fs = fold (\<lambda>f. f) fs"

abbreviation (input) rule_line :: string where
  "rule_line \<equiv> ''================================================================================''"

abbreviation (input) nl :: string where "nl \<equiv> ''\<newline>''"

section \<open>Panic\<close>

definition panic_header :: "string \<Rightarrow> ('a machine_scheme \<Rightarrow> 'a machine_scheme) list" where
  "panic_header msg =
     [terminal_writestring (nl @ nl),
      terminal_writestring (rule_line @ nl),
      terminal_writestring (''                              KERNEL PANIC'' @ nl),
      terminal_writestring (rule_line @ nl @ nl),
      terminal_writestring ''Error: '',
      terminal_writestring msg,
      terminal_writestring (nl @ nl)]"

definition panic :: "string \<Rightarrow> 'a machine_scheme \<Rightarrow> 'a machine_scheme" where
  "panic msg = stmts (panic_header msg @
     [terminal_writestring (''System halted. Please restart your computer.'' @ nl)])"

definition panic_with_regs :: "string \<Rightarrow> registers_t \<Rightarrow> 'a machine_scheme \<Rightarrow> 'a machine_scheme" where
  "panic_with_regs msg regs = stmts (panic_header msg @
     [terminal_writestring ''Interrupt: '',
      print_hex ''INT'' (reg_int_no regs), print_hex ''ERR'' (reg_err_code regs), terminal_writestring (nl @ nl),
      terminal_writestring (''Registers:'' @ nl),
      print_hex ''RAX'' (reg_rax regs), print_hex ''RBX'' (reg_rbx regs),
      print_hex ''RCX'' (reg_rcx regs), print_hex ''RDX'' (reg_rdx regs), terminal_writestring nl,
      print_hex ''RSI'' (reg_rsi regs), print_hex ''RDI'' (reg_rdi regs),
      print_hex ''RBP'' (reg_rbp regs), print_hex ''RSP'' (reg_rsp regs), terminal_writestring nl,
      print_hex ''R8 '' (reg_r8 regs), print_hex ''R9 '' (reg_r9 regs),
      print_hex ''R10'' (reg_r10 regs), print_hex ''R11'' (reg_r11 regs), terminal_writestring nl,
      print_hex ''R12'' (reg_r12 regs), print_hex ''R13'' (reg_r13 regs),
      print_hex ''R14'' (reg_r14 regs), print_hex ''R15'' (reg_r15 regs), terminal_writestring (nl @ nl),
      terminal_writestring (''Execution:'' @ nl),
      print_hex ''RIP'' (reg_rip regs), print_hex ''CS '' (reg_cs regs), print_hex ''RFLAGS'' (reg_rflags regs),
      terminal_writestring (nl @ nl),
      terminal_writestring (''System halted. Please restart your computer.'' @ nl)])"

definition exception_messages :: "string list" where
  "exception_messages =
     [''Division By Zero'', ''Debug'', ''Non Maskable Interrupt'', ''Breakpoint'', ''Into Detected Overflow'',
      ''Out of Bounds'', ''Invalid Opcode'', ''No Coprocessor'', ''Double Fault'', ''Coprocessor Segment Overrun'',
      ''Bad TSS'', ''Segment Not Present'', ''Stack Fault'', ''General Protection Fault'', ''Page Fault'',
      ''Unknown Interrupt'', ''Coprocessor Fault'', ''Alignment Check'', ''Machine Check'',
      ''SIMD Floating-Point Exception'', ''Virtualization Exception''] @ replicate 11 ''Reserved''"

definition exception_handler :: "registers_t \<Rightarrow> 'a machine_scheme \<Rightarrow> 'a machine_scheme" where
  "exception_handler regs =
     (if reg_int_no regs < 32 then panic_with_regs (exception_messages ! unat (reg_int_no regs)) regs
      else panic_with_regs ''Unknown exception'' regs)"

section \<open>The handlers of single exceptions\<close>

definition fault_header :: "string \<Rightarrow> ('a machine_scheme \<Rightarrow> 'a machine_scheme) list" where
  "fault_header title =
     [terminal_writestring (nl @ nl @ rule_line @ nl),
      terminal_writestring (title @ nl),
      terminal_writestring (rule_line @ nl @ nl)]"

definition page_fault_handler :: "u64 \<Rightarrow> registers_t \<Rightarrow> 'a machine_scheme \<Rightarrow> 'a machine_scheme" where
  "page_fault_handler faulting_address regs =
     (let error = ucast (reg_err_code regs) :: u32
      in stmts (fault_header ''                                PAGE FAULT'' @
       [terminal_writestring ''Faulting address: '', print_hex_value faulting_address, terminal_writestring (nl @ nl),
        terminal_writestring ''Error code: '', print_hex_value (ucast error), terminal_writestring '' - '',
        terminal_writestring (if error AND 1 \<noteq> 0 then ''protection violation'' else ''page not present''),
        terminal_writestring '', during '',
        terminal_writestring (if error AND 2 \<noteq> 0 then ''write'' else ''read''),
        terminal_writestring '' in '',
        terminal_writestring (if error AND 4 \<noteq> 0 then ''user'' else ''kernel''),
        terminal_writestring '' mode'',
        (if error AND 8 \<noteq> 0 then terminal_writestring '', reserved bit set'' else id),
        (if error AND 16 \<noteq> 0 then terminal_writestring '', instruction fetch'' else id),
        terminal_writestring (nl @ nl),
        terminal_writestring ''Instruction pointer: '', print_hex_value (reg_rip regs), terminal_writestring nl,
        panic_with_regs ''Unhandled page fault'' regs]))"

definition general_protection_fault_handler :: "registers_t \<Rightarrow> 'a machine_scheme \<Rightarrow> 'a machine_scheme" where
  "general_protection_fault_handler regs =
     (let error = ucast (reg_err_code regs) :: u32;
          index = ucast (drop_bit 3 error AND 0x1FFF) :: u16;
          tbl = ucast (drop_bit 1 error AND 0x3) :: u8;
          external = (error AND 0x1 \<noteq> 0)
      in stmts (fault_header ''                          GENERAL PROTECTION FAULT'' @
       (if error \<noteq> 0 then
         [terminal_writestring ''Error code: '', print_hex_value (ucast error), terminal_writestring nl,
          terminal_writestring ''Segment selector: '', print_hex_value (ucast index),
          terminal_writestring '', Table: '',
          terminal_writestring (if tbl = 0 then ''GDT'' else if tbl = 1 then ''IDT'' else ''LDT''),
          (if external then terminal_writestring '', External event'' else id),
          terminal_writestring nl]
        else []) @
       [terminal_writestring ''Instruction pointer: '', print_hex_value (reg_rip regs), terminal_writestring nl,
        panic_with_regs ''General protection fault'' regs]))"

definition double_fault_handler :: "registers_t \<Rightarrow> 'a machine_scheme \<Rightarrow> 'a machine_scheme" where
  "double_fault_handler regs =
     stmts (fault_header ''                              DOUBLE FAULT'' @
       [terminal_writestring (''CRITICAL: Exception occurred while handling another exception!'' @ nl),
        terminal_writestring (''This often indicates stack overflow or corrupted interrupt handlers.'' @ nl @ nl),
        panic_with_regs ''Double fault - system integrity compromised'' regs])"

definition invalid_opcode_handler :: "registers_t \<Rightarrow> 'a machine_scheme \<Rightarrow> 'a machine_scheme" where
  "invalid_opcode_handler regs =
     stmts (fault_header ''                            INVALID OPCODE'' @
       [terminal_writestring (''CPU encountered an invalid or undefined instruction.'' @ nl),
        terminal_writestring (''This may indicate corrupted code or incompatible CPU instructions.'' @ nl @ nl),
        terminal_writestring ''Instruction pointer: '', print_hex_value (reg_rip regs), terminal_writestring nl,
        panic_with_regs ''Invalid opcode'' regs])"

definition stack_fault_handler :: "registers_t \<Rightarrow> 'a machine_scheme \<Rightarrow> 'a machine_scheme" where
  "stack_fault_handler regs =
     (let error = ucast (reg_err_code regs) :: u32
      in stmts (fault_header ''                             STACK FAULT'' @
       (if error \<noteq> 0 then
         [terminal_writestring ''Segment selector: '', print_hex_value (ucast error), terminal_writestring nl]
        else []) @
       [terminal_writestring ''Stack pointer: '', print_hex_value (reg_rsp regs), terminal_writestring nl,
        panic_with_regs ''Stack segment fault'' regs]))"

definition init_exceptions :: "'a kdev_scheme \<Rightarrow> 'a kdev_scheme" where
  "init_exceptions = stmts
     [register_interrupt_handler 6 Invalid_opcode_handler,
      register_interrupt_handler 8 Double_fault_handler,
      register_interrupt_handler 12 Stack_fault_handler,
      register_interrupt_handler 13 General_protection_fault_handler,
      register_interrupt_handler 14 Page_fault_handler,
      terminal_writestring (''Exception handlers initialized'' @ nl)]"

section \<open>Hexadecimal numbers read back\<close>

definition hex16 :: "u64 \<Rightarrow> string" where
  "hex16 val = map (\<lambda>i. hex_digit (ucast (drop_bit i val AND 0xF))) hex_shifts"

definition digit_of :: "char \<Rightarrow> nat" where
  "digit_of c = (if of_char c < (0x41 :: nat) then of_char c - 0x30 else of_char c + 10 - 0x41)"

definition hex_value :: "string \<Rightarrow> nat" where
  "hex_value = foldl (\<lambda>a c. 16 * a + digit_of c) 0"

lemma print_digits_eq: "print_digits val s = s\<lparr>console := console s @ hex16 val\<rparr>"
proof -
  have "fold (\<lambda>i. terminal_putchar_log (f i)) ks s = s\<lparr>console := console s @ map f ks\<rparr>" for f ks
    by (induction ks arbitrary: s) (simp_all add: terminal_putchar_log_def)
  then show ?thesis by (simp add: print_digits_def hex16_def)
qed

lemma digit_of_hex_digit: "d < 16 \<Longrightarrow> digit_of (hex_digit d) = unat d"
  by (simp add: digit_of_def hex_digit_def word_less_nat_alt)

lemma foldl_base16: "foldl (\<lambda>a k. 16 * a + x div 16 ^ k mod 16) 0 (rev [0..<n]) = (x :: nat) mod 16 ^ n"
proof -
  have "foldl (\<lambda>a k. 16 * a + x div 16 ^ k mod 16) a (rev [0..<n]) = 16 ^ n * a + x mod 16 ^ n" for a
  proof (induction n arbitrary: a)
    case (Suc n)
    have "x mod 16 ^ Suc n = 16 ^ n * (x div 16 ^ n mod 16) + x mod 16 ^ n"
      using mod_mult2_eq [of x "16 ^ n" 16] by (simp only: power_Suc2)
    with Suc show ?case by (simp add: algebra_simps)
  qed simp
  from this [of 0] show ?thesis by simp
qed

lemma unat_nibble: "unat (ucast (drop_bit (4 * k) (v :: u64) AND 0xF) :: u8) = unat v div 16 ^ k mod 16"
proof -
  have a: "w AND 0xF = take_bit 4 w" for w :: u64 by (simp add: take_bit_eq_mask mask_eq_exp_minus_1)
  have t: "unat (ucast (take_bit 4 w) :: u8) = unat w mod 16" for w :: u64
    by (simp add: unsigned_ucast_eq take_bit_eq_mod unat_mod mod_less [of _ 256] order.strict_trans2 [of _ 16])
  have "unat (drop_bit (4 * k) v) = drop_bit (4 * k) (unat v)"
    using unsigned_less [of v] by (simp add: unsigned_drop_bit_eq take_bit_nat_eq_self)
  then have "unat (drop_bit (4 * k) v) = unat v div 16 ^ k" by (simp add: drop_bit_eq_div [of _ "unat v"] power_mult)
  then show ?thesis by (simp only: a t)
qed

lemma hex_value_hex16: "hex_value (hex16 v) = unat v"
proof -
  have d: "digit_of (hex_digit (ucast (drop_bit (4 * k) v AND 0xF))) = unat v div 16 ^ k mod 16" for k
    using digit_of_hex_digit [of "ucast (drop_bit (4 * k) v AND 0xF)"] by (simp add: word_less_nat_alt unat_nibble)
  have "hex_value (hex16 v) = unat v mod 16 ^ 16"
    using foldl_base16 [of "unat v" 16] by (simp add: hex_value_def hex16_def hex_shifts_def foldl_map d del: upt_rec_numeral)
  then show ?thesis using unsigned_less [of v] by simp
qed

section \<open>What a panic leaves on the screen\<close>

definition extends :: "('a machine_scheme \<Rightarrow> 'a machine_scheme) \<Rightarrow> bool" where
  "extends f \<longleftrightarrow> (\<forall>s. \<exists>t. f s = s\<lparr>console := console s @ t\<rparr>)"

lemma extends_write [simp, intro]: "extends (terminal_writestring t)" "extends (print_hex l v)" "extends (print_hex_value v)" "extends id"
  by (auto simp: extends_def terminal_writestring_eq print_hex_def print_hex_value_def print_digits_eq)
    (metis append_Nil2 machine.surjective machine.update_convs(2))

lemma extends_stmts: "list_all extends fs \<Longrightarrow> extends (stmts fs)"
proof (induction fs)
  case Nil
  then show ?case using extends_write(4) by (simp add: stmts_def id_def)
next
  case (Cons f fs)
  show ?case unfolding extends_def
  proof
    fix s
    obtain t where t: "f s = s\<lparr>console := console s @ t\<rparr>" using Cons.prems by (auto simp: extends_def)
    obtain t' where "stmts fs (f s) = (f s)\<lparr>console := console (f s) @ t'\<rparr>" using Cons by (auto simp: extends_def)
    then have "stmts (f # fs) s = s\<lparr>console := console s @ t @ t'\<rparr>" using t by (simp add: stmts_def)
    then show "\<exists>t. stmts (f # fs) s = s\<lparr>console := console s @ t\<rparr>" ..
  qed
qed

lemma stmts_shows:
  assumes "list_all extends fs" "f \<in> set fs" "\<And>s. f s = s\<lparr>console := console s @ t\<rparr>"
  shows "\<exists>pre post. console (stmts fs s) = pre @ t @ post"
proof -
  obtain as bs where fs: "fs = as @ f # bs" using assms(2) by (meson split_list)
  obtain post where "stmts bs (f (stmts as s)) = (f (stmts as s))\<lparr>console := console (f (stmts as s)) @ post\<rparr>"
    using extends_stmts [of bs] assms(1) by (auto simp: fs extends_def)
  then have "console (stmts fs s) = console (stmts as s) @ t @ post" by (simp add: fs stmts_def assms(3))
  then show ?thesis by blast
qed

definition register_dump :: "registers_t \<Rightarrow> (string \<times> u64) list" where
  "register_dump regs =
     [(''INT'', reg_int_no regs), (''ERR'', reg_err_code regs), (''RAX'', reg_rax regs), (''RBX'', reg_rbx regs),
      (''RCX'', reg_rcx regs), (''RDX'', reg_rdx regs), (''RSI'', reg_rsi regs), (''RDI'', reg_rdi regs),
      (''RBP'', reg_rbp regs), (''RSP'', reg_rsp regs), (''R8 '', reg_r8 regs), (''R9 '', reg_r9 regs),
      (''R10'', reg_r10 regs), (''R11'', reg_r11 regs), (''R12'', reg_r12 regs), (''R13'', reg_r13 regs),
      (''R14'', reg_r14 regs), (''R15'', reg_r15 regs), (''RIP'', reg_rip regs), (''CS '', reg_cs regs),
      (''RFLAGS'', reg_rflags regs)]"

lemma extends_header [simp]: "list_all extends (panic_header msg)" "list_all extends (fault_header title)"
  by (auto simp: panic_header_def fault_header_def)

lemma extends_panic [simp, intro]: "extends (panic_with_regs msg regs)"
  unfolding panic_with_regs_def by (rule extends_stmts) simp

lemma panic_shows_message: "\<exists>pre post. console (panic_with_regs msg regs s) = pre @ msg @ post"
  unfolding panic_with_regs_def
  by (rule stmts_shows [of _ "terminal_writestring msg"]) (simp_all add: terminal_writestring_eq, simp add: panic_header_def)

lemma panic_shows_register:
  assumes "(label, v) \<in> set (register_dump regs)"
  shows "\<exists>pre post. console (panic_with_regs msg regs s) = pre @ (label @ '': 0x'' @ hex16 v) @ post"
proof -
  have "\<exists>pre post. console (panic_with_regs msg regs s) = pre @ (label @ '': 0x'' @ hex16 v @ ''  '') @ post"
    unfolding panic_with_regs_def
  proof (rule stmts_shows [of _ "print_hex label v"], goal_cases)
    case 2
    then show ?case using assms unfolding register_dump_def by (auto simp del: append.simps(2))
  qed (simp_all add: print_hex_def terminal_writestring_eq print_digits_eq)
  then show ?thesis by (metis append.assoc)
qed

end
