(* ===== verification/Keyboard.thy ===== *)
theory Keyboard
  imports Devices Byte_Queue
begin

text \<open>
  The keyboard driver (\<open>src/src/drivers/keyboard.c\<close>): a ring buffer of 256 characters with 8-bit
  positions, filled by the interrupt handler and emptied by \<open>keyboard_getchar\<close>.  The scan code
  read from port 0x60 is an argument of the handler.
\<close>

section \<open>Operations\<close>

definition kbd_us :: "char list" where
  "kbd_us = [CHR 0x00, CHR 0x1B] @ ''1234567890-='' @ [CHR 0x08, CHR 0x09] @ ''qwertyuiop[]'' @ [CHR 0x0A, CHR 0x00] @
     ''asdfghjkl;'' @ [CHR 0x27, CHR 0x60, CHR 0x00, CHR 0x5C] @ ''zxcvbnm,./'' @ [CHR 0x00] @ ''*'' @ [CHR 0x00] @ '' '' @
     replicate 16 (CHR 0x00) @ ''-'' @ replicate 3 (CHR 0x00) @ ''+'' @ replicate 49 (CHR 0x00)"

text \<open>\<open>kbd_buffer[kbd_write_pos] = c; kbd_write_pos = next_write;\<close>\<close>

definition kbd_store :: "char \<Rightarrow> 'a kdev_scheme \<Rightarrow> 'a kdev_scheme" where
  "kbd_store c s = s\<lparr>kbd_buffer := (kbd_buffer s)[unat (kbd_write_pos s) := c], kbd_write_pos := kbd_write_pos s + 1\<rparr>"

definition kbd_room :: "'a kdev_scheme \<Rightarrow> bool" where
  "kbd_room s \<longleftrightarrow> kbd_write_pos s + 1 \<noteq> kbd_read_pos s"

definition vt_switch_request :: "int \<Rightarrow> 'a kdev_scheme \<Rightarrow> 'a kdev_scheme" where
  "vt_switch_request n s = s\<lparr>vt_requests := vt_requests s @ [(length (console s), n)]\<rparr>"

definition arrow_char :: "u8 \<Rightarrow> char" where
  "arrow_char scancode =
     (if scancode = 0x50 then CHR ''B'' else if scancode = 0x4D then CHR ''C''
      else if scancode = 0x4B then CHR ''D'' else CHR ''A'')"

definition keyboard_callback ::
  "(int \<Rightarrow> 'a kdev_scheme \<Rightarrow> u64) \<Rightarrow> u8 \<Rightarrow> 'a kdev_scheme \<Rightarrow> 'a kdev_scheme" where
  "keyboard_callback process_find_by_pid scancode s =
     (if scancode = 0x1D then s\<lparr>ctrl_pressed := True\<rparr>
      else if scancode = 0x9D then s\<lparr>ctrl_pressed := False\<rparr>
      else if scancode = 0x38 then s\<lparr>alt_pressed := True\<rparr>
      else if scancode = 0xB8 then s\<lparr>alt_pressed := False\<rparr>
      else if alt_pressed s \<and> 0x3B \<le> scancode \<and> scancode \<le> 0x3E then
        vt_switch_request (int (unat scancode) - 0x3B) s
      else if scancode AND 0x80 \<noteq> 0 then s
      else if scancode = 0x48 \<or> scancode = 0x50 \<or> scancode = 0x4B \<or> scancode = 0x4D then
        (if \<not> kbd_room s then s
         else let s1 = kbd_store (CHR 0x1B) s
         in if \<not> kbd_room s1 then s1
         else let s2 = kbd_store (CHR ''['') s1
         in if \<not> kbd_room s2 then s2 else kbd_store (arrow_char scancode) s2)
      else if scancode = 0x0F then
        (if kbd_room s then kbd_store (CHR 0x09) s else s)
      else let c = kbd_us ! unat scancode
        in if c = CHR 0x00 then s
        else if ctrl_pressed s \<and> (c = CHR ''c'' \<or> c = CHR ''C'') then
          let s1 = terminal_writestring ''^C\<newline>'' s; current = process_get_current s1
          in if current \<noteq> 0 \<and> pid (procs s1 current) \<noteq> 1
             then signal_send process_find_by_pid (sint (pid (procs s1 current))) 2 s1 else s1
        else let s1 = (if kbd_room s then kbd_store c s else s)
          in if c \<noteq> CHR 0x1B then terminal_putchar_log c s1 else s1)"

definition keyboard_has_char :: "'a kdev_scheme \<Rightarrow> bool" where
  "keyboard_has_char s \<longleftrightarrow> kbd_read_pos s \<noteq> kbd_write_pos s"

definition keyboard_getchar :: "'a kdev_scheme \<Rightarrow> char \<times> 'a kdev_scheme" where
  "keyboard_getchar s =
     (if kbd_read_pos s = kbd_write_pos s then (CHR 0x00, s)
      else (kbd_buffer s ! unat (kbd_read_pos s), s\<lparr>kbd_read_pos := kbd_read_pos s + 1\<rparr>))"

definition init_keyboard :: "'a kdev_scheme \<Rightarrow> 'a kdev_scheme" where
  "init_keyboard s =
     register_interrupt_handler IRQ1 Keyboard_callback (s\<lparr>kbd_read_pos := 0, kbd_write_pos := 0\<rparr>)"

section \<open>The buffer as a queue\<close>

definition kbd_inv :: "'a kdev_scheme \<Rightarrow> bool" where
  "kbd_inv s \<longleftrightarrow> length (kbd_buffer s) = 256"

definition kbd_items :: "'a kdev_scheme \<Rightarrow> char list" where
  "kbd_items s = map (\<lambda>i. kbd_buffer s ! unat (kbd_read_pos s + of_nat i)) [0..<unat (kbd_write_pos s - kbd_read_pos s)]"

lemma length_kbd_items [simp]: "length (kbd_items s) = unat (kbd_write_pos s - kbd_read_pos s)"
  by (simp add: kbd_items_def)

lemma unat_less_8: "unat (a :: u8) < 256"
  by (rule order_less_le_trans [OF unsigned_less]) simp

lemma kbd_items_bound: "length (kbd_items s) \<le> 255"
  using unat_less_8 [of "kbd_write_pos s - kbd_read_pos s"] by simp

lemma unat_of_nat_8: "n < 256 \<Longrightarrow> unat (of_nat n :: u8) = n"
  by (simp add: unat_of_nat)

lemma unat_add_1_u8: "unat (d :: u8) < 255 \<Longrightarrow> unat (d + 1) = unat d + 1"
  by (subst unat_add_no_wrap) simp_all

lemma kbd_room_items: "kbd_room s \<longleftrightarrow> length (kbd_items s) < 255"
proof -
  let ?d = "kbd_write_pos s - kbd_read_pos s"
  have "kbd_write_pos s + 1 = kbd_read_pos s \<longleftrightarrow> ?d = - 1" by (auto simp: diff_eq_eq eq_diff_eq [symmetric])
  also have "\<dots> \<longleftrightarrow> unat ?d = 255" by (simp add: word_unat_eq_iff unsigned_minus_1_eq_mask mask_eq_exp_minus_1)
  finally show ?thesis using kbd_items_bound [of s] by (auto simp: kbd_room_def)
qed

lemma kbd_store_items:
  assumes "kbd_inv s" "length (kbd_items s) < 255"
  shows "kbd_inv (kbd_store c s)" "kbd_items (kbd_store c s) = kbd_items s @ [c]"
proof -
  let ?r = "kbd_read_pos s" and ?w = "kbd_write_pos s"
  let ?n = "unat (?w - ?r)"
  show "kbd_inv (kbd_store c s)" using assms(1) by (simp add: kbd_inv_def kbd_store_def)
  have n: "unat (?w + 1 - ?r) = ?n + 1"
    using unat_add_1_u8 [of "?w - ?r"] assms(2) by (simp add: algebra_simps)
  have w: "?r + of_nat ?n = ?w" by simp
  have other: "unat ?w \<noteq> unat (?r + of_nat i)" if "i < ?n" for i
  proof
    assume "unat ?w = unat (?r + of_nat i)"
    then have "?r + of_nat i = ?w" by (simp add: word_unat_eq_iff)
    then have "of_nat i = ?w - ?r" by (simp add: algebra_simps)
    moreover have "i < 256" using that assms(2) by simp
    ultimately show False using that unat_of_nat_8 [of i] by simp
  qed
  have "unat ?w < 256" by (rule unat_less_8)
  then show "kbd_items (kbd_store c s) = kbd_items s @ [c]"
    using assms(1) other by (simp add: kbd_items_def kbd_store_def n kbd_inv_def)
qed

lemma keyboard_getchar_items:
  assumes "kbd_items s \<noteq> []"
  shows "kbd_items s = fst (keyboard_getchar s) # kbd_items (snd (keyboard_getchar s))"
    "kbd_inv (snd (keyboard_getchar s)) \<longleftrightarrow> kbd_inv s"
proof -
  let ?r = "kbd_read_pos s" and ?w = "kbd_write_pos s"
  let ?n = "unat (?w - ?r)"
  have n0: "?n \<noteq> 0" and ne: "?r \<noteq> ?w" using assms by (auto simp: kbd_items_def)
  then show "kbd_inv (snd (keyboard_getchar s)) \<longleftrightarrow> kbd_inv s" by (simp add: keyboard_getchar_def kbd_inv_def)
  have "?w - ?r \<noteq> 0" using ne by simp
  then have "unat ((?w - ?r) - 1) = ?n - 1" by (rule unat_minus_one)
  then have n: "unat (?w - (?r + 1)) = ?n - 1" by (simp only: diff_diff_eq)
  have "[0..<?n] = 0 # map Suc [0..<?n - 1]" using n0 by (simp add: map_Suc_upt upt_conv_Cons)
  then show "kbd_items s = fst (keyboard_getchar s) # kbd_items (snd (keyboard_getchar s))"
    using ne n by (simp add: kbd_items_def keyboard_getchar_def comp_def ac_simps)
qed

interpretation kq: byte_queue kbd_inv kbd_items 255 kbd_store keyboard_getchar
proof
  fix s :: "'a kdev_scheme" and c
  assume inv: "kbd_inv s"
  show "length (kbd_items s) \<le> 255" by (rule kbd_items_bound)
  show "kbd_inv (kbd_store c s)" "kbd_items (kbd_store c s) = kbd_items s @ [c]" if "length (kbd_items s) < 255"
    using kbd_store_items [OF inv that] by simp_all
  show "kbd_inv (snd (keyboard_getchar s))" "kbd_items s = fst (keyboard_getchar s) # kbd_items (snd (keyboard_getchar s))"
    if "kbd_items s \<noteq> []" using keyboard_getchar_items [OF that] inv by simp_all
qed

section \<open>Correctness\<close>

text \<open>The characters a scan code contributes to the input, for the given modifier keys.\<close>

definition key_chars :: "u8 \<Rightarrow> bool \<Rightarrow> bool \<Rightarrow> string" where
  "key_chars scancode ctrl alt =
     (if scancode \<in> {0x1D, 0x38} \<or> scancode AND 0x80 \<noteq> 0 \<or> (alt \<and> 0x3B \<le> scancode \<and> scancode \<le> 0x3E) then []
      else if scancode \<in> {0x48, 0x50, 0x4B, 0x4D} then [CHR 0x1B, CHR ''['', arrow_char scancode]
      else if scancode = 0x0F then [CHR 0x09]
      else let c = kbd_us ! unat scancode
           in if c = CHR 0x00 \<or> (ctrl \<and> c \<in> {CHR ''c'', CHR ''C''}) then [] else [c])"

text \<open>Storing one character or dropping it when the buffer is full.\<close>

lemma kbd_store_or_drop:
  assumes "kbd_inv s"
  shows "kbd_items (if kbd_room s then kbd_store c s else s) = take 255 (kbd_items s @ [c])"
    "kbd_inv (if kbd_room s then kbd_store c s else s)"
  using assms kbd_items_bound [of s] kbd_store_items [OF assms] by (auto simp: kbd_room_items)

lemma kbd_store_three:
  fixes s :: "'a kdev_scheme" and a b c :: char
  assumes "kbd_inv s"
  defines "s1 \<equiv> kbd_store a s" and "s2 \<equiv> kbd_store b (kbd_store a s)"
  defines "s' \<equiv> (if \<not> kbd_room s then s else if \<not> kbd_room s1 then s1 else if \<not> kbd_room s2 then s2 else kbd_store c s2)"
  shows "kbd_items s' = take 255 (kbd_items s @ [a, b, c])" "kbd_inv s'"
proof -
  note a = kbd_store_items [OF assms(1), of a]
  note b = kbd_store_items [of s1 b]
  note c = kbd_store_items [of s2 c]
  have "kbd_items s' = take 255 (kbd_items s @ [a, b, c]) \<and> kbd_inv s'"
  proof (cases "kbd_room s")
    case False
    then have "length (kbd_items s) = 255" using kbd_items_bound [of s] by (simp add: kbd_room_items del: length_kbd_items)
    then show ?thesis using False assms(1) by (simp add: s'_def del: length_kbd_items)
  next
    case r1: True
    then have i1: "kbd_inv s1" "kbd_items s1 = kbd_items s @ [a]" using a by (simp_all add: kbd_room_items s1_def del: length_kbd_items)
    show ?thesis
    proof (cases "kbd_room s1")
      case False
      then have "length (kbd_items s1) = 255" using kbd_items_bound [of s1] by (simp add: kbd_room_items del: length_kbd_items)
      then show ?thesis using False r1 i1 by (simp add: s'_def del: length_kbd_items)
    next
      case r2: True
      then have i2: "kbd_inv s2" "kbd_items s2 = kbd_items s @ [a, b]"
        using b i1 by (simp_all add: kbd_room_items s1_def s2_def del: length_kbd_items)
      show ?thesis
      proof (cases "kbd_room s2")
        case False
        then have "length (kbd_items s2) = 255" using kbd_items_bound [of s2] by (simp add: kbd_room_items del: length_kbd_items)
        then show ?thesis using False r1 r2 i2 by (simp add: s'_def del: length_kbd_items)
      next
        case True
        then have "length (kbd_items s2) < 255" by (simp only: kbd_room_items)
        with True r1 r2 i2 c show ?thesis by (simp add: s'_def del: length_kbd_items)
      qed
    qed
  qed
  then show "kbd_items s' = take 255 (kbd_items s @ [a, b, c])" "kbd_inv s'" by blast+
qed

lemma kbd_cong:
  "kbd_buffer t = kbd_buffer s \<Longrightarrow> kbd_read_pos t = kbd_read_pos s \<Longrightarrow> kbd_write_pos t = kbd_write_pos s \<Longrightarrow>
     kbd_items t = kbd_items s \<and> (kbd_inv t \<longleftrightarrow> kbd_inv s)"
  by (simp add: kbd_items_def kbd_inv_def)

lemma signal_send_kbd [simp]:
  "kbd_buffer (signal_send f n sig s) = kbd_buffer s" "kbd_read_pos (signal_send f n sig s) = kbd_read_pos s"
  "kbd_write_pos (signal_send f n sig s) = kbd_write_pos s" "port_log (signal_send f n sig s) = port_log s"
  by (simp_all add: signal_send_def Let_def announce_def upd_proc_def terminal_writestring_eq)

definition kbd_same :: "'a kdev_scheme \<Rightarrow> 'a kdev_scheme \<Rightarrow> bool" where
  "kbd_same s t \<longleftrightarrow> kbd_buffer t = kbd_buffer s \<and> kbd_read_pos t = kbd_read_pos s \<and> kbd_write_pos t = kbd_write_pos s \<and>
     port_log t = port_log s"

lemma kbd_same_refl: "kbd_same s s"
  by (simp add: kbd_same_def)

lemma kbd_same_items:
  "kbd_same s t \<Longrightarrow> kbd_items t = kbd_items s \<and> (kbd_inv t \<longleftrightarrow> kbd_inv s) \<and> port_log t = port_log s"
  using kbd_cong [of t s] by (simp add: kbd_same_def)

definition control_code :: "u8 \<Rightarrow> bool \<Rightarrow> bool" where
  "control_code scancode alt \<longleftrightarrow>
     scancode \<in> {0x1D, 0x38} \<or> scancode AND 0x80 \<noteq> 0 \<or> (alt \<and> 0x3B \<le> scancode \<and> scancode \<le> 0x3E)"

lemma control_code_released: "\<not> control_code sc alt \<Longrightarrow> sc \<noteq> 0x9D \<and> sc \<noteq> 0xB8"
  by (auto simp: control_code_def)

lemma keyboard_callback_control:
  "control_code scancode (alt_pressed s) \<Longrightarrow> kbd_same s (keyboard_callback f scancode s)"
  unfolding control_code_def keyboard_callback_def kbd_same_def
  by (elim disjE conjE insertE emptyE) (simp_all add: vt_switch_request_def)

text \<open>A key that is not a modifier, a release or a terminal switch.\<close>

lemma keyboard_callback_key:
  assumes "\<not> control_code scancode (alt_pressed s)"
  shows "keyboard_callback f scancode s =
     (if scancode \<in> {0x48, 0x50, 0x4B, 0x4D} then
        (if \<not> kbd_room s then s
         else let s1 = kbd_store (CHR 0x1B) s
         in if \<not> kbd_room s1 then s1
         else let s2 = kbd_store (CHR ''['') s1
         in if \<not> kbd_room s2 then s2 else kbd_store (arrow_char scancode) s2)
      else if scancode = 0x0F then
        (if kbd_room s then kbd_store (CHR 0x09) s else s)
      else let c = kbd_us ! unat scancode
        in if c = CHR 0x00 then s
        else if ctrl_pressed s \<and> (c = CHR ''c'' \<or> c = CHR ''C'') then
          let s1 = terminal_writestring ''^C\<newline>'' s; current = process_get_current s1
          in if current \<noteq> 0 \<and> pid (procs s1 current) \<noteq> 1
             then signal_send f (sint (pid (procs s1 current))) 2 s1 else s1
        else let s1 = (if kbd_room s then kbd_store c s else s)
          in if c \<noteq> CHR 0x1B then terminal_putchar_log c s1 else s1)"
proof -
  have "\<not> scancode = 0x1D" "\<not> scancode = 0x38" "\<not> scancode AND 0x80 \<noteq> 0"
    "\<not> (alt_pressed s \<and> 0x3B \<le> scancode \<and> scancode \<le> 0x3E)"
    using assms unfolding control_code_def by blast+
  moreover have "\<not> scancode = 0x9D" "\<not> scancode = 0xB8" using control_code_released [OF assms] by blast+
  ultimately show ?thesis unfolding keyboard_callback_def by (simp only: if_False insert_iff empty_iff simp_thms)
qed

lemma kbd_store_port_log [simp]: "port_log (kbd_store c s) = port_log s"
  by (simp add: kbd_store_def)

lemma kbd_same_putchar: "kbd_same s (terminal_putchar_log c s)" "kbd_same s (terminal_writestring cs s)"
  by (simp_all add: kbd_same_def terminal_putchar_log_def terminal_writestring_eq)

lemma keyboard_callback_items:
  fixes scancode :: u8 and f :: "int \<Rightarrow> 'a kdev_scheme \<Rightarrow> u64"
  assumes inv: "kbd_inv s"
  defines "k \<equiv> key_chars scancode (ctrl_pressed s) (alt_pressed s)"
  defines "t \<equiv> keyboard_callback f scancode s"
  shows "kbd_items t = take 255 (kbd_items s @ k) \<and> kbd_inv t \<and> port_log t = port_log s"
proof (cases "control_code scancode (alt_pressed s)")
  case True
  then have "k = []" by (simp add: k_def key_chars_def control_code_def)
  then show ?thesis using kbd_same_items [OF keyboard_callback_control [OF True, of f]] inv kbd_items_bound [of s]
    by (simp add: t_def del: length_kbd_items)
next
  case False
  note key = keyboard_callback_key [OF False, of f]
  have k: "k = (if scancode \<in> {0x48, 0x50, 0x4B, 0x4D} then [CHR 0x1B, CHR ''['', arrow_char scancode]
      else if scancode = 0x0F then [CHR 0x09]
      else let c = kbd_us ! unat scancode
           in if c = CHR 0x00 \<or> (ctrl_pressed s \<and> c \<in> {CHR ''c'', CHR ''C''}) then [] else [c])"
    unfolding k_def key_chars_def using False unfolding control_code_def by (simp only: if_False)
  consider (arrow) "scancode \<in> {0x48, 0x50, 0x4B, 0x4D}" | (tab) "scancode = 0x0F"
    | (char) "scancode \<notin> {0x48, 0x50, 0x4B, 0x4D}" "scancode \<noteq> 0x0F" by blast
  then show ?thesis
  proof cases
    case arrow
    then show ?thesis using kbd_store_three [OF inv, of "CHR 0x1B" "CHR ''[''" "arrow_char scancode"]
      unfolding t_def key k by (simp only: if_True Let_def if_distrib [of port_log] kbd_store_port_log if_cancel simp_thms)
  next
    case tab
    then show ?thesis using kbd_store_or_drop [OF inv, of "CHR 0x09"] unfolding t_def key k by simp
  next
    case char
    let ?c = "kbd_us ! unat scancode"
    consider (none) "?c = CHR 0x00" | (interrupt) "?c \<noteq> CHR 0x00" "ctrl_pressed s \<and> (?c = CHR ''c'' \<or> ?c = CHR ''C'')"
      | (plain) "?c \<noteq> CHR 0x00" "\<not> (ctrl_pressed s \<and> (?c = CHR ''c'' \<or> ?c = CHR ''C''))" by blast
    then show ?thesis
    proof cases
      case none
      then have "k = []" "t = s" using char unfolding t_def key k by (simp_all add: Let_def)
      then show ?thesis using inv kbd_items_bound [of s] by (simp del: length_kbd_items)
    next
      case interrupt
      then have "k = []" using char unfolding k by (auto simp: Let_def)
      moreover have "kbd_same s t"
        using char interrupt kbd_same_putchar [of s] unfolding t_def key by (simp add: Let_def kbd_same_def)
      ultimately show ?thesis using kbd_same_items [of s t] inv kbd_items_bound [of s] by (simp del: length_kbd_items)
    next
      case plain
      let ?s1 = "if kbd_room s then kbd_store ?c s else s"
      have "k = [?c]" using char plain unfolding k by (auto simp: Let_def)
      moreover have "t = (if ?c \<noteq> CHR 0x1B then terminal_putchar_log ?c ?s1 else ?s1)"
        using char plain unfolding t_def key by (simp only: if_False if_True Let_def simp_thms)
      then have "kbd_same ?s1 t" by (simp only: kbd_same_putchar(1) kbd_same_refl split: if_split) simp
      moreover have "port_log ?s1 = port_log s" by simp
      ultimately show ?thesis using kbd_same_items [of ?s1 t] kbd_store_or_drop [OF inv, of ?c] by (simp only: simp_thms)
    qed
  qed
qed

text \<open>
  C32: keyboard input is first in, first out.  An interrupt appends the characters of the key to
  the buffered input, dropping what does not fit into 255 characters; reading returns and removes
  the oldest one, or NUL when there is none.  The handler acknowledges nothing: it sends no byte
  to the interrupt controller.
\<close>

theorem keyboard_fifo:
  assumes "kbd_inv s"
  shows "kbd_items (keyboard_callback by_pid scancode s) =
      take 255 (kbd_items s @ key_chars scancode (ctrl_pressed s) (alt_pressed s)) \<and>
    kbd_inv (keyboard_callback by_pid scancode s) \<and> port_log (keyboard_callback by_pid scancode s) = port_log s \<and>
    (keyboard_has_char s \<longleftrightarrow> kbd_items s \<noteq> []) \<and>
    (case kbd_items s of [] \<Rightarrow> keyboard_getchar s = (CHR 0x00, s)
      | c # cs \<Rightarrow> \<exists>s'. keyboard_getchar s = (c, s') \<and> kbd_items s' = cs \<and> kbd_inv s')"
proof -
  have has: "keyboard_has_char s \<longleftrightarrow> kbd_items s \<noteq> []"
    by (auto simp: keyboard_has_char_def kbd_items_def unat_eq_0)
  have "case kbd_items s of [] \<Rightarrow> keyboard_getchar s = (CHR 0x00, s)
      | c # cs \<Rightarrow> \<exists>s'. keyboard_getchar s = (c, s') \<and> kbd_items s' = cs \<and> kbd_inv s'"
  proof (cases "kbd_items s")
    case Nil
    then have "\<not> keyboard_has_char s" using has by simp
    with Nil show ?thesis by (simp add: keyboard_getchar_def keyboard_has_char_def)
  next
    case (Cons c cs)
    then have "kbd_items s \<noteq> []" by simp
    from kq.get_items [OF assms this] kq.get_inv [OF assms this] Cons show ?thesis
      by (cases "keyboard_getchar s") simp
  qed
  with has keyboard_callback_items [OF assms, of by_pid scancode] show ?thesis by blast
qed

theorem keyboard_fifo_witness:
  "kbd_items (keyboard_callback (\<lambda>_ _. 0) 0x48 (keyboard_callback (\<lambda>_ _. 0) 0x1E kdev_boot)) =
     [CHR ''a'', CHR 0x1B, CHR ''['', CHR ''A'']"
proof -
  have boot: "kbd_inv kdev_boot" "kbd_items kdev_boot = []" "ctrl_pressed kdev_boot = False" "alt_pressed kdev_boot = False"
    by (simp_all add: kbd_inv_def kbd_items_def kdev_boot_simps)
  let ?s = "keyboard_callback (\<lambda>_ _. 0) 0x1E kdev_boot"
  have mods: "ctrl_pressed ?s = False" "alt_pressed ?s = False"
    by (simp_all add: keyboard_callback_def boot kbd_us_def Let_def kbd_room_def kdev_boot_simps kbd_store_def terminal_putchar_log_def)
  have a: "key_chars 0x1E False False = ''a''" and up: "key_chars 0x48 False False = [CHR 0x1B, CHR ''['', CHR ''A'']"
    by (simp_all add: key_chars_def kbd_us_def arrow_char_def)
  have "kbd_items ?s = ''a'' \<and> kbd_inv ?s"
    using keyboard_fifo [OF boot(1), of "\<lambda>_ _. 0" "0x1E"] by (simp add: boot a)
  then show ?thesis using keyboard_fifo [of ?s "\<lambda>_ _. 0" "0x48"] by (simp add: mods up)
qed

end
