(* ===== verification/Ramfs.thy ===== *)
theory Ramfs
  imports Prelude
begin

text \<open>
  The RAM file system (\<open>src/src/fs/fs.c\<close>).  A pointer to a node is its index in
  \<open>ramfs.nodes\<close>.  Block numbers keep their 32 bits, with \<open>-1\<close> as the end of a chain; an access
  outside of the block array, and a name that does not fit into its 32-byte field, is the fault
  \<open>OutOfBounds\<close>.  Results of type \<open>int\<close> are 32-bit words.  Strings are lists of bytes without the
  terminating 0.
\<close>

section \<open>State\<close>

abbreviation (input) FS_FILENAME_MAX :: nat where "FS_FILENAME_MAX \<equiv> 32"
abbreviation (input) FS_MAX_FILES :: nat where "FS_MAX_FILES \<equiv> 64"
abbreviation (input) FS_MAX_BLOCKS :: nat where "FS_MAX_BLOCKS \<equiv> 1024"
abbreviation (input) FS_BLOCK_SIZE :: u32 where "FS_BLOCK_SIZE \<equiv> 512"
abbreviation (input) FS_TYPE_FILE :: u32 where "FS_TYPE_FILE \<equiv> 1"
abbreviation (input) FS_TYPE_DIR :: u32 where "FS_TYPE_DIR \<equiv> 2"
abbreviation (input) FS_PERM_READ :: u32 where "FS_PERM_READ \<equiv> 4"
abbreviation (input) FS_PERM_WRITE :: u32 where "FS_PERM_WRITE \<equiv> 2"
abbreviation (input) FS_PERM_EXEC :: u32 where "FS_PERM_EXEC \<equiv> 1"

record fs_node_t =
  fs_name :: "u8 list"
  fs_type :: u32
  fs_size :: u32
  permissions :: u32
  first_block :: u32
  created_time :: u32
  modified_time :: u32
  inode_num :: u32

record fs_block_t =
  fs_data :: "u8 list"
  next_block :: u32

record fs_dirent_t =
  de_name :: "u8 list"
  de_inode :: u32

record ramfs_t =
  fs_nodes :: "fs_node_t list"
  fs_blocks :: "fs_block_t list"
  free_blocks :: "u32 list"
  next_inode :: u32
  fs_root :: "nat option"

definition upd_node :: "nat \<Rightarrow> (fs_node_t \<Rightarrow> fs_node_t) \<Rightarrow> ramfs_t \<Rightarrow> ramfs_t" where
  "upd_node n f fs = fs\<lparr>fs_nodes := (fs_nodes fs)[n := f (fs_nodes fs ! n)]\<rparr>"

definition upd_block :: "nat \<Rightarrow> (fs_block_t \<Rightarrow> fs_block_t) \<Rightarrow> ramfs_t \<Rightarrow> ramfs_t" where
  "upd_block b f fs = fs\<lparr>fs_blocks := (fs_blocks fs)[b := f (fs_blocks fs ! b)]\<rparr>"

section \<open>Blocks\<close>

definition block_used :: "ramfs_t \<Rightarrow> nat \<Rightarrow> bool" where
  "block_used fs i \<longleftrightarrow> (free_blocks fs ! (i div 32)) AND push_bit (i mod 32) 1 \<noteq> 0"

definition allocate_block :: "ramfs_t \<Rightarrow> u32 \<times> ramfs_t" where
  "allocate_block fs =
     (case find (\<lambda>i. \<not> block_used fs i) (for_range 0 FS_MAX_BLOCKS) of
        None \<Rightarrow> (- 1, fs)
      | Some i \<Rightarrow> (of_nat i,
          upd_block i (\<lambda>b. b\<lparr>next_block := - 1\<rparr>)
            (fs\<lparr>free_blocks := (free_blocks fs)[i div 32 := (free_blocks fs ! (i div 32)) OR push_bit (i mod 32) 1]\<rparr>)))"

definition free_block :: "u32 \<Rightarrow> ramfs_t \<Rightarrow> ramfs_t" where
  "free_block block fs =
     (if 1024 \<le> block then fs
      else let w = unat block div 32; b = unat block mod 32
           in fs\<lparr>free_blocks := (free_blocks fs)[w := (free_blocks fs ! w) AND NOT (push_bit b 1)]\<rparr>)"

section \<open>Reading\<close>

text \<open>\<open>ramfs.blocks[block_num]\<close>\<close>

definition get_block :: "ramfs_t \<Rightarrow> u32 \<Rightarrow> fs_block_t res" where
  "get_block fs b = (if unat b < length (fs_blocks fs) then Inr (fs_blocks fs ! unat b) else Inl OutOfBounds)"

lemma unat_block_offset: "512 \<le> (o' :: u32) \<Longrightarrow> unat (o' - 512) < unat o'"
  by (simp add: word_le_nat_alt unat_sub)

function read_skip :: "ramfs_t \<Rightarrow> u32 \<Rightarrow> u32 \<Rightarrow> (u32 \<times> u32) res" where
  "read_skip fs block_num block_offset =
     (if FS_BLOCK_SIZE \<le> block_offset \<and> block_num \<noteq> - 1 then
        bind_res (get_block fs block_num) (\<lambda>b. read_skip fs (next_block b) (block_offset - FS_BLOCK_SIZE))
      else Inr (block_num, block_offset))"
  by pat_completeness auto
termination by (relation "measure (\<lambda>(_, _, o'). unat o')") (auto simp: unat_block_offset)

text \<open>The number of bytes the next \<open>memcpy\<close> moves.\<close>

definition chunk :: "u32 \<Rightarrow> u32 \<Rightarrow> u32 \<Rightarrow> u32" where
  "chunk block_offset sz bytes = (if sz - bytes < FS_BLOCK_SIZE - block_offset then sz - bytes else FS_BLOCK_SIZE - block_offset)"

lemma unat_chunk: "bytes < sz \<Longrightarrow> unat bytes + unat (chunk off sz bytes) \<le> unat sz"
  by (auto simp: chunk_def word_less_nat_alt unat_sub word_le_nat_alt)

lemma unat_add_chunk: "bytes < sz \<Longrightarrow> unat (bytes + chunk off sz bytes) = unat bytes + unat (chunk off sz bytes)"
  using unat_chunk [of bytes sz off] by (intro unat_add_no_wrap) (simp add: order_le_less_trans [OF _ unat_less_32])

lemma chunk_pos: "bytes < sz \<Longrightarrow> off < 512 \<Longrightarrow> 0 < unat (chunk off sz bytes)"
  by (auto simp: chunk_def word_less_nat_alt unat_sub word_le_nat_alt)

definition chunk_measure :: "u32 \<Rightarrow> u32 \<Rightarrow> u32 \<Rightarrow> nat" where
  "chunk_measure sz bytes off = 2 * (unat sz - unat bytes) + (if off = 0 then 0 else 1)"

lemma chunk_measure_less:
  "bytes < sz \<Longrightarrow> chunk_measure sz (bytes + chunk off sz bytes) 0 < chunk_measure sz bytes off"
  using unat_chunk [of bytes sz off] chunk_pos [of bytes sz off] unat_add_chunk [of bytes sz off]
  by (cases "off = 0") (auto simp: chunk_measure_def word_less_nat_alt)

function read_loop :: "ramfs_t \<Rightarrow> u32 \<Rightarrow> u32 \<Rightarrow> u32 \<Rightarrow> u32 \<Rightarrow> u8 list \<Rightarrow> (u32 \<times> u8 list) res" where
  "read_loop fs sz block_num block_offset bytes_read buffer =
     (if bytes_read < sz \<and> block_num \<noteq> - 1 then
        let to_read = chunk block_offset sz bytes_read
        in bind_res (get_block fs block_num) (\<lambda>b.
             read_loop fs sz (next_block b) 0 (bytes_read + to_read)
               (buffer @ take (unat to_read) (drop (unat block_offset) (fs_data b))))
      else Inr (bytes_read, buffer))"
  by pat_completeness auto
termination
  by (relation "measure (\<lambda>(_, sz, _, off, bytes, _). chunk_measure sz bytes off)") (auto simp: chunk_measure_less)

text \<open>\<open>ramfs_read\<close>: the result and the bytes stored from the start of \<open>buffer\<close>.\<close>

definition ramfs_read :: "nat \<Rightarrow> u32 \<Rightarrow> u32 \<Rightarrow> ramfs_t \<Rightarrow> (u32 \<times> u8 list) res" where
  "ramfs_read nd ofs sz fs =
     (let n = fs_nodes fs ! nd
      in if fs_type n \<noteq> FS_TYPE_FILE then Inr (- 1, [])
      else if fs_size n \<le> ofs then Inr (0, [])
      else let sz = (if fs_size n < ofs + sz then fs_size n - ofs else sz)
        in bind_res (read_skip fs (first_block n) ofs) (\<lambda>(block_num, block_offset).
             read_loop fs sz block_num block_offset 0 []))"

section \<open>Writing\<close>

text \<open>
  Following a link, with a new block at the end of the chain; \<open>None\<close> when there is none left.
\<close>

definition next_or_new :: "u32 \<Rightarrow> ramfs_t \<Rightarrow> (u32 option \<times> ramfs_t) res" where
  "next_or_new block_num fs =
     bind_res (get_block fs block_num) (\<lambda>b.
       if next_block b = - 1 then
         (let (new_block, fs1) = allocate_block fs
          in if new_block = - 1 then Inr (None, fs1)
             else let fs2 = upd_block (unat block_num) (\<lambda>b. b\<lparr>next_block := new_block\<rparr>) fs1
                  in Inr (Some (next_block (fs_blocks fs2 ! unat block_num)), fs2))
       else Inr (Some (next_block b), fs))"

function write_skip :: "u32 \<Rightarrow> u32 \<Rightarrow> ramfs_t \<Rightarrow> ((u32 \<times> u32) option \<times> ramfs_t) res" where
  "write_skip block_num block_offset fs =
     (if FS_BLOCK_SIZE \<le> block_offset then
        bind_res (next_or_new block_num fs) (\<lambda>(next, fs1).
          case next of None \<Rightarrow> Inr (None, fs1)
          | Some b \<Rightarrow> write_skip b (block_offset - FS_BLOCK_SIZE) fs1)
      else Inr (Some (block_num, block_offset), fs))"
  by pat_completeness auto
termination by (relation "measure (\<lambda>(_, o', _). unat o')") (auto simp: unat_block_offset)

text \<open>\<open>memcpy(ramfs.blocks[block_num].data + block_offset, ...)\<close>\<close>

definition store_bytes :: "nat \<Rightarrow> u8 list \<Rightarrow> u8 list \<Rightarrow> u8 list" where
  "store_bytes k bs xs = take k xs @ bs @ drop (k + length bs) xs"

function write_loop :: "u32 \<Rightarrow> u8 list \<Rightarrow> u32 \<Rightarrow> u32 \<Rightarrow> u32 \<Rightarrow> ramfs_t \<Rightarrow> (u32 \<times> ramfs_t) res" where
  "write_loop sz buffer block_num block_offset bytes_written fs =
     (if bytes_written < sz then
        let to_write = chunk block_offset sz bytes_written;
            part = take (unat to_write) (drop (unat bytes_written) buffer)
        in bind_res (get_block fs block_num) (\<lambda>_.
          let fs1 = upd_block (unat block_num) (\<lambda>b. b\<lparr>fs_data := store_bytes (unat block_offset) part (fs_data b)\<rparr>) fs;
              bytes = bytes_written + to_write
          in if bytes < sz then
               bind_res (next_or_new block_num fs1) (\<lambda>(next, fs2).
                 case next of None \<Rightarrow> Inr (bytes, fs2)
                 | Some b \<Rightarrow> write_loop sz buffer b 0 bytes fs2)
             else write_loop sz buffer block_num 0 bytes fs1)
      else Inr (bytes_written, fs))"
  by pat_completeness auto
termination
  by (relation "measure (\<lambda>(sz, _, _, off, bytes, _). chunk_measure sz bytes off)") (auto simp: chunk_measure_less)

text \<open>The first block of a file without one, and the size after a write.\<close>

definition ensure_first :: "nat \<Rightarrow> ramfs_t \<Rightarrow> ramfs_t" where
  "ensure_first nd fs =
     (if first_block (fs_nodes fs ! nd) = - 1 then
        (let (b, fs') = allocate_block fs in upd_node nd (\<lambda>n. n\<lparr>first_block := b\<rparr>) fs')
      else fs)"

definition grow_size :: "nat \<Rightarrow> u32 \<Rightarrow> ramfs_t \<Rightarrow> ramfs_t" where
  "grow_size nd e fs = (if fs_size (fs_nodes fs ! nd) < e then upd_node nd (\<lambda>n. n\<lparr>fs_size := e\<rparr>) fs else fs)"

definition ramfs_write :: "nat \<Rightarrow> u32 \<Rightarrow> u32 \<Rightarrow> u8 list \<Rightarrow> ramfs_t \<Rightarrow> (u32 \<times> ramfs_t) res" where
  "ramfs_write nd ofs sz buffer fs =
     (if fs_type (fs_nodes fs ! nd) \<noteq> FS_TYPE_FILE then Inr (- 1, fs)
      else let fs1 = ensure_first nd fs; b = first_block (fs_nodes fs1 ! nd)
      in if b = - 1 then Inr (- 1, fs1)
      else bind_res (write_skip b ofs fs1) (\<lambda>(start, fs2).
        case start of None \<Rightarrow> Inr (- 1, fs2)
        | Some (block_num, block_offset) \<Rightarrow>
          bind_res (write_loop sz buffer block_num block_offset 0 fs2) (\<lambda>(bytes_written, fs3).
            Inr (bytes_written, grow_size nd (ofs + bytes_written) fs3))))"

definition ramfs_open :: "nat \<Rightarrow> ramfs_t \<Rightarrow> ramfs_t" where
  "ramfs_open nd fs = fs"

definition ramfs_close :: "nat \<Rightarrow> ramfs_t \<Rightarrow> ramfs_t" where
  "ramfs_close nd fs = fs"

lemmas loop_simps = read_skip.simps read_loop.simps write_skip.simps write_loop.simps

declare loop_simps [simp del]

section \<open>Directories\<close>

text \<open>
  A directory is an array of 14 entries in its first block, each a name of 32 bytes and an inode
  number in little-endian order.  Reading a name stops at the first 0 byte, wherever it is.
\<close>

definition le32 :: "u8 list \<Rightarrow> u32" where
  "le32 bs = ucast (bs ! 0) OR push_bit 8 (ucast (bs ! 1)) OR push_bit 16 (ucast (bs ! 2)) OR push_bit 24 (ucast (bs ! 3))"

definition bytes32 :: "u32 \<Rightarrow> u8 list" where
  "bytes32 w = [ucast w, ucast (drop_bit 8 w), ucast (drop_bit 16 w), ucast (drop_bit 24 w)]"

definition c_string :: "u8 list \<Rightarrow> u8 list" where
  "c_string bs = takeWhile (\<lambda>c. c \<noteq> 0) bs"

definition entry_inode :: "u8 list \<Rightarrow> nat \<Rightarrow> u32" where
  "entry_inode data i = le32 (take 4 (drop (36 * i + 32) data))"

definition entry_name :: "u8 list \<Rightarrow> nat \<Rightarrow> u8 list" where
  "entry_name data i = c_string (drop (36 * i) data)"

abbreviation (input) max_entries :: nat where "max_entries \<equiv> 14"

fun readdir_scan :: "u8 list \<Rightarrow> u32 \<Rightarrow> u32 \<Rightarrow> nat list \<Rightarrow> fs_dirent_t option" where
  "readdir_scan data index count [] = None"
| "readdir_scan data index count (i # is) =
     (if entry_inode data i \<noteq> 0 then
        if count = index then Some \<lparr>de_name = take 32 (drop (36 * i) data), de_inode = entry_inode data i\<rparr>
        else readdir_scan data index (count + 1) is
      else readdir_scan data index count is)"

definition ramfs_readdir :: "nat \<Rightarrow> u32 \<Rightarrow> ramfs_t \<Rightarrow> fs_dirent_t option res" where
  "ramfs_readdir nd index fs =
     (if fs_type (fs_nodes fs ! nd) \<noteq> FS_TYPE_DIR then Inr None
      else if first_block (fs_nodes fs ! nd) = - 1 then Inr None
      else bind_res (get_block fs (first_block (fs_nodes fs ! nd))) (\<lambda>b.
        Inr (readdir_scan (fs_data b) index 0 [0..<max_entries])))"

fun finddir_scan :: "ramfs_t \<Rightarrow> u8 list \<Rightarrow> u8 list \<Rightarrow> nat list \<Rightarrow> nat option" where
  "finddir_scan fs data name [] = None"
| "finddir_scan fs data name (i # is) =
     (if entry_inode data i \<noteq> 0 \<and> entry_name data i = name then
        case find (\<lambda>j. inode_num (fs_nodes fs ! j) = entry_inode data i) [0..<FS_MAX_FILES] of
          Some j \<Rightarrow> Some j
        | None \<Rightarrow> finddir_scan fs data name is
      else finddir_scan fs data name is)"

definition ramfs_finddir :: "nat \<Rightarrow> u8 list \<Rightarrow> ramfs_t \<Rightarrow> nat option res" where
  "ramfs_finddir nd name fs =
     (if fs_type (fs_nodes fs ! nd) \<noteq> FS_TYPE_DIR then Inr None
      else if first_block (fs_nodes fs ! nd) = - 1 then Inr None
      else bind_res (get_block fs (first_block (fs_nodes fs ! nd))) (\<lambda>b.
        Inr (finddir_scan fs (fs_data b) name [0..<max_entries])))"

text \<open>\<open>strcpy\<close> into a field of 32 bytes.\<close>

definition fits_name :: "u8 list \<Rightarrow> bool" where
  "fits_name name \<longleftrightarrow> length name < FS_FILENAME_MAX"

definition free_node :: "ramfs_t \<Rightarrow> nat option" where
  "free_node fs = find (\<lambda>i. inode_num (fs_nodes fs ! i) = 0) [0..<FS_MAX_FILES]"

definition add_entry :: "nat \<Rightarrow> u8 list \<Rightarrow> u32 \<Rightarrow> ramfs_t \<Rightarrow> ramfs_t res" where
  "add_entry parent name inode fs =
     (let b = first_block (fs_nodes fs ! parent)
      in if b = - 1 then Inr fs
      else bind_res (get_block fs b) (\<lambda>blk.
        case find (\<lambda>i. entry_inode (fs_data blk) i = 0) [0..<max_entries] of
          None \<Rightarrow> Inr fs
        | Some i \<Rightarrow> if \<not> fits_name name then Inl OutOfBounds
          else Inr (upd_node parent (\<lambda>n. n\<lparr>fs_size := fs_size n + 1\<rparr>)
            (upd_block (unat b) (\<lambda>blk. blk\<lparr>fs_data :=
               store_bytes (36 * i + 32) (bytes32 inode) (store_bytes (36 * i) (name @ [0]) (fs_data blk))\<rparr>) fs))))"

definition ramfs_create_file :: "nat \<Rightarrow> u8 list \<Rightarrow> ramfs_t \<Rightarrow> (nat option \<times> ramfs_t) res" where
  "ramfs_create_file parent name fs =
     (if fs_type (fs_nodes fs ! parent) \<noteq> FS_TYPE_DIR then Inr (None, fs)
      else case free_node fs of
        None \<Rightarrow> Inr (None, fs)
      | Some i \<Rightarrow>
        if \<not> fits_name name then Inl OutOfBounds
        else let inode = next_inode fs;
            fs1 = upd_node i (\<lambda>n. n\<lparr>fs_name := name, fs_type := FS_TYPE_FILE, fs_size := 0,
              permissions := FS_PERM_READ OR FS_PERM_WRITE, first_block := - 1, inode_num := inode\<rparr>)
              (fs\<lparr>next_inode := next_inode fs + 1\<rparr>)
          in bind_res (add_entry parent name inode fs1) (\<lambda>fs2. Inr (Some i, fs2)))"

definition ramfs_create_dir :: "nat \<Rightarrow> u8 list \<Rightarrow> ramfs_t \<Rightarrow> (nat option \<times> ramfs_t) res" where
  "ramfs_create_dir parent name fs =
     (if fs_type (fs_nodes fs ! parent) \<noteq> FS_TYPE_DIR then Inr (None, fs)
      else case free_node fs of
        None \<Rightarrow> Inr (None, fs)
      | Some i \<Rightarrow>
        if \<not> fits_name name then Inl OutOfBounds
        else let inode = next_inode fs;
            (b, fs1) = allocate_block (upd_node i (\<lambda>n. n\<lparr>fs_name := name, fs_type := FS_TYPE_DIR, fs_size := 0,
              permissions := FS_PERM_READ OR FS_PERM_WRITE OR FS_PERM_EXEC, inode_num := inode\<rparr>)
              (fs\<lparr>next_inode := next_inode fs + 1\<rparr>));
            fs2 = upd_node i (\<lambda>n. n\<lparr>first_block := b\<rparr>) fs1
          in if b = - 1 then Inr (None, upd_node i (\<lambda>n. n\<lparr>inode_num := 0\<rparr>) fs2)
             else let fs3 = upd_block (unat b) (\<lambda>blk. blk\<lparr>fs_data := replicate 512 0\<rparr>) fs2
                  in bind_res (add_entry parent name inode fs3) (\<lambda>fs4. Inr (Some i, fs4)))"

section \<open>Initialisation\<close>

definition c_bytes :: "string \<Rightarrow> u8 list" where
  "c_bytes = map of_char"

definition create_with :: "nat \<Rightarrow> string \<Rightarrow> string \<Rightarrow> ramfs_t \<Rightarrow> ramfs_t res" where
  "create_with root name msg fs =
     bind_res (ramfs_create_file root (c_bytes name) fs) (\<lambda>(_, fs1).
       bind_res (ramfs_finddir root (c_bytes name) fs1) (\<lambda>found.
         case found of
           None \<Rightarrow> Inr fs1
         | Some nd \<Rightarrow> bind_res (ramfs_write nd 0 (of_nat (length msg)) (c_bytes msg) fs1) (\<lambda>(_, fs2). Inr fs2)))"

definition fs_init :: "ramfs_t \<Rightarrow> ramfs_t res" where
  "fs_init fs =
     (let fs1 = fs\<lparr>fs_nodes := map (\<lambda>n. n\<lparr>inode_num := 0\<rparr>) (fs_nodes fs), free_blocks := map (\<lambda>_. 0) (free_blocks fs), next_inode := 1\<rparr>;
          fs2 = upd_node 0 (\<lambda>n. n\<lparr>fs_name := c_bytes ''/'', fs_type := FS_TYPE_DIR, fs_size := 0,
                  permissions := FS_PERM_READ OR FS_PERM_WRITE OR FS_PERM_EXEC, inode_num := next_inode fs1\<rparr>)
                  (fs1\<lparr>next_inode := next_inode fs1 + 1\<rparr>);
          (b, fs3) = allocate_block fs2;
          fs4 = (upd_node 0 (\<lambda>n. n\<lparr>first_block := b\<rparr>) fs3)\<lparr>fs_root := Some 0\<rparr>
      in bind_res (create_with 0 ''hello.txt'' ''Hello from SimpleOS filesystem!\<newline>'' fs4) (\<lambda>fs5.
           create_with 0 ''readme.txt'' ''This is a simple RAM-based filesystem.\<newline>Files are stored in memory.\<newline>'' fs5))"

text \<open>The generic operations dispatch to the functions that \<open>fs_init\<close> stores in \<open>ramfs_ops\<close>.\<close>

definition fs_read :: "nat \<Rightarrow> u32 \<Rightarrow> u32 \<Rightarrow> ramfs_t \<Rightarrow> (u32 \<times> u8 list) res" where
  "fs_read = ramfs_read"

definition fs_write :: "nat \<Rightarrow> u32 \<Rightarrow> u32 \<Rightarrow> u8 list \<Rightarrow> ramfs_t \<Rightarrow> (u32 \<times> ramfs_t) res" where
  "fs_write = ramfs_write"

definition fs_open :: "nat \<Rightarrow> ramfs_t \<Rightarrow> ramfs_t" where
  "fs_open = ramfs_open"

definition fs_close :: "nat \<Rightarrow> ramfs_t \<Rightarrow> ramfs_t" where
  "fs_close = ramfs_close"

definition fs_readdir :: "nat \<Rightarrow> u32 \<Rightarrow> ramfs_t \<Rightarrow> fs_dirent_t option res" where
  "fs_readdir = ramfs_readdir"

definition fs_finddir :: "nat \<Rightarrow> u8 list \<Rightarrow> ramfs_t \<Rightarrow> nat option res" where
  "fs_finddir = ramfs_finddir"

end
