(* ===== verification/Ramfs_Files.thy ===== *)
theory Ramfs_Files
  imports Ramfs
begin

text \<open>
  What the chains of blocks of \<open>src/src/fs/fs.c\<close> represent: every file is a list of bytes, on
  which reading takes a slice and writing overwrites one.  No two files share a block.
\<close>

section \<open>Chains of blocks\<close>

fun chain :: "fs_block_t list \<Rightarrow> u32 \<Rightarrow> nat list \<Rightarrow> bool" where
  "chain bl b [] \<longleftrightarrow> b = - 1"
| "chain bl b (i # is) \<longleftrightarrow> b \<noteq> - 1 \<and> i = unat b \<and> i < length bl \<and> chain bl (next_block (bl ! i)) is"

definition contents :: "fs_block_t list \<Rightarrow> nat list \<Rightarrow> u8 list" where
  "contents bl is = concat (map (\<lambda>i. fs_data (bl ! i)) is)"

definition full_blocks :: "fs_block_t list \<Rightarrow> bool" where
  "full_blocks bl \<longleftrightarrow> length bl = 1024 \<and> (\<forall>b \<in> set bl. length (fs_data b) = 512)"

lemma contents_simps [simp]:
  "contents bl [] = []" "contents bl (i # is) = fs_data (bl ! i) @ contents bl is"
  "contents bl (is @ js) = contents bl is @ contents bl js"
  by (simp_all add: contents_def)

lemma chain_bound: "chain bl b is \<Longrightarrow> i \<in> set is \<Longrightarrow> i < length bl"
  by (induction bl b "is" rule: chain.induct) auto

lemma full_blocks_nth: "full_blocks bl \<longleftrightarrow> length bl = 1024 \<and> (\<forall>i < 1024. length (fs_data (bl ! i)) = 512)"
  by (auto simp: full_blocks_def all_set_conv_all_nth)

lemma full_blocks_data: "full_blocks bl \<Longrightarrow> i < 1024 \<Longrightarrow> length (fs_data (bl ! i)) = 512"
  by (simp add: full_blocks_def)

lemma contents_length:
  "full_blocks bl \<Longrightarrow> \<forall>i \<in> set is. i < 1024 \<Longrightarrow> length (contents bl is) = 512 * length is"
  by (induction "is") (auto simp: full_blocks_data)

lemma contents_drop:
  "full_blocks bl \<Longrightarrow> \<forall>i \<in> set is. i < 1024 \<Longrightarrow> contents bl (drop q is) = drop (512 * q) (contents bl is)"
proof (induction "is" arbitrary: q)
  case (Cons i "is")
  then show ?case by (cases q) (simp_all add: full_blocks_data)
qed simp

lemma chain_cong:
  "length bl' = length bl \<Longrightarrow> (\<And>i. i \<in> set is \<Longrightarrow> next_block (bl' ! i) = next_block (bl ! i)) \<Longrightarrow>
     chain bl' b is \<longleftrightarrow> chain bl b is"
  by (induction bl b "is" rule: chain.induct) auto

lemma contents_cong:
  "(\<And>i. i \<in> set is \<Longrightarrow> fs_data (bl' ! i) = fs_data (bl ! i)) \<Longrightarrow> contents bl' is = contents bl is"
  by (induction "is") auto

lemma chain_append:
  "chain bl b (is @ j # js) \<Longrightarrow> chain bl (of_nat j) (j # js)"
  by (induction "is" arbitrary: b) auto

lemma chain_nth:
  assumes "chain bl b is" "p < length is"
  shows "chain bl (of_nat (is ! p)) (drop p is)"
  using chain_append [of bl b "take p is" "is ! p" "drop (Suc p) is"] assms
  by (simp add: Cons_nth_drop_Suc id_take_nth_drop [symmetric])

lemma chain_next:
  assumes "chain bl b is" "p < length is"
  shows "chain bl (next_block (bl ! (is ! p))) (drop (Suc p) is)"
  using chain_nth [OF assms] assms(2) by (simp add: Cons_nth_drop_Suc [symmetric])

lemma chain_first: "chain bl b is \<Longrightarrow> b \<noteq> - 1 \<longleftrightarrow> is \<noteq> []"
  by (cases "is") auto

text \<open>Linking a new last block.\<close>

lemma chain_snoc:
  assumes "chain bl b (is @ [l])" "distinct (is @ [l])" "length bl' = length bl"
    and "\<And>i. i \<in> set is \<Longrightarrow> next_block (bl' ! i) = next_block (bl ! i)"
    and "next_block (bl' ! l) = of_nat new" "next_block (bl' ! new) = - 1"
    and "new < length bl" "of_nat new \<noteq> (- 1 :: u32)" "unat (of_nat new :: u32) = new"
  shows "chain bl' b (is @ [l, new])"
  using assms by (induction "is" arbitrary: b) auto

section \<open>Following a chain\<close>

fun follow :: "nat \<Rightarrow> fs_block_t list \<Rightarrow> u32 \<Rightarrow> u8 list" where
  "follow 0 bl b = []"
| "follow (Suc k) bl b = (if b = - 1 then [] else fs_data (bl ! unat b) @ follow k bl (next_block (bl ! unat b)))"

lemma follow_chain: "chain bl b is \<Longrightarrow> length is \<le> k \<Longrightarrow> follow k bl b = contents bl is"
proof (induction bl b "is" arbitrary: k rule: chain.induct)
  case (1 bl b)
  then show ?case by (cases k) auto
next
  case (2 bl b i "is")
  then show ?case by (cases k) auto
qed

text \<open>The bytes of a file; 1024 links suffice, since a chain visits no block twice.\<close>

definition file_bytes :: "ramfs_t \<Rightarrow> nat \<Rightarrow> u8 list" where
  "file_bytes fs n = take (unat (fs_size (fs_nodes fs ! n))) (follow 1024 (fs_blocks fs) (first_block (fs_nodes fs ! n)))"

section \<open>Reading\<close>

lemma read_skip_chain:
  "chain (fs_blocks fs) b is \<Longrightarrow> unat off < 512 * length is \<Longrightarrow>
     \<exists>b' off'. read_skip fs b off = Inr (b', off') \<and> chain (fs_blocks fs) b' (drop (unat off div 512) is) \<and> unat off' = unat off mod 512"
proof (induction "is" arbitrary: b off)
  case (Cons i "is")
  show ?case
  proof (cases "512 \<le> off")
    case True
    then have o: "unat (off - 512) = unat off - 512" "512 \<le> unat off" by (simp_all add: unat_sub word_le_nat_alt)
    then have d: "unat off div 512 = Suc (unat (off - 512) div 512)" "unat off mod 512 = unat (off - 512) mod 512"
      by (simp_all add: le_div_geq le_mod_geq)
    have "get_block fs b = Inr (fs_blocks fs ! i)" using Cons.prems by (auto simp: get_block_def)
    then have "read_skip fs b off = read_skip fs (next_block (fs_blocks fs ! i)) (off - 512)"
      using True Cons.prems by (subst read_skip.simps) simp
    moreover have "chain (fs_blocks fs) (next_block (fs_blocks fs ! i)) is" using Cons.prems by auto
    moreover have "unat (off - 512) < 512 * length is" using Cons.prems(2) o by simp
    ultimately show ?thesis using Cons.IH [of "next_block (fs_blocks fs ! i)" "off - 512"] d by simp
  next
    case False
    then have "unat off < 512" by (simp add: word_le_nat_alt)
    moreover have "read_skip fs b off = Inr (b, off)" using False by (subst read_skip.simps) simp
    ultimately show ?thesis using Cons.prems by auto
  qed
qed simp

lemma unat_chunk_min:
  assumes "bytes \<le> sz" "off < 512"
  shows "unat (chunk off sz bytes) = min (512 - unat off) (unat sz - unat bytes)"
  using assms by (auto simp: chunk_def word_less_nat_alt word_le_nat_alt unat_sub min_def)

lemma slice_append:
  assumes "length d = 512" "off < 512"
  shows "take n (drop off (d @ rest)) = take (min (512 - off) n) (drop off d) @ take (n - min (512 - off) n) rest"
  using assms by (auto simp: min_def)

lemma read_loop_chain:
  assumes "full_blocks (fs_blocks fs)"
  shows "chain (fs_blocks fs) b is \<Longrightarrow> r \<le> sz \<Longrightarrow> off < 512 \<Longrightarrow> unat off + (unat sz - unat r) \<le> 512 * length is \<Longrightarrow>
    read_loop fs sz b off r buf = Inr (sz, buf @ take (unat sz - unat r) (drop (unat off) (contents (fs_blocks fs) is)))"
proof (induction "is" arbitrary: b off r buf)
  case Nil
  then have "r = sz" by (simp add: word_unat_eq_iff word_le_nat_alt)
  then show ?case by (subst read_loop.simps) simp
next
  case (Cons i "is")
  show ?case
  proof (cases "r < sz")
    case False
    then have "r = sz" using Cons.prems by simp
    then show ?thesis by (subst read_loop.simps) simp
  next
    case True
    let ?d = "fs_data (fs_blocks fs ! i)" and ?k = "unat (chunk off sz r)"
    have k: "?k = min (512 - unat off) (unat sz - unat r)" by (rule unat_chunk_min) (use Cons.prems in auto)
    have rk: "unat (r + chunk off sz r) = unat r + ?k" by (rule unat_add_chunk [OF True])
    have le: "r + chunk off sz r \<le> sz" unfolding word_le_nat_alt rk by (rule unat_chunk [OF True])
    have off: "unat off < 512" using Cons.prems by (simp add: word_less_nat_alt)
    have d: "length ?d = 512" using assms Cons.prems by (auto simp: full_blocks_def)
    have "get_block fs b = Inr (fs_blocks fs ! i)" using Cons.prems by (auto simp: get_block_def)
    then have step: "read_loop fs sz b off r buf =
        read_loop fs sz (next_block (fs_blocks fs ! i)) 0 (r + chunk off sz r) (buf @ take ?k (drop (unat off) ?d))"
      using True Cons.prems by (subst read_loop.simps) (simp add: Let_def)
    have tl: "chain (fs_blocks fs) (next_block (fs_blocks fs ! i)) is" using Cons.prems by auto
    have room: "unat sz - unat (r + chunk off sz r) \<le> 512 * length is" using Cons.prems(4) off unfolding rk k min_def by auto
    have "read_loop fs sz (next_block (fs_blocks fs ! i)) 0 (r + chunk off sz r) (buf @ take ?k (drop (unat off) ?d)) = Inr (sz, (buf @ take ?k (drop (unat off) ?d)) @ take (unat sz - unat (r + chunk off sz r)) (contents (fs_blocks fs) is))"
      using Cons.IH [OF tl le, of 0 "buf @ take ?k (drop (unat off) ?d)"] room by simp
    with step show ?thesis using slice_append [OF d off, of "unat sz - unat r" "contents (fs_blocks fs) is"] by (simp add: k rk)
  qed
qed

section \<open>The invariant\<close>

definition live :: "ramfs_t \<Rightarrow> nat \<Rightarrow> bool" where
  "live fs n \<longleftrightarrow> n < 64 \<and> inode_num (fs_nodes fs ! n) \<noteq> 0"

definition owns :: "ramfs_t \<Rightarrow> (nat \<Rightarrow> nat list) \<Rightarrow> bool" where
  "owns fs ch \<longleftrightarrow> full_blocks (fs_blocks fs) \<and> length (fs_nodes fs) = 64 \<and> length (free_blocks fs) = 32 \<and>
     (\<forall>n. live fs n \<longrightarrow> chain (fs_blocks fs) (first_block (fs_nodes fs ! n)) (ch n) \<and> distinct (ch n) \<and>
        (\<forall>i \<in> set (ch n). block_used fs i) \<and>
        (fs_type (fs_nodes fs ! n) = 1 \<longrightarrow> unat (fs_size (fs_nodes fs ! n)) \<le> 512 * length (ch n))) \<and>
     (\<forall>m n. live fs m \<and> live fs n \<and> m \<noteq> n \<longrightarrow> set (ch m) \<inter> set (ch n) = {})"

definition ramfs_inv :: "ramfs_t \<Rightarrow> bool" where
  "ramfs_inv fs \<longleftrightarrow> (\<exists>ch. owns fs ch)"

definition disk_full :: "ramfs_t \<Rightarrow> bool" where
  "disk_full fs \<longleftrightarrow> (\<forall>i < 1024. block_used fs i)"

lemma ownsD:
  assumes "owns fs ch"
  shows "full_blocks (fs_blocks fs)" "length (fs_nodes fs) = 64" "length (free_blocks fs) = 32" "length (fs_blocks fs) = 1024"
    "live fs n \<Longrightarrow> chain (fs_blocks fs) (first_block (fs_nodes fs ! n)) (ch n)" "live fs n \<Longrightarrow> distinct (ch n)"
    "live fs n \<Longrightarrow> i \<in> set (ch n) \<Longrightarrow> block_used fs i" "live fs n \<Longrightarrow> i \<in> set (ch n) \<Longrightarrow> i < 1024"
    "live fs n \<Longrightarrow> fs_type (fs_nodes fs ! n) = 1 \<Longrightarrow> unat (fs_size (fs_nodes fs ! n)) \<le> 512 * length (ch n)"
    "live fs m \<Longrightarrow> live fs n \<Longrightarrow> m \<noteq> n \<Longrightarrow> i \<in> set (ch m) \<Longrightarrow> i \<notin> set (ch n)"
proof -
  show l: "length (fs_blocks fs) = 1024" using assms by (simp add: owns_def full_blocks_def)
  show "live fs n \<Longrightarrow> i \<in> set (ch n) \<Longrightarrow> i < 1024" using assms l chain_bound unfolding owns_def by metis
  show "live fs m \<Longrightarrow> live fs n \<Longrightarrow> m \<noteq> n \<Longrightarrow> i \<in> set (ch m) \<Longrightarrow> i \<notin> set (ch n)" using assms unfolding owns_def by blast
qed (use assms in \<open>auto simp: owns_def\<close>)

lemma ownsI:
  assumes "full_blocks (fs_blocks fs)" "length (fs_nodes fs) = 64" "length (free_blocks fs) = 32"
    and "\<And>n. live fs n \<Longrightarrow> chain (fs_blocks fs) (first_block (fs_nodes fs ! n)) (ch n)" "\<And>n. live fs n \<Longrightarrow> distinct (ch n)"
    and "\<And>n i. live fs n \<Longrightarrow> i \<in> set (ch n) \<Longrightarrow> block_used fs i"
    and "\<And>n. live fs n \<Longrightarrow> fs_type (fs_nodes fs ! n) = 1 \<Longrightarrow> unat (fs_size (fs_nodes fs ! n)) \<le> 512 * length (ch n)"
    and "\<And>m n i. live fs m \<Longrightarrow> live fs n \<Longrightarrow> m \<noteq> n \<Longrightarrow> i \<in> set (ch m) \<Longrightarrow> i \<notin> set (ch n)"
  shows "owns fs ch"
  unfolding owns_def disjoint_iff using assms by blast

lemma length_chain_bound:
  assumes "owns fs ch" "live fs n"
  shows "length (ch n) \<le> 1024"
proof -
  have "set (ch n) \<subseteq> {..<1024}" using ownsD(8) [OF assms] by auto
  then have "card (set (ch n)) \<le> 1024" using card_mono [of "{..<1024}"] by fastforce
  then show ?thesis using ownsD(6) [OF assms] by (simp add: distinct_card)
qed

lemma file_bytes_contents:
  assumes "owns fs ch" "live fs n"
  shows "file_bytes fs n = take (unat (fs_size (fs_nodes fs ! n))) (contents (fs_blocks fs) (ch n))"
  unfolding file_bytes_def using follow_chain [OF ownsD(5) [OF assms] length_chain_bound [OF assms]] by simp

lemma chain_contents_length:
  assumes "owns fs ch" "live fs n"
  shows "length (contents (fs_blocks fs) (ch n)) = 512 * length (ch n)"
  using contents_length [OF ownsD(1) [OF assms(1)]] ownsD(8) [OF assms] by blast

lemma length_file_bytes:
  assumes "owns fs ch" "live fs n" "fs_type (fs_nodes fs ! n) = 1"
  shows "length (file_bytes fs n) = unat (fs_size (fs_nodes fs ! n))"
  using ownsD(9) [OF assms] chain_contents_length [OF assms(1,2)] by (simp add: file_bytes_contents [OF assms(1,2)])

section \<open>Allocating a block\<close>

lemma block_used_bit: "block_used fs i \<longleftrightarrow> bit (free_blocks fs ! (i div 32)) (i mod 32)"
  by (simp add: block_used_def and_exp_zero_iff)

lemma block_used_set:
  assumes "length (free_blocks fs) = 32" "i < 1024" "j < 1024"
  shows "block_used (fs\<lparr>free_blocks := (free_blocks fs)[i div 32 := (free_blocks fs ! (i div 32)) OR push_bit (i mod 32) 1]\<rparr>) j
    \<longleftrightarrow> block_used fs j \<or> j = i"
proof -
  have b: "i div 32 < 32" "j div 32 < 32" "i mod 32 < 32" using assms by auto
  have e: "j = i \<longleftrightarrow> j div 32 = i div 32 \<and> j mod 32 = i mod 32" by (metis div_mult_mod_eq)
  show ?thesis using b assms(1) bit_or_exp [of "i mod 32" "free_blocks fs ! (i div 32)" "j mod 32"]
    unfolding block_used_bit e by (auto simp: nth_list_update)
qed

lemma allocate_block_cases:
  assumes "length (free_blocks fs) = 32" "length (fs_blocks fs) = 1024"
  obtains (full) "disk_full fs" "allocate_block fs = (- 1, fs)"
    | (new) i fs' where "i < 1024" "\<not> block_used fs i" "allocate_block fs = (of_nat i, fs')"
      "fs_nodes fs' = fs_nodes fs" "fs_blocks fs' = (fs_blocks fs)[i := (fs_blocks fs ! i)\<lparr>next_block := - 1\<rparr>]"
      "length (free_blocks fs') = 32" "\<And>j. j < 1024 \<Longrightarrow> block_used fs' j \<longleftrightarrow> block_used fs j \<or> j = i"
proof (cases "find (\<lambda>i. \<not> block_used fs i) (for_range 0 1024)")
  case None
  then have "disk_full fs" by (auto simp: find_for_range_None disk_full_def)
  then show ?thesis using full None by (simp add: allocate_block_def)
next
  case (Some i)
  then have i: "i < 1024" "\<not> block_used fs i" by (auto simp: find_for_range_Some)
  let ?fs1 = "fs\<lparr>free_blocks := (free_blocks fs)[i div 32 := (free_blocks fs ! (i div 32)) OR push_bit (i mod 32) 1]\<rparr>"
  have "block_used (upd_block i f ?fs1) j = block_used ?fs1 j" for f j by (simp add: block_used_def upd_block_def)
  then show ?thesis using new [of i "upd_block i (\<lambda>b. b\<lparr>next_block := - 1\<rparr>) ?fs1"] i Some assms block_used_set [OF assms(1) i(1)]
    by (simp add: allocate_block_def upd_block_def)
qed

lemma block_number:
  "i < 1024 \<Longrightarrow> unat (of_nat i :: u32) = i" "i < 1024 \<Longrightarrow> of_nat i \<noteq> (- 1 :: u32)"
proof -
  show u: "i < 1024 \<Longrightarrow> unat (of_nat i :: u32) = i" by (simp add: unat_of_nat_32)
  show "i < 1024 \<Longrightarrow> of_nat i \<noteq> (- 1 :: u32)"
    using u by (auto simp: word_unat_eq_iff unsigned_minus_1_eq_mask mask_eq_exp_minus_1)
qed

text \<open>
  \<open>wrote n k xs\<close>: the chain of file \<open>n\<close> has grown, the bytes \<open>xs\<close> are at position \<open>k\<close> of its
  contents, and everything else is as before.
\<close>

definition wrote :: "nat \<Rightarrow> nat \<Rightarrow> u8 list \<Rightarrow> ramfs_t \<Rightarrow> (nat \<Rightarrow> nat list) \<Rightarrow> ramfs_t \<Rightarrow> (nat \<Rightarrow> nat list) \<Rightarrow> bool" where
  "wrote n k xs fs ch fs' ch' \<longleftrightarrow> owns fs' ch' \<and> fs_nodes fs' = fs_nodes fs \<and> (\<exists>ext. ch' n = ch n @ ext) \<and>
     (\<forall>m. m \<noteq> n \<longrightarrow> ch' m = ch m) \<and>
     (\<forall>i < 1024. i \<notin> set (ch' n) \<longrightarrow> fs_data (fs_blocks fs' ! i) = fs_data (fs_blocks fs ! i)) \<and>
     (\<exists>more. contents (fs_blocks fs') (ch' n) = store_bytes k xs (contents (fs_blocks fs) (ch n) @ more) \<and>
        k + length xs \<le> length (contents (fs_blocks fs) (ch n) @ more))"

lemma store_bytes_Nil [simp]: "store_bytes k [] c = c"
  by (simp add: store_bytes_def)

lemma length_store_bytes: "k + length xs \<le> length c \<Longrightarrow> length (store_bytes k xs c) = length c"
  by (simp add: store_bytes_def)

lemma store_bytes_append: "k + length xs \<le> length c \<Longrightarrow> store_bytes k xs c @ d = store_bytes k xs (c @ d)"
  by (simp add: store_bytes_def)

lemma store_bytes_twice:
  "k + length xs \<le> length c \<Longrightarrow> store_bytes (k + length xs) ys (store_bytes k xs c) = store_bytes k (xs @ ys) c"
  by (simp add: store_bytes_def ac_simps)

lemma wrote_refl: "owns fs ch \<Longrightarrow> live fs n \<Longrightarrow> k \<le> 512 * length (ch n) \<Longrightarrow> wrote n k [] fs ch fs ch"
  unfolding wrote_def using chain_contents_length by auto

lemma wrote_trans:
  assumes "wrote n k xs fs ch fs1 ch1" "wrote n (k + length xs) ys fs1 ch1 fs2 ch2"
  shows "wrote n k (xs @ ys) fs ch fs2 ch2"
proof -
  let ?c = "contents (fs_blocks fs) (ch n)"
  obtain m1 where m1: "contents (fs_blocks fs1) (ch1 n) = store_bytes k xs (?c @ m1)" "k + length xs \<le> length (?c @ m1)"
    using assms(1) unfolding wrote_def by blast
  obtain m2 where m2: "contents (fs_blocks fs2) (ch2 n) = store_bytes (k + length xs) ys (contents (fs_blocks fs1) (ch1 n) @ m2)"
      "k + length xs + length ys \<le> length (contents (fs_blocks fs1) (ch1 n) @ m2)"
    using assms(2) unfolding wrote_def by blast
  have l: "k + length xs \<le> length (?c @ m1 @ m2)" using m1(2) by simp
  have "contents (fs_blocks fs2) (ch2 n) = store_bytes k (xs @ ys) (?c @ m1 @ m2)"
    using m2(1) store_bytes_append [OF m1(2), of m2] store_bytes_twice [OF l, of ys] by (simp add: m1(1))
  moreover have "k + length (xs @ ys) \<le> length (?c @ m1 @ m2)"
    using m2(2) length_store_bytes [OF m1(2)] by (simp add: m1(1))
  moreover have "\<forall>i < 1024. i \<notin> set (ch2 n) \<longrightarrow> fs_data (fs_blocks fs2 ! i) = fs_data (fs_blocks fs ! i)"
  proof safe
    fix i
    assume "i < (1024 :: nat)" "i \<notin> set (ch2 n)"
    moreover obtain ext where "ch2 n = ch1 n @ ext" using assms(2) unfolding wrote_def by blast
    ultimately show "fs_data (fs_blocks fs2 ! i) = fs_data (fs_blocks fs ! i)" using assms unfolding wrote_def by simp
  qed
  moreover have "\<exists>ext. ch2 n = ch n @ ext" using assms unfolding wrote_def by (metis append.assoc)
  moreover have "owns fs2 ch2" "fs_nodes fs2 = fs_nodes fs" "\<forall>m. m \<noteq> n \<longrightarrow> ch2 m = ch m"
    using assms unfolding wrote_def by simp_all
  ultimately show ?thesis unfolding wrote_def by blast
qed

lemma live_cong: "fs_nodes fs' = fs_nodes fs \<Longrightarrow> live fs' n = live fs n"
  by (simp add: live_def)

lemma owns_link:
  assumes o: "owns fs ch" and n: "live fs n" "ch n = is @ [l]" and i: "i < 1024" "\<not> block_used fs i"
    and nodes: "fs_nodes fs' = fs_nodes fs"
    and bl: "fs_blocks fs' = (fs_blocks fs)[i := (fs_blocks fs ! i)\<lparr>next_block := - 1\<rparr>, l := (fs_blocks fs ! l)\<lparr>next_block := of_nat i\<rparr>]"
    and used: "length (free_blocks fs') = 32" "\<And>j. j < 1024 \<Longrightarrow> block_used fs' j \<longleftrightarrow> block_used fs j \<or> j = i"
  shows "wrote n 0 [] fs ch fs' (ch(n := ch n @ [i]))"
proof -
  let ?bl = "fs_blocks fs" and ?bl' = "fs_blocks fs'" and ?ch = "ch(n := ch n @ [i])"
  have len: "length ?bl = 1024" by (rule ownsD(4) [OF o])
  have fresh: "i \<notin> set (ch m)" if "live fs m" for m using ownsD(7) [OF o that] i(2) by blast
  have l: "l < 1024" "l \<noteq> i" using ownsD(8) [OF o n(1), of l] fresh [OF n(1)] n(2) by auto
  have data: "fs_data (?bl' ! j) = fs_data (?bl ! j)" if "j < 1024" for j using that l i len by (simp add: bl nth_list_update)
  have nxt: "next_block (?bl' ! j) = (if j = l then of_nat i else if j = i then - 1 else next_block (?bl ! j))" if "j < 1024" for j
    using that l i len by (simp add: bl nth_list_update)
  have full: "full_blocks ?bl'"
    using ownsD(1) [OF o] data bl by (simp add: full_blocks_nth)
  have chains: "chain ?bl' (first_block (fs_nodes fs ! m)) (?ch m)" if m: "live fs m" for m
  proof (cases "m = n")
    case True
    have "chain ?bl' (first_block (fs_nodes fs ! n)) (is @ [l, i])"
    proof (rule chain_snoc)
      show "chain ?bl (first_block (fs_nodes fs ! n)) (is @ [l])" "distinct (is @ [l])"
        using ownsD(5,6) [OF o n(1)] n(2) by simp_all
      then show "next_block (?bl' ! j) = next_block (?bl ! j)" if "j \<in> set is" for j
        using that nxt [of j] ownsD(8) [OF o n(1), of j] fresh [OF n(1)] n(2) by auto
    qed (use l i len nxt block_number bl in auto)
    then show ?thesis using True n(2) by simp
  next
    case False
    have "next_block (?bl' ! j) = next_block (?bl ! j)" if "j \<in> set (ch m)" for j
    proof -
      have "j \<noteq> l" using ownsD(10) [OF o m n(1) False that] n(2) by auto
      moreover have "j \<noteq> i" using fresh [OF m] that by blast
      ultimately show ?thesis using nxt ownsD(8) [OF o m that] by simp
    qed
    then show ?thesis using False ownsD(5) [OF o m] chain_cong [of ?bl' ?bl "ch m"] len bl by simp
  qed
  have lv: "live fs' m = live fs m" for m using nodes by (rule live_cong)
  have "owns fs' ?ch"
  proof (rule ownsI, unfold lv nodes)
    show "distinct (?ch m)" if "live fs m" for m using ownsD(6) [OF o that] fresh [OF that] by auto
    show "block_used fs' j" if "live fs m" "j \<in> set (?ch m)" for m j
      using that used ownsD(7,8) [OF o that(1), of j] i n(1) by (auto split: if_splits)
    show "unat (fs_size (fs_nodes fs ! m)) \<le> 512 * length (?ch m)" if "live fs m" "fs_type (fs_nodes fs ! m) = 1" for m
      using ownsD(9) [OF o that] by auto
    show "j \<notin> set (?ch m')" if "live fs m" "live fs m'" "m \<noteq> m'" "j \<in> set (?ch m)" for m m' j
      using that fresh ownsD(10) [OF o that(1,2,3), of j] by (auto split: if_splits)
  qed (use full ownsD(2) [OF o] used chains in auto)
  moreover have "contents ?bl' (ch n @ [i]) = contents ?bl (ch n) @ fs_data (?bl ! i)"
    using contents_cong [of "ch n" ?bl' ?bl] data ownsD(8) [OF o n(1)] i(1) by simp
  ultimately show ?thesis unfolding wrote_def using nodes data by auto
qed

section \<open>Writing\<close>

lemma next_or_new_cases:
  assumes o: "owns fs ch" and n: "live fs n" and p: "p < length (ch n)"
  obtains (full) "disk_full fs" "next_or_new (of_nat (ch n ! p)) fs = Inr (None, fs)"
    | (step) fs' ch' where "next_or_new (of_nat (ch n ! p)) fs = Inr (Some (of_nat (ch' n ! Suc p)), fs')"
      "Suc p < length (ch' n)" "wrote n 0 [] fs ch fs' ch'"
proof -
  let ?b = "ch n ! p" and ?bl = "fs_blocks fs"
  have len: "length ?bl = 1024" by (rule ownsD(4) [OF o])
  have b: "?b < 1024" using ownsD(8) [OF o n] p by simp
  have get: "get_block fs (of_nat ?b) = Inr (?bl ! ?b)" using b len by (simp add: get_block_def block_number)
  have nxt: "chain ?bl (next_block (?bl ! ?b)) (drop (Suc p) (ch n))" by (rule chain_next [OF ownsD(5) [OF o n] p])
  show ?thesis
  proof (cases "Suc p < length (ch n)")
    case True
    then have d: "drop (Suc p) (ch n) = ch n ! Suc p # drop (Suc (Suc p)) (ch n)" by (simp add: Cons_nth_drop_Suc)
    with nxt have "next_block (?bl ! ?b) \<noteq> - 1" "next_block (?bl ! ?b) = of_nat (ch n ! Suc p)" by auto
    then show ?thesis using step [of ch fs] True get wrote_refl [OF o n, of 0] by (simp add: next_or_new_def)
  next
    case False
    then have e: "next_block (?bl ! ?b) = - 1" and last: "Suc p = length (ch n)" using nxt p by auto
    from ownsD(3,4) [OF o] show ?thesis
    proof (cases rule: allocate_block_cases)
      case full
      then show ?thesis using that(1) get e by (simp add: next_or_new_def)
    next
      case (new i fs1)
      let ?fs' = "upd_block ?b (\<lambda>b. b\<lparr>next_block := of_nat i\<rparr>) fs1" and ?ch = "ch(n := ch n @ [i])"
      have ib: "i \<noteq> ?b" using ownsD(7) [OF o n] new(2) p by auto
      have split: "ch n = butlast (ch n) @ [?b]" using last p
        by (metis append_butlast_last_id diff_Suc_1 last_conv_nth length_0_conv less_nat_zero_code)
      have "wrote n 0 [] fs ch ?fs' ?ch"
      proof (rule owns_link [OF o n split new(1,2)])
        show "fs_blocks ?fs' = ?bl[i := (?bl ! i)\<lparr>next_block := - 1\<rparr>, ?b := (?bl ! ?b)\<lparr>next_block := of_nat i\<rparr>]"
          using ib by (simp add: upd_block_def new)
      qed (use new in \<open>simp_all add: upd_block_def block_used_def\<close>)
      moreover have "next_or_new (of_nat ?b) fs = Inr (Some (of_nat (?ch n ! Suc p)), ?fs')"
        using get e new b len last block_number by (simp add: next_or_new_def upd_block_def Let_def)
      ultimately show ?thesis using step [of ?ch ?fs'] last by simp
    qed
  qed
qed

lemma concat_store:
  assumes "\<forall>r \<in> set rs. length r = w" "p < length rs" "k + length xs \<le> w"
  shows "concat (rs[p := store_bytes k xs (rs ! p)]) = store_bytes (p * w + k) xs (concat rs)"
  using assms
proof (induction rs arbitrary: p)
  case (Cons r rs)
  then show ?case by (cases p) (auto simp: store_bytes_def add.assoc)
qed simp

lemma wrote_block:
  assumes o: "owns fs ch" and n: "live fs n" and p: "p < length (ch n)" and k: "k + length xs \<le> 512"
  shows "wrote n (p * 512 + k) xs fs ch (upd_block (ch n ! p) (\<lambda>b. b\<lparr>fs_data := store_bytes k xs (fs_data b)\<rparr>) fs) ch"
proof -
  let ?b = "ch n ! p" and ?bl = "fs_blocks fs"
  let ?fs' = "upd_block ?b (\<lambda>b. b\<lparr>fs_data := store_bytes k xs (fs_data b)\<rparr>) fs"
  let ?bl' = "fs_blocks ?fs'"
  have len: "length ?bl = 1024" by (rule ownsD(4) [OF o])
  have b: "?b < 1024" using ownsD(8) [OF o n] p by simp
  have d512: "length (fs_data (?bl ! i)) = 512" if "i < 1024" for i using full_blocks_data [OF ownsD(1) [OF o] that] .
  have data: "fs_data (?bl' ! i) = (if i = ?b then store_bytes k xs (fs_data (?bl ! ?b)) else fs_data (?bl ! i))" if "i < 1024" for i
    using that b len by (simp add: upd_block_def nth_list_update)
  have nxt: "next_block (?bl' ! i) = next_block (?bl ! i)" if "i < 1024" for i
    using that b len by (simp add: upd_block_def nth_list_update)
  have nodes: "fs_nodes ?fs' = fs_nodes fs" by (simp add: upd_block_def)
  have used: "block_used ?fs' i = block_used fs i" for i by (simp add: upd_block_def block_used_def)
  have lv: "live ?fs' m = live fs m" for m using nodes by (rule live_cong)
  have "owns ?fs' ch"
  proof (rule ownsI, unfold lv nodes used)
    show "full_blocks ?bl'" using data d512 length_store_bytes k b len by (simp add: full_blocks_nth upd_block_def)
    show "chain ?bl' (first_block (fs_nodes fs ! m)) (ch m)" if "live fs m" for m
      using chain_cong [of ?bl' ?bl "ch m"] nxt ownsD(5,8) [OF o that] by (simp add: upd_block_def)
    show "length (free_blocks ?fs') = 32" using ownsD(3) [OF o] by (simp add: upd_block_def)
  qed (use ownsD [OF o] in auto)
  moreover have "contents ?bl' (ch n) = store_bytes (p * 512 + k) xs (contents ?bl (ch n))"
  proof -
    let ?f = "\<lambda>i. fs_data (?bl ! i)"
    have "map (\<lambda>i. fs_data (?bl' ! i)) (ch n) = (map ?f (ch n))[p := store_bytes k xs (map ?f (ch n) ! p)]"
      using p data ownsD(6,8) [OF o n] by (intro nth_equalityI) (auto simp: nth_list_update nth_eq_iff_index_eq)
    then show ?thesis using concat_store [of "map ?f (ch n)" 512 p k xs] p k d512 ownsD(8) [OF o n] by (simp add: contents_def)
  qed
  moreover have "p * 512 + k + length xs \<le> length (contents ?bl (ch n))"
    using chain_contents_length [OF o n] p k by simp
  moreover have "\<forall>i < 1024. i \<notin> set (ch n) \<longrightarrow> fs_data (?bl' ! i) = fs_data (?bl ! i)" using data p by auto
  ultimately show ?thesis unfolding wrote_def using nodes by (auto intro: exI [of _ "[]"])
qed

lemma wrote_owns:
  assumes "wrote n k xs fs ch fs' ch'"
  shows "owns fs' ch'" "live fs' = live fs" "length (ch n) \<le> length (ch' n)" "fs_nodes fs' = fs_nodes fs"
  using assms unfolding wrote_def by (auto simp: live_def fun_eq_iff)

lemma wrote_length:
  "wrote n k xs fs ch fs' ch' \<Longrightarrow> live fs n \<Longrightarrow> length (contents (fs_blocks fs') (ch' n)) = 512 * length (ch' n)"
  by (rule chain_contents_length) (simp_all add: wrote_owns)

lemma wrote_Nil:
  assumes "wrote n 0 [] fs ch fs' ch'" "live fs n" "k \<le> 512 * length (ch' n)"
  shows "wrote n k [] fs ch fs' ch'"
proof -
  have "length (contents (fs_blocks fs') (ch' n)) = 512 * length (ch' n)" by (rule wrote_length [OF assms(1,2)])
  moreover obtain more where "contents (fs_blocks fs') (ch' n) = contents (fs_blocks fs) (ch n) @ more"
    using assms(1) unfolding wrote_def by auto
  ultimately show ?thesis using assms(1,3) unfolding wrote_def by (intro conjI exI [of _ more]) simp_all
qed

lemma wrote_keeps_block:
  assumes "wrote n k xs fs ch fs' ch'" "p < length (ch n)"
  shows "ch' n ! p = ch n ! p"
  using assms unfolding wrote_def by (auto simp: nth_append)

lemma write_skip_cases:
  assumes "owns fs ch" "live fs n" "p < length (ch n)"
  shows "\<exists>fs' ch'. wrote n 0 [] fs ch fs' ch' \<and>
    (disk_full fs' \<and> write_skip (of_nat (ch n ! p)) off fs = Inr (None, fs') \<or>
     p + unat off div 512 < length (ch' n) \<and>
     (\<exists>off'. unat off' = unat off mod 512 \<and>
        write_skip (of_nat (ch n ! p)) off fs = Inr (Some (of_nat (ch' n ! (p + unat off div 512)), off'), fs')))"
  using assms
proof (induction "unat off" arbitrary: off p fs ch rule: less_induct)
  case less
  note o = less.prems(1) and n = less.prems(2) and p = less.prems(3)
  show ?case
  proof (cases "512 \<le> off")
    case False
    then have "unat off < 512" by (simp add: word_le_nat_alt)
    moreover have "write_skip (of_nat (ch n ! p)) off fs = Inr (Some (of_nat (ch n ! p), off), fs)"
      using False by (subst write_skip.simps) simp
    ultimately show ?thesis using wrote_refl [OF o n, of 0] p by auto
  next
    case True
    then have off: "unat (off - 512) = unat off - 512" "512 \<le> unat off" by (simp_all add: unat_sub word_le_nat_alt)
    then have d: "unat off div 512 = Suc (unat (off - 512) div 512)" "unat off mod 512 = unat (off - 512) mod 512"
      by (simp_all add: le_div_geq le_mod_geq)
    from o n p show ?thesis
    proof (cases rule: next_or_new_cases)
      case full
      then have "write_skip (of_nat (ch n ! p)) off fs = Inr (None, fs)" using True by (subst write_skip.simps) simp
      then show ?thesis using full wrote_refl [OF o n, of 0] by auto
    next
      case (step fs1 ch1)
      then have eq: "write_skip (of_nat (ch n ! p)) off fs = write_skip (of_nat (ch1 n ! Suc p)) (off - 512) fs1"
        using True by (subst write_skip.simps) simp
      have o1: "owns fs1 ch1" "live fs1 n" using wrote_owns [OF step(3)] n by auto
      obtain fs' ch' where w: "wrote n 0 [] fs1 ch1 fs' ch'" and
        r: "disk_full fs' \<and> write_skip (of_nat (ch1 n ! Suc p)) (off - 512) fs1 = Inr (None, fs') \<or>
          Suc p + unat (off - 512) div 512 < length (ch' n) \<and>
          (\<exists>off'. unat off' = unat (off - 512) mod 512 \<and> write_skip (of_nat (ch1 n ! Suc p)) (off - 512) fs1 =
             Inr (Some (of_nat (ch' n ! (Suc p + unat (off - 512) div 512)), off'), fs'))"
        using less.hyps [OF _ o1 step(2), of "off - 512"] off by auto
      have "wrote n 0 [] fs ch fs' ch'" using wrote_trans [OF step(3), of "[]" fs' ch'] w by simp
      then show ?thesis using r unfolding eq d by auto
    qed
  qed
qed

lemma wrote_room:
  assumes "wrote n k xs fs ch fs' ch'" "live fs n"
  shows "k + length xs \<le> 512 * length (ch' n)"
proof -
  have "length (contents (fs_blocks fs') (ch' n)) = 512 * length (ch' n)" by (rule wrote_length [OF assms(1,2)])
  then show ?thesis using assms(1) unfolding wrote_def by (metis length_store_bytes)
qed

lemma chunk_facts:
  assumes "r < sz" "off < 512"
  shows "unat (r + chunk off sz r) = unat r + unat (chunk off sz r)" "r + chunk off sz r \<le> sz" "0 < unat (chunk off sz r)"
    "unat (chunk off sz r) = min (512 - unat off) (unat sz - unat r)"
proof -
  show rk: "unat (r + chunk off sz r) = unat r + unat (chunk off sz r)" by (rule unat_add_chunk [OF assms(1)])
  show "r + chunk off sz r \<le> sz" unfolding word_le_nat_alt rk by (rule unat_chunk [OF assms(1)])
  show "0 < unat (chunk off sz r)" by (rule chunk_pos [OF assms])
  show "unat (chunk off sz r) = min (512 - unat off) (unat sz - unat r)" by (rule unat_chunk_min) (use assms in auto)
qed

text \<open>One iteration of the writing loop.\<close>

lemma write_loop_step:
  assumes o: "owns fs ch" and n: "live fs n" and p: "p < length (ch n)" and off: "off < 512" and r: "r < sz" and buf: "length buf = unat sz"
  defines "c \<equiv> chunk off sz r" and "b \<equiv> of_nat (ch n ! p)"
  shows "\<exists>fs1. wrote n (p * 512 + unat off) (take (unat c) (drop (unat r) buf)) fs ch fs1 ch \<and>
    write_loop sz buf b off r fs =
      (if r + c < sz then bind_res (next_or_new b fs1) (\<lambda>(next, fs2).
         case next of None \<Rightarrow> Inr (r + c, fs2) | Some b' \<Rightarrow> write_loop sz buf b' 0 (r + c) fs2)
       else Inr (sz, fs1))"
proof -
  let ?part = "take (unat c) (drop (unat r) buf)"
  let ?fs1 = "upd_block (ch n ! p) (\<lambda>b. b\<lparr>fs_data := store_bytes (unat off) ?part (fs_data b)\<rparr>) fs"
  note cf = chunk_facts [OF r off, folded c_def]
  have "wrote n (p * 512 + unat off) ?part fs ch ?fs1 ch"
  proof (rule wrote_block [OF o n p])
    have "length ?part \<le> 512 - unat off" "unat off < 512" using cf(4) off by (simp_all add: word_less_nat_alt)
    then show "unat off + length ?part \<le> 512" by simp
  qed
  moreover have lt: "ch n ! p < 1024" using ownsD(8) [OF o n] p by simp
  have bn: "unat b = ch n ! p" unfolding b_def by (rule block_number(1) [OF lt])
  then have get: "get_block fs b = Inr (fs_blocks fs ! (ch n ! p))" using lt ownsD(4) [OF o] by (simp add: get_block_def)
  have stop: "write_loop sz buf b' 0 sz fs' = Inr (sz, fs')" for b' fs' by (subst write_loop.simps) simp
  have "write_loop sz buf b off r fs =
      (if r + c < sz then bind_res (next_or_new b ?fs1) (\<lambda>(next, fs2).
         case next of None \<Rightarrow> Inr (r + c, fs2) | Some b' \<Rightarrow> write_loop sz buf b' 0 (r + c) fs2)
       else Inr (sz, ?fs1))"
  proof (cases "r + c < sz")
    case True
    then show ?thesis using r get bn by (subst write_loop.simps) (simp add: Let_def c_def [symmetric])
  next
    case False
    then have "r + c = sz" using cf(2) by simp
    then show ?thesis using r get bn stop by (subst write_loop.simps) (simp add: Let_def c_def [symmetric])
  qed
  ultimately show ?thesis by blast
qed

lemma write_loop_cases:
  assumes "owns fs ch" "live fs n" "p < length (ch n)" "off < 512" "r \<le> sz" "length buf = unat sz"
  shows "\<exists>w fs' ch'. write_loop sz buf (of_nat (ch n ! p)) off r fs = Inr (w, fs') \<and> r \<le> w \<and> w \<le> sz \<and> (w = sz \<or> disk_full fs') \<and>
    wrote n (p * 512 + unat off) (take (unat w - unat r) (drop (unat r) buf)) fs ch fs' ch'"
  using assms(1-5)
proof (induction "unat sz - unat r" arbitrary: r off p fs ch rule: less_induct)
  case less
  note o = less.prems(1) and n = less.prems(2) and p = less.prems(3)
  have off: "unat off < 512" using less.prems(4) by (simp add: word_less_nat_alt)
  show ?case
  proof (cases "r < sz")
    case False
    then have "r = sz" using less.prems(5) by simp
    moreover from this have "write_loop sz buf (of_nat (ch n ! p)) off r fs = Inr (sz, fs)" by (subst write_loop.simps) simp
    ultimately show ?thesis using wrote_refl [OF o n, of "p * 512 + unat off"] p off by auto
  next
    case True
    let ?c = "chunk off sz r" and ?P = "p * 512 + unat off"
    let ?part = "take (unat ?c) (drop (unat r) buf)"
    note cf = chunk_facts [OF True less.prems(4)]
    obtain fs1 where w1: "wrote n ?P ?part fs ch fs1 ch" and eq: "write_loop sz buf (of_nat (ch n ! p)) off r fs =
      (if r + ?c < sz then bind_res (next_or_new (of_nat (ch n ! p)) fs1) (\<lambda>(next, fs2).
         case next of None \<Rightarrow> Inr (r + ?c, fs2) | Some b' \<Rightarrow> write_loop sz buf b' 0 (r + ?c) fs2)
       else Inr (sz, fs1))"
      using write_loop_step [OF o n p less.prems(4) True assms(6)] by blast
    have o1: "owns fs1 ch" "live fs1 n" using wrote_owns [OF w1] n by auto
    show ?thesis
    proof (cases "r + ?c < sz")
      case False
      then have "unat ?c = unat sz - unat r" using cf(1,2) by simp
      then show ?thesis using False w1 less.prems(5) eq by auto
    next
      case more: True
      then have "unat ?c = 512 - unat off" using cf(1,4) by (simp add: word_less_nat_alt min_def split: if_splits)
      then have kp: "?P + length ?part = Suc p * 512" using assms(6) cf(1,2) off by (simp add: word_le_nat_alt)
      from o1 p show ?thesis
      proof (cases rule: next_or_new_cases)
        case full
        then have "write_loop sz buf (of_nat (ch n ! p)) off r fs = Inr (r + ?c, fs1)" using more eq by simp
        moreover have "r \<le> r + ?c" unfolding word_le_nat_alt cf(1) by simp
        ultimately show ?thesis using full(1) w1 cf(1,2) by auto
      next
        case (step fs2 ch2)
        have o2: "owns fs2 ch2" "live fs2 n" using wrote_owns [OF step(3)] o1 by auto
        have smaller: "unat sz - unat (r + ?c) < unat sz - unat r" using cf(1,3) more by (simp add: word_less_nat_alt)
        obtain w fs' ch' where w: "write_loop sz buf (of_nat (ch2 n ! Suc p)) 0 (r + ?c) fs2 = Inr (w, fs')"
            "r + ?c \<le> w" "w \<le> sz" "w = sz \<or> disk_full fs'"
            "wrote n (Suc p * 512) (take (unat w - unat (r + ?c)) (drop (unat (r + ?c)) buf)) fs2 ch2 fs' ch'"
          using less.hyps [OF smaller o2 step(2) _ cf(2), of 0] by auto
        have "wrote n (?P + length ?part) [] fs1 ch fs2 ch2" by (rule wrote_Nil [OF step(3) o1(2)]) (use kp step(2) in simp)
        then have w12: "wrote n ?P ?part fs ch fs2 ch2" using wrote_trans [OF w1] by fastforce
        have "wrote n ?P (?part @ take (unat w - unat (r + ?c)) (drop (unat (r + ?c)) buf)) fs ch fs' ch'"
          by (rule wrote_trans [OF w12], unfold kp) (rule w(5))
        moreover have "?part @ take (unat w - unat (r + ?c)) (drop (unat (r + ?c)) buf) = take (unat w - unat r) (drop (unat r) buf)"
          using take_add [of "unat ?c" "unat w - unat (r + ?c)" "drop (unat r) buf"] w(2) cf(1) by (simp add: word_le_nat_alt add.commute)
        moreover have "r \<le> w" using w(2) cf(1) by (simp add: word_le_nat_alt)
        ultimately show ?thesis using w eq more step(1) by auto
      qed
    qed
  qed
qed

section \<open>Files as lists of bytes\<close>

lemma ramfs_read_bytes:
  assumes o: "owns fs ch" and n: "live fs n" "fs_type (fs_nodes fs ! n) = 1" and small: "unat ofs + unat sz < 4294967296"
  shows "\<exists>bs. bs = take (unat sz) (drop (unat ofs) (file_bytes fs n)) \<and> ramfs_read n ofs sz fs = Inr (of_nat (length bs), bs)"
proof -
  let ?n = "fs_nodes fs ! n" and ?c = "contents (fs_blocks fs) (ch n)"
  have fb: "file_bytes fs n = take (unat (fs_size ?n)) ?c" by (rule file_bytes_contents [OF o n(1)])
  have sz: "unat (fs_size ?n) \<le> 512 * length (ch n)" by (rule ownsD(9) [OF o n])
  show ?thesis
  proof (cases "fs_size ?n \<le> ofs")
    case True
    then show ?thesis using n by (simp add: ramfs_read_def fb word_le_nat_alt)
  next
    case False
    then have lt: "unat ofs < unat (fs_size ?n)" by (simp add: word_le_nat_alt)
    define k where "k = (if fs_size ?n < ofs + sz then fs_size ?n - ofs else sz)"
    have add: "unat (ofs + sz) = unat ofs + unat sz" using small by (simp add: unat_add_no_wrap)
    have k: "unat k = min (unat (fs_size ?n) - unat ofs) (unat sz)"
      using lt add by (auto simp: k_def word_less_nat_alt unat_sub word_le_nat_alt)
    obtain b off where sk: "read_skip fs (first_block ?n) ofs = Inr (b, off)"
        "chain (fs_blocks fs) b (drop (unat ofs div 512) (ch n))" "unat off = unat ofs mod 512"
      using read_skip_chain [OF ownsD(5) [OF o n(1)], of ofs] lt sz by auto
    let ?is = "drop (unat ofs div 512) (ch n)"
    have ofs: "512 * (unat ofs div 512) + unat off = unat ofs" unfolding sk(3) by simp
    have "unat k \<le> unat (fs_size ?n) - unat ofs" using k by simp
    then have room: "unat ofs + unat k \<le> 512 * length (ch n)" using lt sz by linarith
    then have "unat off + unat k \<le> 512 * length ?is" using ofs by (simp add: diff_mult_distrib2)
    then have "read_loop fs k b off 0 [] = Inr (k, take (unat k) (drop (unat off) (contents (fs_blocks fs) ?is)))"
      using read_loop_chain [OF ownsD(1) [OF o] sk(2), of 0 k off "[]"] sk(3) by (simp add: word_less_nat_alt)
    moreover have "ramfs_read n ofs sz fs = read_loop fs k b off 0 []"
      using n False sk(1) by (simp add: ramfs_read_def Let_def k_def)
    moreover have "drop (unat off) (contents (fs_blocks fs) ?is) = drop (unat ofs) ?c"
      using contents_drop [OF ownsD(1) [OF o], of "ch n"] ownsD(8) [OF o n(1)] ofs by (simp add: add.commute)
    moreover have "take (unat k) (drop (unat ofs) ?c) = take (unat sz) (drop (unat ofs) (file_bytes fs n))"
      unfolding fb k by (simp add: drop_take min.commute)
    moreover have "length (take (unat k) (drop (unat ofs) ?c)) = unat k"
      using room chain_contents_length [OF o n(1)] by simp
    moreover have "of_nat (unat k) = k" by simp
    ultimately show ?thesis by metis
  qed
qed

lemma wrote_others:
  assumes "wrote n k xs fs ch fs' ch'" "owns fs ch" "live fs n" "live fs m" "m \<noteq> n"
  shows "file_bytes fs' m = file_bytes fs m"
proof -
  note w = wrote_owns [OF assms(1)]
  have m: "live fs' m" "live fs' n" using w(2) assms(3,4) by auto
  have ch: "ch' m = ch m" using assms(1,5) unfolding wrote_def by blast
  have "fs_data (fs_blocks fs' ! i) = fs_data (fs_blocks fs ! i)" if "i \<in> set (ch m)" for i
    using assms(1) ownsD(10) [OF w(1) m assms(5), of i] ownsD(8) [OF assms(2,4) that] that ch unfolding wrote_def by simp
  then have "contents (fs_blocks fs') (ch' m) = contents (fs_blocks fs) (ch m)" unfolding ch by (rule contents_cong)
  then show ?thesis using file_bytes_contents [OF w(1) m(1)] file_bytes_contents [OF assms(2,4)] w(4) by simp
qed

lemma nth_upd_node: "n < length (fs_nodes fs) \<Longrightarrow> fs_nodes (upd_node n f fs) ! m = (if m = n then f (fs_nodes fs ! n) else fs_nodes fs ! m)"
  by (simp add: upd_node_def)

lemma upd_node_other [simp]:
  "fs_blocks (upd_node n f fs) = fs_blocks fs" "block_used (upd_node n f fs) i = block_used fs i"
  "free_blocks (upd_node n f fs) = free_blocks fs" "length (fs_nodes (upd_node n f fs)) = length (fs_nodes fs)"
  by (simp_all add: upd_node_def block_used_def)

lemma owns_first:
  assumes o: "owns fs ch" and n: "live fs n" "ch n = []" and i: "i < 1024" "\<not> block_used fs i"
    and fs': "fs_nodes fs' = fs_nodes fs" "fs_blocks fs' = (fs_blocks fs)[i := (fs_blocks fs ! i)\<lparr>next_block := - 1\<rparr>]"
      "length (free_blocks fs') = 32" "\<And>j. j < 1024 \<Longrightarrow> block_used fs' j \<longleftrightarrow> block_used fs j \<or> j = i"
  shows "owns (upd_node n (\<lambda>n. n\<lparr>first_block := of_nat i\<rparr>) fs') (ch(n := [i]))"
proof -
  let ?fs = "upd_node n (\<lambda>n. n\<lparr>first_block := of_nat i\<rparr>) fs'" and ?ch = "ch(n := [i])"
  have n64: "n < length (fs_nodes fs')" using n(1) ownsD(2) [OF o] fs'(1) by (simp add: live_def)
  note nodes = nth_upd_node [OF n64]
  have len: "length (fs_blocks fs) = 1024" by (rule ownsD(4) [OF o])
  have lv: "live ?fs m = live fs m" for m by (simp add: live_def nodes fs'(1))
  have fresh: "i \<notin> set (ch m)" if "live fs m" for m using ownsD(7) [OF o that] i(2) by blast
  show ?thesis
  proof (rule ownsI, unfold lv upd_node_other)
    show "full_blocks (fs_blocks fs')" using ownsD(1) [OF o] i len by (simp add: full_blocks_nth fs'(2) nth_list_update)
    show "chain (fs_blocks fs') (first_block (fs_nodes ?fs ! m)) (?ch m)" if "live fs m" for m
    proof (cases "m = n")
      case True
      then show ?thesis using i len block_number [OF i(1)] by (simp add: nodes fs'(2))
    next
      case False
      have "next_block (fs_blocks fs' ! j) = next_block (fs_blocks fs ! j)" if "j \<in> set (ch m)" for j
      proof -
        have "i \<noteq> j" using that fresh [OF \<open>live fs m\<close>] by blast
        then show ?thesis by (simp add: fs'(2))
      qed
      then show ?thesis using False ownsD(5) [OF o that] chain_cong [of "fs_blocks fs'" "fs_blocks fs" "ch m"] by (simp add: nodes fs'(1,2))
    qed
    show "block_used fs' j" if "live fs m" "j \<in> set (?ch m)" for m j
      using that fs'(4) ownsD(7,8) [OF o that(1), of j] i by (auto split: if_splits)
    show "unat (fs_size (fs_nodes ?fs ! m)) \<le> 512 * length (?ch m)" if "live fs m" "fs_type (fs_nodes ?fs ! m) = 1" for m
      using ownsD(9) [OF o that(1)] that n(2) by (auto simp: nodes fs'(1) split: if_splits)
    show "j \<notin> set (?ch m')" if "live fs m" "live fs m'" "m \<noteq> m'" "j \<in> set (?ch m)" for m m' j
      using that fresh ownsD(10) [OF o that(1,2,3), of j] by (auto split: if_splits)
  qed (use ownsD(2,6) [OF o] fs' in auto)
qed

definition same_files :: "ramfs_t \<Rightarrow> ramfs_t \<Rightarrow> bool" where
  "same_files fs fs' \<longleftrightarrow> live fs' = live fs \<and> (\<forall>m. fs_type (fs_nodes fs' ! m) = fs_type (fs_nodes fs ! m)) \<and>
     (\<forall>m. fs_size (fs_nodes fs' ! m) = fs_size (fs_nodes fs ! m)) \<and> (\<forall>m. live fs m \<longrightarrow> file_bytes fs' m = file_bytes fs m)"

lemma first_same_files:
  assumes o: "owns fs ch" and n: "live fs n" "ch n = []" "fs_type (fs_nodes fs ! n) = 1"
    and fs': "fs_nodes fs' = fs_nodes fs" "fs_blocks fs' = (fs_blocks fs)[i := (fs_blocks fs ! i)\<lparr>next_block := - 1\<rparr>]"
    and o': "owns (upd_node n (\<lambda>n. n\<lparr>first_block := of_nat i\<rparr>) fs') (ch(n := [i]))"
  shows "same_files fs (upd_node n (\<lambda>n. n\<lparr>first_block := of_nat i\<rparr>) fs')"
proof -
  let ?fs = "upd_node n (\<lambda>n. n\<lparr>first_block := of_nat i\<rparr>) fs'" and ?ch = "ch(n := [i])"
  have n64: "n < length (fs_nodes fs')" using n(1) ownsD(2) [OF o] fs'(1) by (simp add: live_def)
  note nodes = nth_upd_node [OF n64, unfolded fs'(1)]
  have lv: "live ?fs m = live fs m" for m by (simp add: live_def nodes)
  have empty: "unat (fs_size (fs_nodes fs ! n)) = 0" using ownsD(9) [OF o n(1,3)] n(2) by simp
  have "file_bytes ?fs m = file_bytes fs m" if m: "live fs m" for m
  proof (cases "m = n")
    case True
    then show ?thesis using empty by (simp add: file_bytes_def nodes)
  next
    case False
    have "fs_data (fs_blocks fs' ! j) = fs_data (fs_blocks fs ! j)" if "j < 1024" for j
      using that ownsD(4) [OF o] by (cases "j = i") (simp_all add: fs'(2))
    then have "contents (fs_blocks fs') (ch m) = contents (fs_blocks fs) (ch m)" using contents_cong ownsD(8) [OF o m] by blast
    moreover have "file_bytes ?fs m = take (unat (fs_size (fs_nodes ?fs ! m))) (contents (fs_blocks ?fs) (?ch m))"
      by (rule file_bytes_contents [OF o']) (simp add: lv m)
    ultimately show ?thesis using False file_bytes_contents [OF o m] by (simp add: nodes)
  qed
  then show ?thesis using lv by (simp add: same_files_def nodes fun_eq_iff)
qed

lemma ensure_first_cases:
  assumes o: "owns fs ch" and n: "live fs n" "fs_type (fs_nodes fs ! n) = 1"
  obtains (full) "disk_full fs" "ensure_first n fs = fs" "first_block (fs_nodes fs ! n) = - 1"
    | (ok) ch1 where "owns (ensure_first n fs) ch1" "ch1 n \<noteq> []" "same_files fs (ensure_first n fs)"
proof (cases "first_block (fs_nodes fs ! n) = - 1")
  case False
  then have "ch n \<noteq> []" "ensure_first n fs = fs" using chain_first [OF ownsD(5) [OF o n(1)]] by (auto simp: ensure_first_def)
  then show ?thesis using ok [of ch] o by (simp add: same_files_def)
next
  case True
  then have empty: "ch n = []" using chain_first [OF ownsD(5) [OF o n(1)]] by auto
  from ownsD(3,4) [OF o] show ?thesis
  proof (cases rule: allocate_block_cases)
    case full
    have same: "(fs_nodes fs ! n)\<lparr>first_block := - 1\<rparr> = fs_nodes fs ! n" using True by (cases "fs_nodes fs ! n") simp
    have "ensure_first n fs = fs" using full True by (simp add: ensure_first_def upd_node_def same)
    then show ?thesis using that(1) full True by blast
  next
    case (new i fs')
    then have e: "ensure_first n fs = upd_node n (\<lambda>n. n\<lparr>first_block := of_nat i\<rparr>) fs'" using True by (simp add: ensure_first_def)
    have o': "owns (ensure_first n fs) (ch(n := [i]))" unfolding e
      by (rule owns_first [OF o n(1) empty new(1,2)]) (use new in auto)
    then show ?thesis using ok [OF o'] first_same_files [OF o n(1) empty n(2) new(4,5)] unfolding e by simp
  qed
qed

lemma grow_size_facts:
  assumes o: "owns fs ch" and n: "live fs n" and room: "unat e \<le> 512 * length (ch n)"
  shows "owns (grow_size n e fs) ch" "live (grow_size n e fs) = live fs"
    "live fs m \<Longrightarrow> m \<noteq> n \<Longrightarrow> file_bytes (grow_size n e fs) m = file_bytes fs m"
    "file_bytes (grow_size n e fs) n = take (max (unat (fs_size (fs_nodes fs ! n))) (unat e)) (contents (fs_blocks fs) (ch n))"
proof -
  have n64: "n < length (fs_nodes fs)" using n ownsD(2) [OF o] by (simp add: live_def)
  note nodes = nth_upd_node [OF n64]
  have lv: "live (grow_size n e fs) m = live fs m" for m by (simp add: live_def grow_size_def nodes)
  show l: "live (grow_size n e fs) = live fs" using lv by blast
  have fields: "first_block (fs_nodes (grow_size n e fs) ! m) = first_block (fs_nodes fs ! m)"
    "fs_type (fs_nodes (grow_size n e fs) ! m) = fs_type (fs_nodes fs ! m)"
    "fs_size (fs_nodes (grow_size n e fs) ! m) = (if m = n then max (fs_size (fs_nodes fs ! n)) e else fs_size (fs_nodes fs ! m))" for m
    by (auto simp: grow_size_def nodes max_def)
  have rest: "fs_blocks (grow_size n e fs) = fs_blocks fs" "free_blocks (grow_size n e fs) = free_blocks fs"
    "block_used (grow_size n e fs) = block_used fs" "length (fs_nodes (grow_size n e fs)) = length (fs_nodes fs)"
    by (auto simp: grow_size_def)
  have mx: "unat (max (fs_size (fs_nodes fs ! n)) e) = max (unat (fs_size (fs_nodes fs ! n))) (unat e)"
    by (auto simp: max_def word_le_nat_alt)
  show own: "owns (grow_size n e fs) ch"
    by (rule ownsI, unfold lv fields rest) (use ownsD [OF o] mx room in auto)
  show "file_bytes (grow_size n e fs) m = file_bytes fs m" if "live fs m" "m \<noteq> n" using that by (simp add: file_bytes_def fields rest)
  show "file_bytes (grow_size n e fs) n = take (max (unat (fs_size (fs_nodes fs ! n))) (unat e)) (contents (fs_blocks fs) (ch n))"
    using file_bytes_contents [OF own, of n] n lv mx by (simp add: fields rest)
qed

lemma take_store:
  assumes "k + length xs \<le> length (c @ d)" "sz \<le> length c"
  shows "take (length xs) (drop k (take (max sz (k + length xs)) (store_bytes k xs (c @ d)))) = xs"
    "k \<le> sz \<Longrightarrow> take (max sz (k + length xs)) (store_bytes k xs (c @ d)) = store_bytes k xs (take sz c)"
proof -
  have "drop k (store_bytes k xs (c @ d)) = xs @ drop (k + length xs) (c @ d)"
    using assms(1) by (simp add: store_bytes_def)
  then show "take (length xs) (drop k (take (max sz (k + length xs)) (store_bytes k xs (c @ d)))) = xs"
    unfolding drop_take take_take by simp
  assume k: "k \<le> sz"
  show "take (max sz (k + length xs)) (store_bytes k xs (c @ d)) = store_bytes k xs (take sz c)"
  proof (cases "k + length xs \<le> sz")
    case True
    then have "max sz (k + length xs) = sz" by simp
    then show ?thesis using True k assms by (simp add: store_bytes_def drop_take)
  next
    case False
    then have "max sz (k + length xs) = k + length xs" by simp
    then show ?thesis using False k assms by (simp add: store_bytes_def)
  qed
qed

text \<open>The file after \<open>w\<close> bytes of \<open>buf\<close> have been written at \<open>ofs\<close>.\<close>

definition written :: "nat \<Rightarrow> u32 \<Rightarrow> u32 \<Rightarrow> u8 list \<Rightarrow> ramfs_t \<Rightarrow> ramfs_t \<Rightarrow> bool" where
  "written n ofs w buf fs fs' \<longleftrightarrow> take (unat w) (drop (unat ofs) (file_bytes fs' n)) = take (unat w) buf \<and>
     (unat ofs \<le> length (file_bytes fs n) \<longrightarrow> file_bytes fs' n = store_bytes (unat ofs) (take (unat w) buf) (file_bytes fs n))"

lemma grow_size_written:
  assumes o: "owns fs ch" and n: "live fs n" "fs_type (fs_nodes fs ! n) = 1"
    and w: "wrote n (unat ofs) (take (unat w) buf) fs ch fs3 ch3" and len: "unat w \<le> length buf" and e: "unat (ofs + w) = unat ofs + unat w"
  shows "owns (grow_size n (ofs + w) fs3) ch3" "live (grow_size n (ofs + w) fs3) = live fs"
    "live fs m \<Longrightarrow> m \<noteq> n \<Longrightarrow> file_bytes (grow_size n (ofs + w) fs3) m = file_bytes fs m"
    "written n ofs w buf fs (grow_size n (ofs + w) fs3)"
proof -
  note o3 = wrote_owns [OF w]
  have n3: "live fs3 n" using o3(2) n(1) by simp
  let ?c = "contents (fs_blocks fs) (ch n)" and ?xs = "take (unat w) buf" and ?sz = "unat (fs_size (fs_nodes fs ! n))"
  have lx: "length ?xs = unat w" using len by simp
  have "unat (ofs + w) \<le> 512 * length (ch3 n)" using wrote_room [OF w n(1)] lx e by simp
  note f = grow_size_facts [OF o3(1) n3 this]
  show "owns (grow_size n (ofs + w) fs3) ch3" by (rule f(1))
  show "live (grow_size n (ofs + w) fs3) = live fs" using f(2) o3(2) by simp
  show "live fs m \<Longrightarrow> m \<noteq> n \<Longrightarrow> file_bytes (grow_size n (ofs + w) fs3) m = file_bytes fs m"
    using f(3) o3(2) wrote_others [OF w o n(1)] by simp
  obtain d where d: "contents (fs_blocks fs3) (ch3 n) = store_bytes (unat ofs) ?xs (?c @ d)" "unat ofs + length ?xs \<le> length (?c @ d)"
    using w unfolding wrote_def by blast
  have fb: "file_bytes fs n = take ?sz ?c" by (rule file_bytes_contents [OF o n(1)])
  have sz: "?sz \<le> length ?c" using ownsD(9) [OF o n] chain_contents_length [OF o n(1)] by simp
  have "file_bytes (grow_size n (ofs + w) fs3) n = take (max ?sz (unat ofs + length ?xs)) (store_bytes (unat ofs) ?xs (?c @ d))"
    using f(4) d(1) o3(4) e lx by simp
  then show "written n ofs w buf fs (grow_size n (ofs + w) fs3)"
    using take_store [OF d(2) sz] sz lx by (simp add: written_def fb)
qed

lemma written_same_files:
  "same_files fs fs1 \<Longrightarrow> live fs n \<Longrightarrow> written n ofs w buf fs1 fs' \<Longrightarrow> written n ofs w buf fs fs'"
  by (simp add: same_files_def written_def)

lemma wrote_Nil_same:
  assumes o: "owns fs ch" and n: "live fs n" "fs_type (fs_nodes fs ! n) = 1" and w: "wrote n 0 [] fs ch fs' ch'"
  shows "file_bytes fs' n = file_bytes fs n"
proof -
  note o' = wrote_owns [OF w]
  obtain d where "contents (fs_blocks fs') (ch' n) = contents (fs_blocks fs) (ch n) @ d" using w unfolding wrote_def by auto
  then show ?thesis using file_bytes_contents [OF o'(1), of n] file_bytes_contents [OF o n(1)] o'(2,4) n(1)
      ownsD(9) [OF o n] chain_contents_length [OF o n(1)] by simp
qed

lemma ramfs_write_bytes:
  assumes o: "owns fs ch" and n: "live fs n" "fs_type (fs_nodes fs ! n) = 1"
    and buf: "length buf = unat sz" and small: "unat ofs + unat sz < 4294967296"
  shows "\<exists>w fs'. ramfs_write n ofs sz buf fs = Inr (w, fs') \<and> ramfs_inv fs' \<and> live fs' = live fs \<and>
    (\<forall>m. live fs m \<and> m \<noteq> n \<longrightarrow> file_bytes fs' m = file_bytes fs m) \<and>
    (w = - 1 \<and> disk_full fs' \<and> file_bytes fs' n = file_bytes fs n \<or>
     w \<le> sz \<and> (w = sz \<or> disk_full fs') \<and> written n ofs w buf fs fs')"
  using o n
proof (cases rule: ensure_first_cases)
  case full
  then show ?thesis using o n by (auto simp: ramfs_write_def ramfs_inv_def Let_def)
next
  case (ok ch1)
  let ?fs1 = "ensure_first n fs"
  have n1: "live ?fs1 n" "fs_type (fs_nodes ?fs1 ! n) = 1" using ok(3) n by (auto simp: same_files_def)
  have "chain (fs_blocks ?fs1) (first_block (fs_nodes ?fs1 ! n)) (ch1 n)" by (rule ownsD(5) [OF ok(1) n1(1)])
  then have b: "first_block (fs_nodes ?fs1 ! n) \<noteq> - 1" "first_block (fs_nodes ?fs1 ! n) = of_nat (ch1 n ! 0)" "0 < length (ch1 n)"
    using ok(2) by (cases "ch1 n"; auto)+
  have same: "live ?fs1 = live fs" "\<forall>m. live fs m \<longrightarrow> file_bytes ?fs1 m = file_bytes fs m" using ok(3) by (auto simp: same_files_def)
  obtain fs2 ch2 where w2: "wrote n 0 [] ?fs1 ch1 fs2 ch2" and
    r2: "disk_full fs2 \<and> write_skip (of_nat (ch1 n ! 0)) ofs ?fs1 = Inr (None, fs2) \<or>
      unat ofs div 512 < length (ch2 n) \<and> (\<exists>off. unat off = unat ofs mod 512 \<and>
        write_skip (of_nat (ch1 n ! 0)) ofs ?fs1 = Inr (Some (of_nat (ch2 n ! (unat ofs div 512)), off), fs2))"
    using write_skip_cases [OF ok(1) n1(1) b(3), of ofs] by auto
  note o2 = wrote_owns [OF w2]
  from r2 show ?thesis
  proof (elim disjE conjE exE)
    assume full: "disk_full fs2" "write_skip (of_nat (ch1 n ! 0)) ofs ?fs1 = Inr (None, fs2)"
    then have "ramfs_write n ofs sz buf fs = Inr (- 1, fs2)" using b n(2) by (simp add: ramfs_write_def Let_def)
    moreover have "file_bytes fs2 n = file_bytes fs n" using wrote_Nil_same [OF ok(1) n1 w2] same(2) n(1) by simp
    moreover have "\<forall>m. live fs m \<and> m \<noteq> n \<longrightarrow> file_bytes fs2 m = file_bytes fs m"
      using wrote_others [OF w2 ok(1) n1(1)] same by simp
    moreover have "live fs2 = live fs" using o2(2) same(1) by simp
    ultimately show ?thesis using full(1) o2(1) unfolding ramfs_inv_def by blast
  next
    fix off
    assume st: "unat ofs div 512 < length (ch2 n)" "unat off = unat ofs mod 512"
      "write_skip (of_nat (ch1 n ! 0)) ofs ?fs1 = Inr (Some (of_nat (ch2 n ! (unat ofs div 512)), off), fs2)"
    have pos: "unat ofs div 512 * 512 + unat off = unat ofs" unfolding st(2) by simp
    have "off < 512" "live fs2 n" using st(2) o2(2) n1 by (simp_all add: word_less_nat_alt)
    from write_loop_cases [OF o2(1) this(2) st(1) this(1) _ buf, of 0]
    obtain w fs3 ch3 where w3: "write_loop sz buf (of_nat (ch2 n ! (unat ofs div 512))) off 0 fs2 = Inr (w, fs3)" "w \<le> sz" "w = sz \<or> disk_full fs3"
        "wrote n (unat ofs) (take (unat w) buf) fs2 ch2 fs3 ch3" unfolding pos by auto
    have "wrote n (unat ofs) [] ?fs1 ch1 fs2 ch2" by (rule wrote_Nil [OF w2 n1(1)]) (use pos st in linarith)
    then have w13: "wrote n (unat ofs) (take (unat w) buf) ?fs1 ch1 fs3 ch3" using wrote_trans w3(4) by fastforce
    have wl: "unat w \<le> length buf" "unat (ofs + w) = unat ofs + unat w"
      using w3(2) buf small by (simp_all add: word_le_nat_alt unat_add_no_wrap)
    note fin = grow_size_written [OF ok(1) n1 w13 wl]
    let ?fs' = "grow_size n (ofs + w) fs3"
    have "ramfs_write n ofs sz buf fs = Inr (w, ?fs')" using b n(2) st(3) w3(1) by (simp add: ramfs_write_def Let_def)
    moreover have "disk_full ?fs' = disk_full fs3" by (simp add: disk_full_def grow_size_def)
    moreover have "written n ofs w buf fs ?fs'" by (rule written_same_files [OF ok(3) n(1) fin(4)])
    moreover have "\<forall>m. live fs m \<and> m \<noteq> n \<longrightarrow> file_bytes ?fs' m = file_bytes fs m" using fin(3) same by simp
    ultimately show ?thesis using fin(1,2) same(1) w3(2,3) unfolding ramfs_inv_def by auto
  qed
qed

text \<open>
  C9: a file is a list of bytes.  Reading returns the requested slice, cut at the end of the
  file.  Writing stores the bytes at their position, lengthens the file when they go beyond its
  end, and changes no other file; it stores fewer bytes only when no block is free, and returns
  -1 when not even the starting position can be reached.  The blocks of different files stay
  disjoint.
\<close>

theorem ramfs_refines_bytes:
  assumes "ramfs_inv fs" "live fs n" "fs_type (fs_nodes fs ! n) = 1"
    and "length buf = unat sz" "unat ofs + unat sz < 4294967296"
  shows "ramfs_read n ofs sz fs =
      Inr (of_nat (length (take (unat sz) (drop (unat ofs) (file_bytes fs n)))), take (unat sz) (drop (unat ofs) (file_bytes fs n))) \<and>
    (\<exists>w fs'. ramfs_write n ofs sz buf fs = Inr (w, fs') \<and> ramfs_inv fs' \<and> live fs' = live fs \<and>
      (\<forall>m. live fs m \<and> m \<noteq> n \<longrightarrow> file_bytes fs' m = file_bytes fs m) \<and>
      (w = - 1 \<and> disk_full fs' \<and> file_bytes fs' n = file_bytes fs n \<or>
       w \<le> sz \<and> (w = sz \<or> disk_full fs') \<and> written n ofs w buf fs fs'))"
proof -
  obtain ch where o: "owns fs ch" using assms(1) unfolding ramfs_inv_def by blast
  show ?thesis using ramfs_read_bytes [OF o assms(2,3,5)] ramfs_write_bytes [OF o assms(2-5)] by simp
qed

text \<open>A file system with an empty root directory and one empty file.\<close>

definition ramfs_zero :: ramfs_t where
  "ramfs_zero = \<lparr>fs_nodes = replicate 64 \<lparr>fs_name = [], fs_type = 0, fs_size = 0, permissions = 0, first_block = 0,
       created_time = 0, modified_time = 0, inode_num = 0\<rparr>,
     fs_blocks = replicate 1024 \<lparr>fs_data = replicate 512 0, next_block = 0\<rparr>,
     free_blocks = replicate 32 0, next_inode = 0, fs_root = None\<rparr>"

definition one_file :: ramfs_t where
  "one_file = upd_node 3 (\<lambda>n. n\<lparr>fs_type := 1, first_block := - 1, inode_num := 7\<rparr>) ramfs_zero"

lemma one_file_inv: "ramfs_inv one_file" "live one_file 3" "fs_type (fs_nodes one_file ! 3) = 1" "file_bytes one_file 3 = []"
    "\<not> disk_full one_file"
proof -
  have n: "3 < length (fs_nodes ramfs_zero)" by (simp add: ramfs_zero_def)
  note nodes = nth_upd_node [OF n]
  have lv: "live one_file m \<longleftrightarrow> m = 3" for m by (auto simp: live_def one_file_def nodes) (simp add: ramfs_zero_def)
  have three: "first_block (fs_nodes one_file ! 3) = - 1" "fs_size (fs_nodes one_file ! 3) = 0"
    by (simp_all add: one_file_def nodes) (simp add: ramfs_zero_def)
  have rest: "full_blocks (fs_blocks one_file)" "length (fs_nodes one_file) = 64" "length (free_blocks one_file) = 32"
    by (simp_all add: one_file_def upd_node_def ramfs_zero_def full_blocks_def)
  have "owns one_file (\<lambda>_. [])" by (rule ownsI, unfold lv) (simp_all add: three rest)
  then show "ramfs_inv one_file" unfolding ramfs_inv_def by blast
  show "live one_file 3" by (simp add: lv)
  show "fs_type (fs_nodes one_file ! 3) = 1" "file_bytes one_file 3 = []"
    by (simp_all add: one_file_def nodes file_bytes_def) (simp add: ramfs_zero_def)
  have "\<not> block_used one_file 0" by (simp add: one_file_def block_used_def) (simp add: ramfs_zero_def)
  then show "\<not> disk_full one_file" unfolding disk_full_def by force
qed

theorem ramfs_refines_bytes_witness:
  "\<exists>w fs'. ramfs_write 3 0 2 [72, 105] one_file = Inr (w, fs') \<and>
    (w = - 1 \<or> w \<le> 2 \<and> file_bytes fs' 3 = take (unat w) [72, 105])"
  using ramfs_refines_bytes [OF one_file_inv(1-3), of "[72, 105]" 2 0]
  by (auto simp: written_def one_file_inv(4) store_bytes_def)

end
