(* ===== verification/Ramfs_Dirs.thy ===== *)
theory Ramfs_Dirs
  imports Ramfs_Files
begin

text \<open>
  Directories of the RAM file system (\<open>src/src/fs/fs.c\<close>) as tables of names: the byte layout of
  an entry, and what \<open>ramfs_finddir\<close> finds after \<open>ramfs_create_file\<close>.
\<close>

section \<open>Entries in the bytes of a block\<close>

lemma nth_store_bytes:
  "k + length xs \<le> length c \<Longrightarrow> i < length c \<Longrightarrow>
     store_bytes k xs c ! i = (if k \<le> i \<and> i < k + length xs then xs ! (i - k) else c ! i)"
  by (auto simp: store_bytes_def nth_append)

lemma le32_bytes32: "le32 (bytes32 w) = w"
proof (rule bit_eqI)
  fix n
  assume "possible_bit TYPE(u32) n"
  then have "n < 8 \<or> 8 \<le> n \<and> n < 16 \<or> 16 \<le> n \<and> n < 24 \<or> 24 \<le> n \<and> n < 32" by (auto simp: possible_bit_def)
  then show "bit (le32 (bytes32 w)) n = bit w n"
    by (elim disjE conjE) (auto simp: le32_def bytes32_def bit_simps)
qed

lemma entry_inode_nth:
  assumes "length data = 512" "j < 14"
  shows "entry_inode data j = le32 (map (\<lambda>x. data ! (36 * j + x)) [32, 33, 34, 35])"
  using assms by (simp add: entry_inode_def le32_def add.commute)

lemma takeWhile_prefix:
  "length (takeWhile P xs) < n \<Longrightarrow> n \<le> length xs \<Longrightarrow> take n ys = take n xs \<Longrightarrow> takeWhile P ys = takeWhile P xs"
proof (induction xs arbitrary: n ys)
  case (Cons x xs)
  then obtain m where n: "n = Suc m" by (cases n) auto
  then obtain y ys' where "ys = y # ys'" "y = x" "take m ys' = take m xs" using Cons.prems by (cases ys) auto
  then show ?case using Cons.IH [of m ys'] Cons.prems n by (auto split: if_splits)
qed simp

lemma entry_name_cong:
  assumes "length data = 512" "length data' = 512" "j < 14" "length (entry_name data j) < 32"
    and "\<And>x. x < 32 \<Longrightarrow> data' ! (36 * j + x) = data ! (36 * j + x)"
  shows "entry_name data' j = entry_name data j"
  unfolding entry_name_def c_string_def
proof (rule takeWhile_prefix)
  show "length (takeWhile (\<lambda>c. c \<noteq> 0) (drop (36 * j) data)) < 32" using assms(4) by (simp add: entry_name_def c_string_def)
  show "32 \<le> length (drop (36 * j) data)" using assms(1,3) by simp
  show "take 32 (drop (36 * j) data') = take 32 (drop (36 * j) data)"
    using assms by (intro nth_equalityI) auto
qed

definition store_entry :: "nat \<Rightarrow> u8 list \<Rightarrow> u32 \<Rightarrow> u8 list \<Rightarrow> u8 list" where
  "store_entry k name inode data = store_bytes (36 * k + 32) (bytes32 inode) (store_bytes (36 * k) (name @ [0]) data)"

lemma store_entry_nth:
  assumes "length data = 512" "k < 14" "fits_name name"
  shows "length (store_entry k name inode data) = 512"
    "x < 512 \<Longrightarrow> store_entry k name inode data ! x =
      (if 36 * k + 32 \<le> x \<and> x < 36 * k + 36 then bytes32 inode ! (x - (36 * k + 32))
       else if 36 * k \<le> x \<and> x < 36 * k + length name + 1 then (name @ [0]) ! (x - 36 * k) else data ! x)"
proof -
  have l: "length (bytes32 inode) = 4" "length name < 32" using assms(3) by (simp_all add: bytes32_def fits_name_def)
  then have s: "length (store_bytes (36 * k) (name @ [0]) data) = 512" using assms by (simp add: length_store_bytes)
  then show "length (store_entry k name inode data) = 512" using assms l by (simp add: store_entry_def length_store_bytes)
  show "x < 512 \<Longrightarrow> store_entry k name inode data ! x =
      (if 36 * k + 32 \<le> x \<and> x < 36 * k + 36 then bytes32 inode ! (x - (36 * k + 32))
       else if 36 * k \<le> x \<and> x < 36 * k + length name + 1 then (name @ [0]) ! (x - 36 * k) else data ! x)"
    using assms l s by (simp add: store_entry_def nth_store_bytes)
qed

lemma store_entry_same:
  assumes "length data = 512" "k < 14" "fits_name name" "0 \<notin> set name"
  shows "entry_inode (store_entry k name inode data) k = inode" "entry_name (store_entry k name inode data) k = name"
proof -
  let ?d = "store_entry k name inode data"
  note nth = store_entry_nth [OF assms(1-3), where inode = inode]
  have "map (\<lambda>x. ?d ! (36 * k + x)) [32, 33, 34, 35] = bytes32 inode"
    using assms(2) nth(2) [of "36 * k + 32"] nth(2) [of "36 * k + 33"] nth(2) [of "36 * k + 34"] nth(2) [of "36 * k + 35"]
    by (simp add: bytes32_def)
  then show "entry_inode ?d k = inode" using entry_inode_nth [OF nth(1) assms(2)] by (simp only: le32_bytes32)
  have "drop (36 * k) ?d = name @ 0 # drop (36 * k + length name + 1) ?d"
    using assms nth by (intro nth_equalityI) (auto simp: nth_append fits_name_def nth_Cons' )
  moreover have "takeWhile (\<lambda>c. c \<noteq> 0) (name @ 0 # rest) = name" for rest
    using assms(4) by (subst takeWhile_append2) auto
  ultimately show "entry_name ?d k = name" by (simp add: entry_name_def c_string_def)
qed

lemma store_entry_other:
  assumes "length data = 512" "k < 14" "fits_name name" "j < 14" "j \<noteq> k"
  shows "entry_inode (store_entry k name inode data) j = entry_inode data j"
    "length (entry_name data j) < 32 \<Longrightarrow> entry_name (store_entry k name inode data) j = entry_name data j"
proof -
  let ?d = "store_entry k name inode data"
  note nth = store_entry_nth [OF assms(1-3), where inode = inode]
  have same: "?d ! (36 * j + x) = data ! (36 * j + x)" if "x < 36" for x
  proof -
    have "36 * j + x < 36 * k \<or> 36 * k + 36 \<le> 36 * j + x" using assms(5) that by linarith
    then show ?thesis using nth(2) [of "36 * j + x"] assms that by (auto simp: fits_name_def)
  qed
  have "map (\<lambda>x. ?d ! (36 * j + x)) [32, 33, 34, 35] = map (\<lambda>x. data ! (36 * j + x)) [32, 33, 34, 35]"
    using same [of 32] same [of 33] same [of 34] same [of 35] by simp
  then show "entry_inode ?d j = entry_inode data j"
    using entry_inode_nth [OF nth(1) assms(4)] entry_inode_nth [OF assms(1,4)] by simp
  show "length (entry_name data j) < 32 \<Longrightarrow> entry_name ?d j = entry_name data j"
    by (rule entry_name_cong [OF assms(1) nth(1) assms(4)]) (simp_all add: same)
qed

section \<open>Looking up names\<close>

abbreviation (input) dir_data :: "ramfs_t \<Rightarrow> nat \<Rightarrow> u8 list" where
  "dir_data fs p \<equiv> fs_data (fs_blocks fs ! unat (first_block (fs_nodes fs ! p)))"

definition node_of :: "ramfs_t \<Rightarrow> u32 \<Rightarrow> nat option" where
  "node_of fs e = find (\<lambda>j. inode_num (fs_nodes fs ! j) = e) [0..<64]"

definition dir_inv :: "ramfs_t \<Rightarrow> nat \<Rightarrow> bool" where
  "dir_inv fs p \<longleftrightarrow> live fs p \<and> fs_type (fs_nodes fs ! p) = 2 \<and> unat (first_block (fs_nodes fs ! p)) < 1024 \<and>
     full_blocks (fs_blocks fs) \<and> length (fs_nodes fs) = 64 \<and> (\<forall>m < 64. inode_num (fs_nodes fs ! m) < next_inode fs) \<and>
     (\<forall>j < 14. entry_inode (dir_data fs p) j \<noteq> 0 \<longrightarrow>
        entry_inode (dir_data fs p) j < next_inode fs \<and> length (entry_name (dir_data fs p) j) < 32)"

lemma dir_inv_block:
  assumes "dir_inv fs p"
  shows "first_block (fs_nodes fs ! p) \<noteq> - 1" "get_block fs (first_block (fs_nodes fs ! p)) = Inr (fs_blocks fs ! unat (first_block (fs_nodes fs ! p)))"
    "length (dir_data fs p) = 512" "length (fs_blocks fs) = 1024"
proof -
  show "length (fs_blocks fs) = 1024" "length (dir_data fs p) = 512" using assms by (auto simp: dir_inv_def full_blocks_nth)
  then show "get_block fs (first_block (fs_nodes fs ! p)) = Inr (fs_blocks fs ! unat (first_block (fs_nodes fs ! p)))"
    using assms by (simp add: dir_inv_def get_block_def)
  show "first_block (fs_nodes fs ! p) \<noteq> - 1"
  proof
    assume "first_block (fs_nodes fs ! p) = - 1"
    then show False using assms by (simp add: dir_inv_def unsigned_minus_1_eq_mask mask_eq_exp_minus_1)
  qed
qed

lemma ramfs_finddir_eq:
  "dir_inv fs p \<Longrightarrow> ramfs_finddir p name fs = Inr (finddir_scan fs (dir_data fs p) name [0..<14])"
  using dir_inv_block [of fs p] by (simp add: ramfs_finddir_def dir_inv_def)

lemma finddir_scan_Cons:
  "finddir_scan fs data name (i # is) =
     (if entry_inode data i \<noteq> 0 \<and> entry_name data i = name \<and> node_of fs (entry_inode data i) \<noteq> None
      then node_of fs (entry_inode data i) else finddir_scan fs data name is)"
  by (auto simp: node_of_def split: option.split)

declare finddir_scan.simps(2) [simp del]

lemma finddir_scan_cong:
  assumes "\<And>j. j \<in> set is \<Longrightarrow> entry_inode data' j = entry_inode data j \<and>
      (entry_inode data j \<noteq> 0 \<longrightarrow> entry_name data' j = entry_name data j \<and> node_of fs' (entry_inode data j) = node_of fs (entry_inode data j)) \<or>
      (entry_inode data j = 0 \<or> entry_name data j \<noteq> name) \<and> (entry_inode data' j = 0 \<or> entry_name data' j \<noteq> name)"
  shows "finddir_scan fs' data' name is = finddir_scan fs data name is"
  using assms
proof (induction "is")
  case (Cons i "is")
  have tl: "finddir_scan fs' data' name is = finddir_scan fs data name is" using Cons by simp
  show ?case using Cons.prems [of i, OF list.set_intros(1)] unfolding finddir_scan_Cons tl
    by (cases "entry_inode data i = 0"; cases "entry_inode data' i = 0") auto
qed simp

lemma finddir_scan_absent:
  "(\<And>j. j \<in> set is \<Longrightarrow> entry_inode data j = 0 \<or> entry_name data j \<noteq> name) \<Longrightarrow> finddir_scan fs data name is = None"
  by (induction "is") (auto simp: finddir_scan_Cons)

lemma finddir_scan_only:
  "k \<in> set is \<Longrightarrow> (\<And>j. j \<in> set is \<Longrightarrow> j \<noteq> k \<Longrightarrow> entry_inode data j = 0 \<or> entry_name data j \<noteq> name) \<Longrightarrow>
     entry_inode data k \<noteq> 0 \<Longrightarrow> entry_name data k = name \<Longrightarrow> node_of fs (entry_inode data k) = Some i \<Longrightarrow>
     finddir_scan fs data name is = Some i"
proof (induction "is")
  case (Cons j "is")
  show ?case
  proof (cases "j = k")
    case True
    then show ?thesis using Cons.prems by (simp add: finddir_scan_Cons)
  next
    case False
    then have "finddir_scan fs data name is = Some i" using Cons by auto
    moreover have "entry_inode data j = 0 \<or> entry_name data j \<noteq> name" using Cons.prems(2) False by simp
    ultimately show ?thesis by (auto simp: finddir_scan_Cons)
  qed
qed simp

section \<open>Creating a file\<close>

lemma node_of_new:
  assumes "free_node fs = Some i" "length (fs_nodes fs) = 64" "e \<noteq> 0" "\<forall>m < 64. inode_num (fs_nodes fs ! m) < next"
    and nodes: "\<And>m. m < 64 \<Longrightarrow> inode_num (fs_nodes fs' ! m) = (if m = i then next else inode_num (fs_nodes fs ! m))"
  shows "node_of fs' next = Some i" "e < next \<Longrightarrow> node_of fs' e = node_of fs e"
proof -
  have i: "i < 64" "inode_num (fs_nodes fs ! i) = 0" using assms(1) by (auto simp: free_node_def find_upt_Some)
  have "inode_num (fs_nodes fs ! j) \<noteq> next" if "j < 64" for j using assms(4) that by auto
  then show "node_of fs' next = Some i" unfolding node_of_def find_upt_Some using i nodes by auto
  assume "e < next"
  then have "inode_num (fs_nodes fs' ! m) = e \<longleftrightarrow> inode_num (fs_nodes fs ! m) = e" if "m < 64" for m
    using nodes [OF that] i assms(3) by auto
  then show "node_of fs' e = node_of fs e" unfolding node_of_def by (intro find_cong) auto
qed

definition new_node :: "nat \<Rightarrow> u8 list \<Rightarrow> ramfs_t \<Rightarrow> ramfs_t" where
  "new_node i name fs = upd_node i (\<lambda>n. n\<lparr>fs_name := name, fs_type := 1, fs_size := 0,
     permissions := 4 OR 2, first_block := - 1, inode_num := next_inode fs\<rparr>) (fs\<lparr>next_inode := next_inode fs + 1\<rparr>)"

lemma add_entry_cases:
  assumes "dir_inv fs p" "fits_name name" "fs_nodes fs' ! p = fs_nodes fs ! p" "fs_blocks fs' = fs_blocks fs"
  shows "add_entry p name inode fs' =
    (case find (\<lambda>i. entry_inode (dir_data fs p) i = 0) [0..<14] of
       None \<Rightarrow> Inr fs'
     | Some k \<Rightarrow> Inr (upd_node p (\<lambda>n. n\<lparr>fs_size := fs_size n + 1\<rparr>)
         (upd_block (unat (first_block (fs_nodes fs ! p))) (\<lambda>b. b\<lparr>fs_data := store_entry k name inode (fs_data b)\<rparr>) fs')))"
proof -
  have "get_block fs' (first_block (fs_nodes fs ! p)) = Inr (fs_blocks fs ! unat (first_block (fs_nodes fs ! p)))"
    using assms(1,4) dir_inv_block(4) [OF assms(1)] by (simp add: get_block_def dir_inv_def)
  then show ?thesis using dir_inv_block(1) [OF assms(1)] assms(2-)
    by (simp add: add_entry_def Let_def store_entry_def split: option.split)
qed

lemma less_next: "(n :: u32) < - 1 \<Longrightarrow> x \<le> n \<Longrightarrow> x < n + 1"
proof -
  assume "n < - 1" "x \<le> n"
  then have "unat n < 4294967295" by (simp add: word_less_nat_alt unsigned_minus_1_eq_mask mask_eq_exp_minus_1)
  then have "unat (n + 1) = unat n + 1" by (subst unat_add_no_wrap) simp_all
  then show ?thesis using \<open>x \<le> n\<close> by (simp add: word_less_nat_alt word_le_nat_alt)
qed

text \<open>The file system after a creation, as far as lookups in directory \<open>p\<close> see it.\<close>

definition created :: "ramfs_t \<Rightarrow> nat \<Rightarrow> nat \<Rightarrow> ramfs_t \<Rightarrow> bool" where
  "created fs p i fs' \<longleftrightarrow> length (fs_nodes fs') = 64 \<and> full_blocks (fs_blocks fs') \<and> next_inode fs' = next_inode fs + 1 \<and>
     (\<forall>m < 64. inode_num (fs_nodes fs' ! m) = (if m = i then next_inode fs else inode_num (fs_nodes fs ! m))) \<and>
     fs_type (fs_nodes fs' ! p) = fs_type (fs_nodes fs ! p) \<and> first_block (fs_nodes fs' ! p) = first_block (fs_nodes fs ! p)"

lemma created_dir_inv:
  assumes d: "dir_inv fs p" and i: "free_node fs = Some i" and n: "next_inode fs < - 1" and c: "created fs p i fs'"
    and e: "\<And>j. j < 14 \<Longrightarrow> entry_inode (dir_data fs' p) j \<noteq> 0 \<Longrightarrow> entry_inode (dir_data fs' p) j = next_inode fs \<and>
        length (entry_name (dir_data fs' p) j) < 32 \<or>
      entry_inode (dir_data fs' p) j = entry_inode (dir_data fs p) j \<and> entry_name (dir_data fs' p) j = entry_name (dir_data fs p) j"
  shows "dir_inv fs' p"
proof -
  have i': "i < 64" "inode_num (fs_nodes fs ! i) = 0" using i by (auto simp: free_node_def find_upt_Some)
  have p: "p < 64" "inode_num (fs_nodes fs ! p) \<noteq> 0" "p \<noteq> i" using d i' by (auto simp: dir_inv_def live_def)
  have lt: "x < next_inode fs + 1" if "x < next_inode fs \<or> x = next_inode fs" for x
    using less_next [OF n, of x] that by auto
  have "inode_num (fs_nodes fs' ! m) < next_inode fs'" if "m < 64" for m
    using c d that lt unfolding created_def dir_inv_def by auto
  moreover have "entry_inode (dir_data fs' p) j < next_inode fs' \<and> length (entry_name (dir_data fs' p) j) < 32"
    if "j < 14" "entry_inode (dir_data fs' p) j \<noteq> 0" for j
    using e [OF that] that d c lt unfolding created_def dir_inv_def by auto
  ultimately show ?thesis using c d p unfolding created_def dir_inv_def live_def by simp
qed

lemma created_node_of:
  assumes "dir_inv fs p" "free_node fs = Some i" "created fs p i fs'"
  shows "node_of fs' (next_inode fs) = Some i"
    "j < 14 \<Longrightarrow> entry_inode (dir_data fs p) j \<noteq> 0 \<Longrightarrow> node_of fs' (entry_inode (dir_data fs p) j) = node_of fs (entry_inode (dir_data fs p) j)"
proof -
  note facts = assms(1,3) [unfolded created_def dir_inv_def]
  show "node_of fs' (next_inode fs) = Some i" by (rule node_of_new(1) [OF assms(2), of 1]) (use facts in auto)
  show "j < 14 \<Longrightarrow> entry_inode (dir_data fs p) j \<noteq> 0 \<Longrightarrow> node_of fs' (entry_inode (dir_data fs p) j) = node_of fs (entry_inode (dir_data fs p) j)"
    by (rule node_of_new(2) [OF assms(2), of _ "next_inode fs"]) (use facts in auto)
qed

lemma create_full:
  assumes d: "dir_inv fs p" and i: "free_node fs = Some i" and name: "fits_name name"
    and fresh: "\<forall>j < 14. entry_inode (dir_data fs p) j \<noteq> 0 \<longrightarrow> entry_name (dir_data fs p) j \<noteq> name"
    and n: "next_inode fs < - 1" and c: "created fs p i fs'" and bl: "fs_blocks fs' = fs_blocks fs"
  shows "dir_inv fs' p \<and> ramfs_finddir p name fs' = Inr None \<and> (\<forall>other. other \<noteq> name \<longrightarrow> ramfs_finddir p other fs' = ramfs_finddir p other fs)"
proof -
  have data: "dir_data fs' p = dir_data fs p" using c bl by (simp add: created_def)
  have d': "dir_inv fs' p" by (rule created_dir_inv [OF d i n c]) (simp add: data)
  have "finddir_scan fs' (dir_data fs p) name [0..<14] = None" by (rule finddir_scan_absent) (use fresh in auto)
  moreover have "finddir_scan fs' (dir_data fs p) other [0..<14] = finddir_scan fs (dir_data fs p) other [0..<14]" for other
    by (rule finddir_scan_cong) (use created_node_of(2) [OF d i c] in auto)
  ultimately show ?thesis using d' ramfs_finddir_eq [OF d] ramfs_finddir_eq [OF d'] data by simp
qed

lemma create_entry:
  assumes d: "dir_inv fs p" and i: "free_node fs = Some i" and name: "fits_name name" "0 \<notin> set name"
    and fresh: "\<forall>j < 14. entry_inode (dir_data fs p) j \<noteq> 0 \<longrightarrow> entry_name (dir_data fs p) j \<noteq> name"
    and n: "next_inode fs < - 1" and c: "created fs p i fs'"
    and k: "k < 14" "entry_inode (dir_data fs p) k = 0" and data: "dir_data fs' p = store_entry k name (next_inode fs) (dir_data fs p)"
  shows "dir_inv fs' p \<and> ramfs_finddir p name fs' = Inr (Some i) \<and> (\<forall>other. other \<noteq> name \<longrightarrow> ramfs_finddir p other fs' = ramfs_finddir p other fs)"
proof -
  have len: "length (dir_data fs p) = 512" by (rule dir_inv_block(3) [OF d])
  note same = store_entry_same [OF len k(1) name, of "next_inode fs", folded data]
  note other = store_entry_other [OF len k(1) name(1), of _ "next_inode fs", folded data]
  have short: "length (entry_name (dir_data fs p) j) < 32" if "j < 14" "entry_inode (dir_data fs p) j \<noteq> 0" for j
    using d that by (simp add: dir_inv_def)
  have d': "dir_inv fs' p"
  proof (rule created_dir_inv [OF d i n c])
    fix j assume "j < 14" "entry_inode (dir_data fs' p) j \<noteq> 0"
    then show "entry_inode (dir_data fs' p) j = next_inode fs \<and> length (entry_name (dir_data fs' p) j) < 32 \<or>
      entry_inode (dir_data fs' p) j = entry_inode (dir_data fs p) j \<and> entry_name (dir_data fs' p) j = entry_name (dir_data fs p) j"
      using same other [of j] short [of j] name(1) by (cases "j = k") (simp_all add: fits_name_def)
  qed
  have "next_inode fs \<noteq> 0" using d by (auto simp: dir_inv_def live_def)
  then have "finddir_scan fs' (dir_data fs' p) name [0..<14] = Some i"
    using same created_node_of(1) [OF d i c] other(1) other(2) short fresh k(1) by (intro finddir_scan_only [of k]) auto
  moreover have "finddir_scan fs' (dir_data fs' p) x [0..<14] = finddir_scan fs (dir_data fs p) x [0..<14]" if "x \<noteq> name" for x
  proof (rule finddir_scan_cong)
    fix j assume "j \<in> set [0..<14]"
    then show "entry_inode (dir_data fs' p) j = entry_inode (dir_data fs p) j \<and>
      (entry_inode (dir_data fs p) j \<noteq> 0 \<longrightarrow> entry_name (dir_data fs' p) j = entry_name (dir_data fs p) j \<and>
        node_of fs' (entry_inode (dir_data fs p) j) = node_of fs (entry_inode (dir_data fs p) j)) \<or>
      (entry_inode (dir_data fs p) j = 0 \<or> entry_name (dir_data fs p) j \<noteq> x) \<and> (entry_inode (dir_data fs' p) j = 0 \<or> entry_name (dir_data fs' p) j \<noteq> x)"
      using same other [of j] short [of j] that k created_node_of(2) [OF d i c, of j] by (cases "j = k") simp_all
  qed
  ultimately show ?thesis using d' ramfs_finddir_eq [OF d] ramfs_finddir_eq [OF d'] by simp
qed

text \<open>
  C27: a created file is found under its name.  Creating a file takes the first free node and, when
  the directory has a free entry, a lookup of the name returns that node; all other names are
  found, or not found, as before.  When the 14 entries of the directory are in use, the file is
  created but no lookup finds it.
\<close>

theorem create_then_find:
  assumes "dir_inv fs p" "free_node fs = Some i" "fits_name name" "0 \<notin> set name"
    and "\<forall>j < 14. entry_inode (dir_data fs p) j \<noteq> 0 \<longrightarrow> entry_name (dir_data fs p) j \<noteq> name"
    and "next_inode fs < - 1"
  shows "\<exists>fs'. ramfs_create_file p name fs = Inr (Some i, fs') \<and> dir_inv fs' p \<and>
    ramfs_finddir p name fs' = Inr (if \<exists>k < 14. entry_inode (dir_data fs p) k = 0 then Some i else None) \<and>
    (\<forall>other. other \<noteq> name \<longrightarrow> ramfs_finddir p other fs' = ramfs_finddir p other fs)"
proof -
  let ?fs1 = "new_node i name fs"
  have i: "i < 64" "p \<noteq> i" using assms(1,2) by (auto simp: free_node_def find_upt_Some dir_inv_def live_def)
  have len: "length (fs_nodes fs) = 64" using assms(1) by (simp add: dir_inv_def)
  have p: "fs_nodes ?fs1 ! p = fs_nodes fs ! p" "fs_blocks ?fs1 = fs_blocks fs" using i len by (simp_all add: new_node_def upd_node_def)
  have make: "ramfs_create_file p name fs = bind_res (add_entry p name (next_inode fs) ?fs1) (\<lambda>fs2. Inr (Some i, fs2))"
    using assms(1-3) by (simp add: ramfs_create_file_def dir_inv_def Let_def new_node_def)
  note add = add_entry_cases [OF assms(1,3) p]
  show ?thesis
  proof (cases "find (\<lambda>i. entry_inode (dir_data fs p) i = 0) [0..<14]")
    case None
    then have "created fs p i ?fs1" and no: "\<not> (\<exists>k < 14. entry_inode (dir_data fs p) k = 0)"
      using assms(1) i len by (auto simp: created_def new_node_def upd_node_def dir_inv_def nth_list_update find_upt_None)
    then show ?thesis using create_full [OF assms(1-3,5,6) _ p(2)] make add None by simp
  next
    case (Some k)
    let ?b = "unat (first_block (fs_nodes fs ! p))"
    let ?fs' = "upd_node p (\<lambda>n. n\<lparr>fs_size := fs_size n + 1\<rparr>) (upd_block ?b (\<lambda>b. b\<lparr>fs_data := store_entry k name (next_inode fs) (fs_data b)\<rparr>) ?fs1)"
    have k: "k < 14" "entry_inode (dir_data fs p) k = 0" using Some by (auto simp: find_upt_Some)
    note blk = dir_inv_block [OF assms(1)]
    have b: "?b < 1024" and full: "full_blocks (fs_blocks fs)" using assms(1) by (auto simp: dir_inv_def)
    have nodes: "fs_nodes ?fs' ! m = (if m = p then (fs_nodes fs ! p)\<lparr>fs_size := fs_size (fs_nodes fs ! p) + 1\<rparr> else fs_nodes ?fs1 ! m)" for m
      using i len p assms(1) by (simp add: upd_node_def upd_block_def dir_inv_def live_def new_node_def)
    have bl: "fs_blocks ?fs' = (fs_blocks fs)[?b := (fs_blocks fs ! ?b)\<lparr>fs_data := store_entry k name (next_inode fs) (dir_data fs p)\<rparr>]"
      using p(2) by (simp add: upd_node_def upd_block_def)
    then have data: "dir_data ?fs' p = store_entry k name (next_inode fs) (dir_data fs p)" using b blk(4) by (simp add: nodes)
    have "full_blocks (fs_blocks ?fs')"
      using full b store_entry_nth(1) [OF blk(3) k(1) assms(3)] unfolding bl by (simp add: full_blocks_nth nth_list_update)
    moreover have "inode_num (fs_nodes ?fs' ! m) = (if m = i then next_inode fs else inode_num (fs_nodes fs ! m))" if "m < 64" for m
      using that i len unfolding nodes by (simp add: new_node_def upd_node_def)
    moreover have "next_inode ?fs' = next_inode fs + 1" "length (fs_nodes ?fs') = 64" using len by (simp_all add: upd_node_def upd_block_def new_node_def)
    ultimately have "created fs p i ?fs'" unfolding created_def by (simp add: nodes)
    from create_entry [OF assms this k data] show ?thesis using make add Some k by auto
  qed
qed

definition one_dir :: ramfs_t where
  "one_dir = (upd_node 0 (\<lambda>n. n\<lparr>fs_type := 2, inode_num := 1\<rparr>) ramfs_zero)\<lparr>next_inode := 2\<rparr>"

theorem create_then_find_witness:
  "\<exists>fs'. ramfs_create_file 0 [97] one_dir = Inr (Some 1, fs') \<and> ramfs_finddir 0 [97] fs' = Inr (Some 1) \<and> ramfs_finddir 0 [98] fs' = Inr None"
proof -
  have nodes: "fs_nodes one_dir ! m = (if m = 0 then (fs_nodes ramfs_zero ! 0)\<lparr>fs_type := 2, inode_num := 1\<rparr> else fs_nodes ramfs_zero ! m)" for m
    by (simp add: one_dir_def upd_node_def ramfs_zero_def)
  have zero: "inode_num (fs_nodes ramfs_zero ! m) = 0" if "m < 64" for m using that by (simp add: ramfs_zero_def)
  have first: "first_block (fs_nodes one_dir ! 0) = 0" by (simp add: nodes ramfs_zero_def)
  have data: "fs_data (fs_blocks one_dir ! 0) = replicate 512 0" by (simp add: one_dir_def upd_node_def ramfs_zero_def)
  have entry: "entry_inode (replicate 512 0) j = 0" if "j < 14" for j
    using that by (simp add: entry_inode_nth le32_def)
  have rest: "full_blocks (fs_blocks one_dir)" "length (fs_nodes one_dir) = 64" "next_inode one_dir = 2"
    by (simp_all add: one_dir_def upd_node_def ramfs_zero_def full_blocks_def)
  have d: "dir_inv one_dir 0" unfolding dir_inv_def live_def first unat_0 data
    by (auto simp: nodes zero rest entry)
  have free: "free_node one_dir = Some 1" by (auto simp: free_node_def find_upt_Some nodes zero)
  have absent: "ramfs_finddir 0 [98] one_dir = Inr None" unfolding ramfs_finddir_eq [OF d] first unat_0 data
    using finddir_scan_absent [of "[0..<14]" "replicate 512 0" "[98]" one_dir] entry by auto
  have "\<exists>k < 14. entry_inode (replicate 512 0) k = 0" using entry [of 0] by (intro exI [of _ 0]) simp
  then show ?thesis using create_then_find [OF d free, of "[97]"] absent unfolding first unat_0 data
    by (auto simp: fits_name_def entry rest)
qed

end
