(* ===== verification/Fd_Calls.thy ===== *)
theory Fd_Calls
  imports Keyboard Ramfs_Dirs
begin

text \<open>
  The system calls on file descriptors (\<open>src/src/kernel/syscall.c\<close>).  A call gets the address
  translation in force for the calling process as the parameter \<open>va_pa\<close>; a page fault during the
  access of a user buffer is not modelled.  Pipes, descriptor tables and control blocks are heap
  objects kept apart from the bytes of memory.  A loop that waits for something that never
  happens is the fault \<open>Spin\<close>.
\<close>

section \<open>State and user memory\<close>

record ksys = kdev +
  ramfs :: ramfs_t
  nodes_base :: u64

text \<open>\<open>&ramfs.nodes[i]\<close>; a node takes 60 bytes.\<close>

definition node_ptr :: "nat \<Rightarrow> 'a ksys_scheme \<Rightarrow> u64" where
  "node_ptr i s = nodes_base s + 60 * of_nat i"

definition node_index :: "u64 \<Rightarrow> 'a ksys_scheme \<Rightarrow> nat" where
  "node_index p s = unat (p - nodes_base s) div 60"

definition user_bytes :: "(u64 \<Rightarrow> u64) \<Rightarrow> u64 \<Rightarrow> nat \<Rightarrow> 'a ksys_scheme \<Rightarrow> u8 list" where
  "user_bytes va_pa ptr n s = map (\<lambda>i. phys_mem s (va_pa (ptr + of_nat i))) [0..<n]"

definition put_user :: "(u64 \<Rightarrow> u64) \<Rightarrow> u64 \<Rightarrow> u8 list \<Rightarrow> 'a ksys_scheme \<Rightarrow> 'a ksys_scheme" where
  "put_user va_pa ptr bs s =
     s\<lparr>phys_mem := fold (\<lambda>i m. m(va_pa (ptr + of_nat i) := bs ! i)) [0..<length bs] (phys_mem s)\<rparr>"

text \<open>A string in user memory, up to its 0 byte.\<close>

partial_function (option) string_at :: "(u64 \<Rightarrow> u8) \<Rightarrow> u64 \<Rightarrow> u8 list option" where
  "string_at m p = (if m p = 0 then Some [] else Option.bind (string_at m (p + 1)) (\<lambda>cs. Some (m p # cs)))"

definition user_string :: "(u64 \<Rightarrow> u64) \<Rightarrow> u64 \<Rightarrow> 'a ksys_scheme \<Rightarrow> u8 list res" where
  "user_string va_pa ptr s = returns (string_at (\<lambda>a. phys_mem s (va_pa a)) ptr)"

definition skip_slash :: "u8 list \<Rightarrow> u8 list" where
  "skip_slash path = (if path \<noteq> [] \<and> hd path = 47 then tl path else path)"

section \<open>Descriptor tables\<close>

definition get_fd_table :: "'a ksys_scheme \<Rightarrow> u64" where
  "get_fd_table s =
     (let current = process_get_current s
      in if current = 0 \<or> fd_table (procs s current) = 0 then 0 else fd_table (procs s current))"

definition fd_of :: "u64 \<Rightarrow> nat \<Rightarrow> 'a ksys_scheme \<Rightarrow> fd_entry_t" where
  "fd_of t i s = fd_tables s t ! i"

definition upd_fd :: "u64 \<Rightarrow> nat \<Rightarrow> (fd_entry_t \<Rightarrow> fd_entry_t) \<Rightarrow> 'a ksys_scheme \<Rightarrow> 'a ksys_scheme" where
  "upd_fd t i f s = s\<lparr>fd_tables := (fd_tables s)(t := (fd_tables s t)[i := f (fd_tables s t ! i)])\<rparr>"

definition fd_free :: "u64 \<Rightarrow> 'a ksys_scheme \<Rightarrow> nat \<Rightarrow> bool" where
  "fd_free t s i \<longleftrightarrow> node (fd_of t i s) = 0 \<and> fpipe (fd_of t i s) = 0"

section \<open>Reading and writing\<close>

definition sys_write :: "(u64 \<Rightarrow> u64) \<Rightarrow> u64 \<Rightarrow> u64 \<Rightarrow> u64 \<Rightarrow> 'a ksys_scheme \<Rightarrow> (u64 \<times> 'a ksys_scheme) res" where
  "sys_write va_pa fd buf_ptr count s =
     (if buf_ptr = 0 \<or> count = 0 then Inr (0, s)
      else if fd = 1 \<or> fd = 2 then
        Inr (count, fold terminal_putchar_log (map (\<lambda>b. char_of (unat b)) (user_bytes va_pa buf_ptr (unat count) s)) s)
      else let t = get_fd_table s; e = fd_of t (unat fd) s
      in if t \<noteq> 0 \<and> fd < 16 then
           if is_pipe e \<and> fpipe e \<noteq> 0 then
             case pipes s (fpipe e) of
               None \<Rightarrow> Inl OutOfBounds
             | Some p \<Rightarrow> bind_res (returns (pipe_write (user_bytes va_pa buf_ptr (unat count) s) p)) (\<lambda>(r, p').
                 Inr (of_int r, s\<lparr>pipes := (pipes s)(fpipe e \<mapsto> p')\<rparr>))
           else if node e \<noteq> 0 then
             bind_res (fs_write (node_index (node e) s) (offset e) (ucast count)
                 (user_bytes va_pa buf_ptr (unat (ucast count :: u32)) s) (ramfs s)) (\<lambda>(written, fs).
               let s1 = s\<lparr>ramfs := fs\<rparr>
               in Inr (scast written,
                    if 0 < sint written then upd_fd t (unat fd) (\<lambda>e. e\<lparr>offset := offset e + written\<rparr>) s1 else s1))
           else Inr (- 1, s)
         else Inr (- 1, s))"

text \<open>
  Reading from the keyboard: \<open>irq k\<close> is what the interrupts during the \<open>k\<close>-th halt do to the
  state.
\<close>

partial_function (option) stdin_loop ::
  "(nat \<Rightarrow> 'a ksys_scheme \<Rightarrow> 'a ksys_scheme) \<Rightarrow> nat \<Rightarrow> nat \<Rightarrow> string \<Rightarrow> 'a ksys_scheme \<Rightarrow> (string \<times> 'a ksys_scheme) option" where
  "stdin_loop irq k count buf s =
     (if length buf < count then
        if keyboard_has_char s then
          (let (c, s1) = keyboard_getchar s
           in if c = CHR 0x0A then Some (buf @ [c], s1) else stdin_loop irq k count (buf @ [c]) s1)
        else stdin_loop irq (k + 1) count buf (irq k s)
      else Some (buf, s))"

definition sys_read ::
  "(nat \<Rightarrow> 'a ksys_scheme \<Rightarrow> 'a ksys_scheme) \<Rightarrow> (u64 \<Rightarrow> u64) \<Rightarrow> u64 \<Rightarrow> u64 \<Rightarrow> u64 \<Rightarrow> 'a ksys_scheme \<Rightarrow> (u64 \<times> 'a ksys_scheme) res" where
  "sys_read irq va_pa fd buf_ptr count s =
     (if buf_ptr = 0 \<or> count = 0 then Inr (0, s)
      else if fd = 0 then
        bind_res (returns (stdin_loop irq 0 (unat count) [] s)) (\<lambda>(buf, s1).
          Inr (of_nat (length buf), put_user va_pa buf_ptr (map of_char buf) s1))
      else let t = get_fd_table s; e = fd_of t (unat fd) s
      in if t \<noteq> 0 \<and> fd < 16 then
           if is_pipe e \<and> fpipe e \<noteq> 0 then
             case pipes s (fpipe e) of
               None \<Rightarrow> Inl OutOfBounds
             | Some p \<Rightarrow> bind_res (returns (pipe_read (unat count) p)) (\<lambda>(r, bs, p').
                 Inr (of_int r, put_user va_pa buf_ptr bs (s\<lparr>pipes := (pipes s)(fpipe e \<mapsto> p')\<rparr>)))
           else if node e \<noteq> 0 then
             bind_res (fs_read (node_index (node e) s) (offset e) (ucast count) (ramfs s)) (\<lambda>(bytes_read, bs).
               let s1 = put_user va_pa buf_ptr bs s
               in Inr (scast bytes_read,
                    if 0 < sint bytes_read then upd_fd t (unat fd) (\<lambda>e. e\<lparr>offset := offset e + bytes_read\<rparr>) s1 else s1))
           else Inr (- 1, s)
         else Inr (- 1, s))"

section \<open>Files and directories\<close>

definition sys_open :: "(u64 \<Rightarrow> u64) \<Rightarrow> u64 \<Rightarrow> u64 \<Rightarrow> 'a ksys_scheme \<Rightarrow> (u64 \<times> 'a ksys_scheme) res" where
  "sys_open va_pa path_ptr flgs s =
     (let t = get_fd_table s
      in if path_ptr = 0 \<or> t = 0 then Inr (- 1, s)
      else case find (fd_free t s) [3..<MAX_FDS] of
        None \<Rightarrow> Inr (- 1, s)
      | Some fd \<Rightarrow> case fs_root (ramfs s) of
          None \<Rightarrow> Inr (- 1, s)
        | Some root \<Rightarrow>
          bind_res (user_string va_pa path_ptr s) (\<lambda>path.
          bind_res (fs_finddir root (skip_slash path) (ramfs s)) (\<lambda>found.
          bind_res (case found of Some n \<Rightarrow> Inr (Some n, ramfs s)
                    | None \<Rightarrow> ramfs_create_file root (skip_slash path) (ramfs s)) (\<lambda>(nd, fs).
            let s1 = s\<lparr>ramfs := fs\<rparr>
            in case nd of
                 None \<Rightarrow> Inr (- 1, s1)
               | Some n \<Rightarrow> Inr (of_nat fd,
                   upd_fd t fd (\<lambda>e. e\<lparr>node := node_ptr n s, offset := 0, flags := sint (ucast flgs :: u32), is_pipe := False\<rparr>) s1)))))"

definition sys_close :: "u64 \<Rightarrow> 'a ksys_scheme \<Rightarrow> u64 \<times> 'a ksys_scheme" where
  "sys_close fd s =
     (let t = get_fd_table s
      in if t = 0 \<or> 16 \<le> fd then (- 1, s)
      else (0, upd_fd t (unat fd) (\<lambda>e. e\<lparr>node := 0, fpipe := 0, offset := 0, flags := 0, is_pipe := False\<rparr>) s))"

definition sys_stat :: "(u64 \<Rightarrow> u64) \<Rightarrow> u64 \<Rightarrow> u64 \<Rightarrow> 'a ksys_scheme \<Rightarrow> (u64 \<times> 'a ksys_scheme) res" where
  "sys_stat va_pa path_ptr stat_ptr s =
     (if path_ptr = 0 \<or> stat_ptr = 0 then Inr (- 1, s)
      else case fs_root (ramfs s) of
        None \<Rightarrow> Inr (- 1, s)
      | Some root \<Rightarrow>
        bind_res (user_string va_pa path_ptr s) (\<lambda>path.
        bind_res (fs_finddir root (skip_slash path) (ramfs s)) (\<lambda>found.
          case found of
            None \<Rightarrow> Inr (- 1, s)
          | Some n \<Rightarrow> Inr (0, put_user va_pa stat_ptr
              (bytes32 (fs_size (fs_nodes (ramfs s) ! n)) @ bytes32 (fs_type (fs_nodes (ramfs s) ! n))) s))))"

definition sys_mkdir :: "(u64 \<Rightarrow> u64) \<Rightarrow> u64 \<Rightarrow> 'a ksys_scheme \<Rightarrow> (u64 \<times> 'a ksys_scheme) res" where
  "sys_mkdir va_pa path_ptr s =
     (if path_ptr = 0 then Inr (- 1, s)
      else case fs_root (ramfs s) of
        None \<Rightarrow> Inr (- 1, s)
      | Some root \<Rightarrow>
        bind_res (user_string va_pa path_ptr s) (\<lambda>path.
        bind_res (ramfs_create_dir root (skip_slash path) (ramfs s)) (\<lambda>(dir, fs).
          Inr (case dir of None \<Rightarrow> - 1 | Some _ \<Rightarrow> 0, s\<lparr>ramfs := fs\<rparr>))))"

text \<open>\<open>strncpy(de->name, entry->name, 31)\<close> pads with 0 bytes.\<close>

definition dirent_bytes :: "u8 list \<Rightarrow> u8 list" where
  "dirent_bytes name = (let n = take 31 (c_string name) in n @ replicate (31 - length n) 0 @ [0] @ bytes32 1)"

definition sys_readdir :: "(u64 \<Rightarrow> u64) \<Rightarrow> u64 \<Rightarrow> u64 \<Rightarrow> 'a ksys_scheme \<Rightarrow> (u64 \<times> 'a ksys_scheme) res" where
  "sys_readdir va_pa fd dirent_ptr s =
     (let t = get_fd_table s; e = fd_of t (unat fd) s
      in if t = 0 \<or> 16 \<le> fd then Inr (- 1, s)
      else if node e = 0 then Inr (- 1, s)
      else if fs_type (fs_nodes (ramfs s) ! node_index (node e) s) \<noteq> 2 then Inr (- 1, s)
      else bind_res (fs_readdir (node_index (node e) s) (offset e) (ramfs s)) (\<lambda>d.
        case d of
          None \<Rightarrow> Inr (0, s)
        | Some de \<Rightarrow> Inr (1, upd_fd t (unat fd) (\<lambda>e. e\<lparr>offset := offset e + 1\<rparr>)
            (put_user va_pa dirent_ptr (dirent_bytes (de_name de)) s))))"

section \<open>Pipes and duplication\<close>

definition sys_pipe :: "(u64 \<Rightarrow> u64) \<Rightarrow> u64 \<Rightarrow> 'a ksys_scheme \<Rightarrow> (u64 \<times> 'a ksys_scheme) res" where
  "sys_pipe va_pa pipefd_ptr s =
     (let t = get_fd_table s
      in if pipefd_ptr = 0 \<or> t = 0 then Inr (- 1, s)
      else bind_res (pipe_create s) (\<lambda>(p, s1).
        if p = 0 then Inr (- 1, s1)
        else case filter (fd_free t s1) [3..<MAX_FDS] of
          read_fd # write_fd # _ \<Rightarrow>
            let s2 = upd_fd t read_fd (\<lambda>e. e\<lparr>fpipe := p, is_pipe := True, flags := 0\<rparr>) s1;
                s3 = upd_fd t write_fd (\<lambda>e. e\<lparr>fpipe := p, is_pipe := True, flags := 1\<rparr>) s2
            in Inr (0, put_user va_pa pipefd_ptr (bytes32 (of_nat read_fd) @ bytes32 (of_nat write_fd)) s3)
        | _ \<Rightarrow> Inr (- 1, s1\<lparr>pipes := (pipes s1)(p := map_option pipe_destroy (pipes s1 p))\<rparr>)))"

definition sys_dup2 :: "u64 \<Rightarrow> u64 \<Rightarrow> 'a ksys_scheme \<Rightarrow> u64 \<times> 'a ksys_scheme" where
  "sys_dup2 oldfd newfd s =
     (let t = get_fd_table s
      in if t = 0 then (- 1, s)
      else if 16 \<le> oldfd \<or> 16 \<le> newfd then (- 1, s)
      else if fd_free t s (unat oldfd) then (- 1, s)
      else if oldfd = newfd then (newfd, s)
      else let s1 = (if fd_free t s (unat newfd) then s
                     else upd_fd t (unat newfd) (\<lambda>e. e\<lparr>node := 0, fpipe := 0\<rparr>)
                       (if node (fd_of t (unat newfd) s) \<noteq> 0
                        then s\<lparr>ramfs := fs_close (node_index (node (fd_of t (unat newfd) s)) s) (ramfs s)\<rparr> else s))
           in (newfd, upd_fd t (unat newfd) (\<lambda>_. fd_of t (unat oldfd) s1) s1))"

end
