(* ===== verification/Proc_Calls.thy ===== *)
theory Proc_Calls
  imports Fd_Calls
begin

text \<open>
  The system calls on processes (\<open>src/src/kernel/syscall.c\<close>).  The result of a call is a value for
  the caller, or \<open>None\<close> when the call has switched to another process; the state is then the one
  in which that process goes on.  Code addresses of the built-in programs are a parameter.
\<close>

type_synonym 's outcome = "(u64 option \<times> 's) res"

section \<open>Strings\<close>

function count_digits :: "u32 \<Rightarrow> nat" where
  "count_digits temp = (if 0 < temp then Suc (count_digits (temp div 10)) else 0)"
  by pat_completeness auto
termination
  by (relation "measure unat") (auto simp: word_less_nat_alt unat_div)

definition digit_char :: "u32 \<Rightarrow> char" where
  "digit_char d = char_of (48 + unat d)"

fun fill_digits :: "nat \<Rightarrow> u32 \<Rightarrow> string \<Rightarrow> string" where
  "fill_digits 0 num buf = buf"
| "fill_digits (Suc j) num buf = fill_digits j (num div 10) (buf[j := digit_char (num mod 10)])"

definition int_to_string :: "u32 \<Rightarrow> string \<Rightarrow> string" where
  "int_to_string num buf =
     (if num = 0 then buf[0 := CHR ''0'', 1 := CHR 0x00]
      else let digits = count_digits num in fill_digits digits num (buf[digits := CHR 0x00]))"

text \<open>The characters of an array up to its first 0.\<close>

definition c_str :: "string \<Rightarrow> string" where
  "c_str buf = takeWhile (\<lambda>c. c \<noteq> CHR 0x00) buf"

text \<open>\<open>string_concat\<close>, on the strings that the two arrays hold.\<close>

definition string_concat :: "string \<Rightarrow> string \<Rightarrow> string" where
  "string_concat dest src = dest @ src"

section \<open>Leaving, identity and time\<close>

definition sys_exit :: "u64 \<Rightarrow> 'a ksys_scheme \<Rightarrow> 'a ksys_scheme outcome" where
  "sys_exit status s =
     (let current = process_get_current s
      in if current = 0 then Inr (Some 0, s)
      else let s1 = terminal_writestring ''\<newline>'' (terminal_writestring '' exiting with status: ''
             (terminal_writestring (pname (procs s current)) (terminal_writestring ''\<newline>[SYSCALL] Process '' s)));
           s2 = upd_proc current (\<lambda>p. p\<lparr>exit_status := sint (ucast status :: u32), pstate := PROCESS_STATE_ZOMBIE\<rparr>) s1
      in bind_res (if parent_pid (procs s2 current) = 0 then process_exit s2 else Inr (schedule s2)) (\<lambda>(switched, s3).
           Inr (if switched then None else Some 0, s3)))"

definition sys_getpid :: "'a ksys_scheme \<Rightarrow> u64" where
  "sys_getpid s = ucast (process_get_pid s)"

text \<open>Of the interrupts during the sleep only the clock is modelled.\<close>

definition sys_sleep :: "(nat \<Rightarrow> u64) \<Rightarrow> u64 \<Rightarrow> 'a ksys_scheme \<Rightarrow> (u64 \<times> 'a ksys_scheme) res" where
  "sys_sleep clock ms s = bind_res (sleep_ms clock (ucast ms) s) (\<lambda>k. Inr (0, s\<lparr>timer_ticks := clock k\<rparr>))"

section \<open>The break\<close>

text \<open>The addresses from \<open>a\<close> in steps of a page below \<open>b\<close>, both multiples of the page size.\<close>

definition page_range :: "u64 \<Rightarrow> u64 \<Rightarrow> u64 list" where
  "page_range a b = map (\<lambda>i. a + of_nat i * 4096) [0..<(unat b - unat a) div 4096]"

fun sbrk_pages :: "u64 list \<Rightarrow> u64 \<Rightarrow> 'a ksys_scheme \<Rightarrow> (bool \<times> 'a ksys_scheme) res" where
  "sbrk_pages [] current s = Inr (True, s)"
| "sbrk_pages (page # pages) current s =
     (if heap_current (procs s current) \<le> page then
        bind_res (vmm_alloc_user_pages (procs s current) page 1 s) (\<lambda>(r, p, s1).
          let s2 = upd_proc current (\<lambda>_. p) s1
          in if r < 0 then Inr (False, s2) else sbrk_pages pages current s2)
      else sbrk_pages pages current s)"

definition sys_sbrk :: "u64 \<Rightarrow> 'a ksys_scheme \<Rightarrow> (u64 \<times> 'a ksys_scheme) res" where
  "sys_sbrk increment s =
     (let current = process_get_current s
      in if current = 0 then Inr (- 1, s)
      else let p = procs s current; old_heap = heap_current p; new_heap = heap_current p + increment
      in if increment = 0 then Inr (old_heap, s)
      else if heap_max p < new_heap then Inr (- 1, s)
      else if new_heap < heap_start p then Inr (- 1, s)
      else bind_res (if 0 < sint increment
                     then sbrk_pages (page_range (old_heap AND NOT 4095) ((new_heap + 4095) AND NOT 4095)) current s
                     else Inr (True, s)) (\<lambda>(ok, s1).
        if ok then Inr (old_heap, upd_proc current (\<lambda>p. p\<lparr>heap_current := new_heap\<rparr>) s1) else Inr (- 1, s1)))"

section \<open>Processes\<close>

definition sys_fork :: "'a ksys_scheme \<Rightarrow> (u64 \<times> 'a ksys_scheme) res" where
  "sys_fork s =
     (let parent = process_get_current s
      in if parent = 0 then Inr (- 1, s)
      else let s1 = terminal_writestring ''\<newline>'' (terminal_writestring ''[FORK] Starting fork from PID '' s)
      in bind_res (allocate_process_struct s1) (\<lambda>(child, s2).
      if child = 0 then Inr (- 1, terminal_writestring ''[FORK] Failed to allocate child process\<newline>'' s2)
      else let s3 = upd_proc child (\<lambda>c. c\<lparr>pname := string_concat (c_strncpy (pname (procs s2 parent)) 24) ''[child]''\<rparr>) s2
      in bind_res (vmm_clone_address_space (page_table (procs s3 parent)) s3) (\<lambda>(pt, s4).
      let s5 = upd_proc child (\<lambda>c. c\<lparr>page_table := pt\<rparr>) s4
      in if pt = 0 then
        bind_res (free_process_struct child (terminal_writestring ''[FORK] Failed to clone address space\<newline>'' s5)) (\<lambda>s6. Inr (- 1, s6))
      else let pp = procs s5 parent;
          s6 = upd_proc child (\<lambda>c. c\<lparr>pcontext := pcontext pp, parent_pid := pid pp, pstate := PROCESS_STATE_READY,
            priority := priority pp, ticks_remaining := DEFAULT_QUANTUM, ticks_total := 0, heap_start := heap_start pp,
            heap_current := heap_current pp, heap_max := heap_max pp, stack_bottom := stack_bottom pp,
            stack_top := stack_top pp, pages_allocated := pages_allocated pp, page_faults := 0\<rparr>) s5;
          pf = fd_table (procs s6 parent); cf = fd_table (procs s6 child);
          s7 = (if pf \<noteq> 0 \<and> cf \<noteq> 0 then s6\<lparr>fd_tables := (fd_tables s6)(cf := map (\<lambda>i. fd_tables s6 pf ! i) [0..<MAX_FDS])\<rparr> else s6);
          s8 = terminal_writestring ''\<newline>'' (terminal_writestring ''[FORK] Created child PID '' (ready_queue_push child s7))
      in Inr (ucast (pid (procs s8 child)), s8))))"

text \<open>
  \<open>wait_loop\<close> is the loop of \<open>sys_wait\<close> for the process \<open>parent\<close>; a waiting process that is
  resumed enters it again.
\<close>

partial_function (option) wait_loop :: "(u64 \<Rightarrow> u64) \<Rightarrow> u64 \<Rightarrow> u64 \<Rightarrow> 'a ksys_scheme \<Rightarrow> 'a ksys_scheme outcome option" where
  "wait_loop va_pa parent status_ptr s =
     (let child = find_zombie_child (pid (procs s parent)) s
      in if child \<noteq> 0 then
        let s1 = (if status_ptr \<noteq> 0 then put_user va_pa status_ptr (bytes32 (of_int (exit_status (procs s child)))) s else s);
            child_pid = pid (procs s1 child);
            s2 = terminal_writestring ''\<newline>'' (terminal_writestring ''[WAIT] Reaping child PID '' s1)
        in Some (bind_res (free_process_struct child s2) (\<lambda>s3. Inr (Some (ucast child_pid), s3)))
      else case schedule (upd_proc parent (\<lambda>p. p\<lparr>pstate := PROCESS_STATE_WAITING\<rparr>) s) of (switched, s1) \<Rightarrow>
        if switched then Some (Inr (None, s1)) else wait_loop va_pa parent status_ptr s1)"

definition sys_wait :: "(u64 \<Rightarrow> u64) \<Rightarrow> u64 \<Rightarrow> 'a ksys_scheme \<Rightarrow> 'a ksys_scheme outcome" where
  "sys_wait va_pa status_ptr s =
     (let parent = process_get_current s
      in if parent = 0 then Inr (Some (- 1), s)
      else bind_res (returns (wait_loop va_pa parent status_ptr
             (terminal_writestring ''[WAIT] Process waiting for child\<newline>'' s))) (\<lambda>r. r))"

datatype builtin = Builtin_hello_main | Shell_main | Init_main | Shell_v2_main

definition builtins :: "(string \<times> builtin \<times> string) list" where
  "builtins = [(''/bin/hello'', Builtin_hello_main, ''hello''), (''/bin/shell'', Shell_main, ''shell''),
     (''/bin/init'', Init_main, ''init''), (''/bin/shell_v2'', Shell_v2_main, ''shell_v2'')]"

definition sys_execve :: "(builtin \<Rightarrow> u64) \<Rightarrow> (u64 \<Rightarrow> u64) \<Rightarrow> u64 \<Rightarrow> 'a ksys_scheme \<Rightarrow> (u64 \<times> 'a ksys_scheme) res" where
  "sys_execve code va_pa path_ptr s =
     (let current = process_get_current s
      in if current = 0 \<or> path_ptr = 0 then Inr (- 1, s)
      else bind_res (user_string va_pa path_ptr s) (\<lambda>bytes.
        let path = map (\<lambda>b. char_of (unat b)) bytes;
            s1 = terminal_writestring ''\<newline>'' (terminal_writestring path (terminal_writestring ''[EXEC] Executing: '' s))
        in case find (\<lambda>(bpath, _, _). bpath = path) builtins of
             Some (_, start, name) \<Rightarrow>
               let s2 = terminal_writestring ''\<newline>'' (terminal_writestring name
                     (terminal_writestring ''[EXEC] Loading built-in program: '' s1));
                   s3 = vmm_clear_user_space (page_table (procs s2 current)) s2
               in Inr (0, upd_proc current (\<lambda>p. p\<lparr>pcontext := (pcontext p)\<lparr>rip := code start, rsp := USER_STACK_TOP - 16, rflags := 0x202\<rparr>,
                    pname := c_strncpy name 31\<rparr>) s3)
           | None \<Rightarrow> Inr (- 1, terminal_writestring ''\<newline>'' (terminal_writestring path
               (terminal_writestring ''[EXEC] Program not found: '' s1)))))"

section \<open>Listing and signalling\<close>

fun state_str :: "process_state \<Rightarrow> string" where
  "state_str PROCESS_STATE_READY = ''READY''"
| "state_str PROCESS_STATE_RUNNING = ''RUN''"
| "state_str PROCESS_STATE_BLOCKED = ''BLOCK''"
| "state_str PROCESS_STATE_WAITING = ''WAIT''"
| "state_str PROCESS_STATE_ZOMBIE = ''ZOMBIE''"
| "state_str PROCESS_STATE_TERMINATED = ''TERM''"

definition ps_number :: "u32 \<Rightarrow> 'a ksys_scheme \<Rightarrow> 'a ksys_scheme" where
  "ps_number n s = terminal_writestring ''    '' (terminal_writestring (c_str (int_to_string n (replicate 16 (CHR 0x00)))) s)"

definition ps_line :: "process \<Rightarrow> 'a ksys_scheme \<Rightarrow> 'a ksys_scheme" where
  "ps_line p s =
     (let s1 = terminal_writestring (state_str (pstate p)) (ps_number (parent_pid p) (ps_number (pid p) s));
          s2 = fold (\<lambda>_. terminal_writestring '' '') [length (state_str (pstate p))..<8] s1
      in terminal_writestring ''\<newline>'' (terminal_writestring (pname p) (terminal_writestring ''  '' s2)))"

definition sys_ps :: "'a ksys_scheme \<Rightarrow> u64 \<times> 'a ksys_scheme" where
  "sys_ps s =
     (0, fold (\<lambda>i s. let p = process_table s ! i in if p \<noteq> 0 then ps_line (procs s p) s else s) (for_range 0 MAX_PROCESSES)
       (terminal_writestring ''---  ----  --------  ----------\<newline>'' (terminal_writestring ''PID  PPID  STATE     NAME\<newline>'' s)))"

definition sys_kill :: "(int \<Rightarrow> 'a ksys_scheme \<Rightarrow> u64) \<Rightarrow> u64 \<Rightarrow> u64 \<Rightarrow> 'a ksys_scheme \<Rightarrow> u64 \<times> 'a ksys_scheme" where
  "sys_kill process_find_by_pid n sig s =
     (0, signal_send process_find_by_pid (sint (ucast n :: u32)) (sint (ucast sig :: u32)) s)"

end
