(* ===== verification/Syscall.thy ===== *)
theory Syscall
  imports Exceptions Proc_Calls
begin

text \<open>
  The system call table and its dispatcher, the end of \<open>src/kernel/syscall.c\<close>.  What the calls
  take from their surroundings is collected in a record: the effect of interrupts while a call
  waits, the address translation of the caller, the clock, the lookup of processes by identifier
  (which the repository declares but does not define) and the addresses of the built-in programs.
\<close>

section \<open>The table\<close>

datatype syscall_func =
    Sys_exit | Sys_write | Sys_read | Sys_getpid | Sys_sleep | Sys_sbrk | Sys_fork | Sys_wait | Sys_execve
  | Sys_ps | Sys_open | Sys_close | Sys_stat | Sys_mkdir | Sys_readdir | Sys_kill | Sys_pipe | Sys_dup2

record kcalls = ksys +
  syscall_table :: "syscall_func option list"

record 's surroundings =
  env_irq :: "nat \<Rightarrow> 's \<Rightarrow> 's"
  env_va_pa :: "u64 \<Rightarrow> u64"
  env_clock :: "nat \<Rightarrow> u64"
  env_find :: "int \<Rightarrow> 's \<Rightarrow> u64"
  env_code :: "builtin \<Rightarrow> u64"

abbreviation (input) MAX_SYSCALLS :: nat where "MAX_SYSCALLS \<equiv> 64"

text \<open>A call through the table.  Most calls return; exit and wait may switch away instead.\<close>

definition returning :: "(u64 \<times> 's) res \<Rightarrow> 's outcome" where
  "returning r = bind_res r (\<lambda>(v, s). Inr (Some v, s))"

fun call_syscall :: "'a kcalls_scheme surroundings \<Rightarrow> syscall_func \<Rightarrow> u64 \<Rightarrow> u64 \<Rightarrow> u64 \<Rightarrow> u64 \<Rightarrow> u64 \<Rightarrow> 'a kcalls_scheme \<Rightarrow> 'a kcalls_scheme outcome" where
  "call_syscall e Sys_exit a1 a2 a3 a4 a5 s = sys_exit a1 s"
| "call_syscall e Sys_write a1 a2 a3 a4 a5 s = returning (sys_write (env_va_pa e) a1 a2 a3 s)"
| "call_syscall e Sys_read a1 a2 a3 a4 a5 s = returning (sys_read (env_irq e) (env_va_pa e) a1 a2 a3 s)"
| "call_syscall e Sys_getpid a1 a2 a3 a4 a5 s = Inr (Some (sys_getpid s), s)"
| "call_syscall e Sys_sleep a1 a2 a3 a4 a5 s = returning (sys_sleep (env_clock e) a1 s)"
| "call_syscall e Sys_sbrk a1 a2 a3 a4 a5 s = returning (sys_sbrk a1 s)"
| "call_syscall e Sys_fork a1 a2 a3 a4 a5 s = returning (sys_fork s)"
| "call_syscall e Sys_wait a1 a2 a3 a4 a5 s = sys_wait (env_va_pa e) a1 s"
| "call_syscall e Sys_execve a1 a2 a3 a4 a5 s = returning (sys_execve (env_code e) (env_va_pa e) a1 s)"
| "call_syscall e Sys_ps a1 a2 a3 a4 a5 s = returning (Inr (sys_ps s))"
| "call_syscall e Sys_open a1 a2 a3 a4 a5 s = returning (sys_open (env_va_pa e) a1 a2 s)"
| "call_syscall e Sys_close a1 a2 a3 a4 a5 s = returning (Inr (sys_close a1 s))"
| "call_syscall e Sys_stat a1 a2 a3 a4 a5 s = returning (sys_stat (env_va_pa e) a1 a2 s)"
| "call_syscall e Sys_mkdir a1 a2 a3 a4 a5 s = returning (sys_mkdir (env_va_pa e) a1 s)"
| "call_syscall e Sys_readdir a1 a2 a3 a4 a5 s = returning (sys_readdir (env_va_pa e) a1 a2 s)"
| "call_syscall e Sys_kill a1 a2 a3 a4 a5 s = returning (Inr (sys_kill (env_find e) a1 a2 s))"
| "call_syscall e Sys_pipe a1 a2 a3 a4 a5 s = returning (sys_pipe (env_va_pa e) a1 s)"
| "call_syscall e Sys_dup2 a1 a2 a3 a4 a5 s = returning (Inr (sys_dup2 a1 a2 s))"

definition syscall_handler ::
  "'a kcalls_scheme surroundings \<Rightarrow> registers_t \<Rightarrow> 'a kcalls_scheme \<Rightarrow> (registers_t option \<times> 'a kcalls_scheme) res" where
  "syscall_handler e regs s =
     (let syscall_num = reg_rax regs
      in if of_nat MAX_SYSCALLS \<le> syscall_num \<or> syscall_table s ! unat syscall_num = None
      then Inr (Some (regs\<lparr>reg_rax := - 1\<rparr>), s)
      else bind_res (call_syscall e (the (syscall_table s ! unat syscall_num))
          (reg_rdi regs) (reg_rsi regs) (reg_rdx regs) (reg_r10 regs) (reg_r8 regs) s)
        (\<lambda>(result, s'). Inr (map_option (\<lambda>r. regs\<lparr>reg_rax := r\<rparr>) result, s')))"

definition init_syscalls :: "'a kcalls_scheme \<Rightarrow> 'a kcalls_scheme" where
  "init_syscalls s =
     (let tab = (replicate MAX_SYSCALLS None)
        [1 := Some Sys_exit, 2 := Some Sys_write, 3 := Some Sys_read, 4 := Some Sys_getpid, 5 := Some Sys_sleep,
         6 := Some Sys_sbrk, 7 := Some Sys_fork, 8 := Some Sys_wait, 9 := Some Sys_execve, 10 := Some Sys_ps,
         11 := Some Sys_open, 12 := Some Sys_close, 13 := Some Sys_stat, 14 := Some Sys_mkdir,
         15 := Some Sys_readdir, 16 := Some Sys_kill, 17 := Some Sys_pipe, 18 := Some Sys_dup2]
      in terminal_writestring ''System call interface initialized (INT 0x80)\<newline>''
        (register_interrupt_handler 0x80 Syscall_handler (s\<lparr>syscall_table := tab\<rparr>)))"

section \<open>Dispatch by number\<close>

text \<open>The system call numbers of \<open>include/kernel/syscall.h\<close>.\<close>

definition syscall_numbers :: "(u64 \<times> syscall_func) list" where
  "syscall_numbers =
     [(1, Sys_exit), (2, Sys_write), (3, Sys_read), (4, Sys_getpid), (5, Sys_sleep), (6, Sys_sbrk), (7, Sys_fork),
      (8, Sys_wait), (9, Sys_execve), (10, Sys_ps), (11, Sys_open), (12, Sys_close), (13, Sys_stat), (14, Sys_mkdir),
      (15, Sys_readdir), (16, Sys_kill), (17, Sys_pipe), (18, Sys_dup2)]"

definition syscalls_installed :: "'a kcalls_scheme \<Rightarrow> bool" where
  "syscalls_installed s \<longleftrightarrow> interrupt_handlers s 128 = Some Syscall_handler \<and>
     (\<forall>n. map_of syscall_numbers n = (if n < of_nat MAX_SYSCALLS then syscall_table s ! unat n else None))"

lemma init_syscalls_table:
  "syscall_table (init_syscalls s) = [None, Some Sys_exit, Some Sys_write, Some Sys_read, Some Sys_getpid, Some Sys_sleep,
     Some Sys_sbrk, Some Sys_fork, Some Sys_wait, Some Sys_execve, Some Sys_ps, Some Sys_open, Some Sys_close, Some Sys_stat,
     Some Sys_mkdir, Some Sys_readdir, Some Sys_kill, Some Sys_pipe, Some Sys_dup2] @ replicate 45 None"
  by (simp add: init_syscalls_def Let_def terminal_writestring_eq register_interrupt_handler_def eval_nat_numeral)

lemma init_syscalls_installs: "syscalls_installed (init_syscalls s)"
proof -
  have "map_of syscall_numbers n = (if n < 64 then syscall_table (init_syscalls s) ! unat n else None)" for n
  proof (cases "n < 19")
    case True
    have upt: "[0..<19] = [0, 1, 2, 3, 4, 5, 6, 7, 8, 9, 10, 11, 12, 13, 14, 15, 16, 17, 18 :: nat]" by (simp add: upt_rec)
    have "list_all (\<lambda>i. map_of syscall_numbers (of_nat i) = syscall_table (init_syscalls s) ! i) [0..<19]"
      unfolding init_syscalls_table upt list.pred_inject by (simp add: syscall_numbers_def)
    moreover have "unat n < 19" using True by (simp add: word_less_nat_alt)
    ultimately have "map_of syscall_numbers (of_nat (unat n)) = syscall_table (init_syscalls s) ! unat n"
      by (simp add: list_all_iff del: upt_rec_numeral of_nat_unat)
    moreover have "n < 64" using True by (rule order.strict_trans) simp
    ultimately show ?thesis by simp
  next
    case False
    then have "n \<notin> fst ` set syscall_numbers" by (auto simp: syscall_numbers_def)
    moreover have "n < 64 \<Longrightarrow> syscall_table (init_syscalls s) ! unat n = None"
      using False by (simp add: init_syscalls_table nth_append word_less_nat_alt)
    ultimately show ?thesis by (simp add: map_of_eq_None_iff)
  qed
  then show ?thesis by (simp add: syscalls_installed_def init_syscalls_def Let_def terminal_writestring_eq register_interrupt_handler_def)
qed

lemma syscall_handler_number:
  assumes "syscalls_installed s"
  shows "syscall_handler e regs s = (case map_of syscall_numbers (reg_rax regs) of
      None \<Rightarrow> Inr (Some (regs\<lparr>reg_rax := - 1\<rparr>), s)
    | Some f \<Rightarrow> bind_res (call_syscall e f (reg_rdi regs) (reg_rsi regs) (reg_rdx regs) (reg_r10 regs) (reg_r8 regs) s)
        (\<lambda>(result, s'). Inr (map_option (\<lambda>r. regs\<lparr>reg_rax := r\<rparr>) result, s')))"
  using assms by (auto simp: syscalls_installed_def syscall_handler_def Let_def not_le split: option.splits if_splits)

end
