(* ===== verification/Descriptors.thy ===== *)
theory Descriptors
  imports Prelude
begin

text \<open>
  The segment and interrupt descriptor tables that \<open>src/kernel/kernel.c\<close> builds and the
  instructions of \<open>src/arch/x86_64/asm_functions.s\<close> that load them.  The addresses of the
  tables, of the task state segment and of the interrupt stubs are fixed by the linker and are
  arguments.  The lemmas decode the tables the way the processor reads them.
\<close>

unbundle bit_operations_syntax

section \<open>The tables\<close>

record gdt_entry =
  limit_low :: u16
  base_low :: u16
  base_middle :: u8
  access :: u8
  granularity :: u8
  base_high :: u8

record idt_entry =
  offset_low :: u16
  selector :: u16
  ist :: u8
  type_attr :: u8
  offset_middle :: u16
  offset_high :: u32
  zero_dword :: u32

text \<open>
  The two tables with the pointers \<open>gp\<close> and \<open>ip\<close> to them, and the registers of the processor that
  refer to them: table registers, code segment, data segments and task register.
\<close>

record descriptor_tables =
  gdt :: "gdt_entry list"
  gp :: "u16 \<times> u64"
  idt :: "idt_entry list"
  ip :: "u16 \<times> u64"
  gdtr :: "u16 \<times> u64"
  idtr :: "u16 \<times> u64"
  code_seg :: u16
  data_segs :: u16
  task_reg :: u16

abbreviation (input) GDT_ENTRIES :: nat where "GDT_ENTRIES \<equiv> 7"
abbreviation (input) IDT_ENTRIES :: nat where "IDT_ENTRIES \<equiv> 256"
abbreviation (input) TSS_SIZE :: u32 where "TSS_SIZE \<equiv> 104"

section \<open>Segments\<close>

definition gdt_set_gate :: "nat \<Rightarrow> u32 \<Rightarrow> u32 \<Rightarrow> u8 \<Rightarrow> u8 \<Rightarrow> descriptor_tables \<Rightarrow> descriptor_tables" where
  "gdt_set_gate num base limit acc gran d = d\<lparr>gdt := (gdt d)[num :=
     \<lparr>limit_low = ucast (limit AND 0xFFFF), base_low = ucast (base AND 0xFFFF),
      base_middle = ucast (drop_bit 16 base AND 0xFF), access = acc,
      granularity = ucast (drop_bit 16 limit AND 0x0F) OR (gran AND 0xF0),
      base_high = ucast (drop_bit 24 base AND 0xFF)\<rparr>]\<rparr>"

definition gdt_set_tss :: "nat \<Rightarrow> u64 \<Rightarrow> u32 \<Rightarrow> descriptor_tables \<Rightarrow> descriptor_tables" where
  "gdt_set_tss num base limit d =
     (let tss_low = \<lparr>limit_low = ucast (limit AND 0xFFFF), base_low = ucast (base AND 0xFFFF),
            base_middle = ucast (drop_bit 16 base AND 0xFF), access = 0x89,
            granularity = ucast (drop_bit 16 limit AND 0x0F), base_high = ucast (drop_bit 24 base AND 0xFF)\<rparr>;
          tss_high = \<lparr>limit_low = ucast (drop_bit 32 base AND 0xFFFF), base_low = ucast (drop_bit 48 base AND 0xFFFF),
            base_middle = 0, access = 0, granularity = 0, base_high = 0\<rparr>
      in d\<lparr>gdt := (gdt d)[num := tss_low, num + 1 := tss_high]\<rparr>)"

definition load_gdt :: "descriptor_tables \<Rightarrow> descriptor_tables" where
  "load_gdt d = d\<lparr>gdtr := gp d, data_segs := 0x10, code_seg := 0x08\<rparr>"

definition init_gdt :: "u64 \<Rightarrow> u64 \<Rightarrow> descriptor_tables \<Rightarrow> descriptor_tables" where
  "init_gdt gdt_addr tss_addr d =
     (let d1 = d\<lparr>gp := (8 * of_nat GDT_ENTRIES - 1, gdt_addr)\<rparr>;
          d2 = gdt_set_gate 0 0 0 0 0 d1;
          d3 = gdt_set_gate 1 0 0xFFFFFFFF 0x9A 0xAF d2;
          d4 = gdt_set_gate 2 0 0xFFFFFFFF 0x92 0xCF d3;
          d5 = gdt_set_gate 3 0 0xFFFFFFFF 0xFA 0xAF d4;
          d6 = gdt_set_gate 4 0 0xFFFFFFFF 0xF2 0xCF d5;
          d7 = gdt_set_tss 5 tss_addr (TSS_SIZE - 1) (load_gdt d6)
      in (load_gdt d7)\<lparr>task_reg := 0x28\<rparr>)"

section \<open>Interrupt gates\<close>

definition idt_set_gate :: "u8 \<Rightarrow> u64 \<Rightarrow> u16 \<Rightarrow> u8 \<Rightarrow> descriptor_tables \<Rightarrow> descriptor_tables" where
  "idt_set_gate num base sel flgs d = d\<lparr>idt := (idt d)[unat num :=
     \<lparr>offset_low = ucast (base AND 0xFFFF), selector = sel, ist = 0, type_attr = flgs,
      offset_middle = ucast (drop_bit 16 base AND 0xFFFF), offset_high = ucast (drop_bit 32 base AND 0xFFFFFFFF),
      zero_dword = 0\<rparr>]\<rparr>"

definition load_idt :: "descriptor_tables \<Rightarrow> descriptor_tables" where
  "load_idt d = d\<lparr>idtr := ip d\<rparr>"

text \<open>The vectors for which \<open>init_idt\<close> installs a stub: exceptions, timer, keyboard and system calls.\<close>

definition vectors :: "u8 list" where
  "vectors = [0, 1, 2, 3, 4, 5, 6, 7, 8, 10, 11, 12, 13, 14, 16, 17, 18, 19, 20, 32, 33]"

definition init_idt :: "u64 \<Rightarrow> (u8 \<Rightarrow> u64) \<Rightarrow> descriptor_tables \<Rightarrow> descriptor_tables" where
  "init_idt idt_addr stub d =
     (let d1 = d\<lparr>ip := (16 * of_nat IDT_ENTRIES - 1, idt_addr)\<rparr>;
          d2 = fold (\<lambda>i. idt_set_gate (of_nat i) 0 0 0) [0..<IDT_ENTRIES] d1;
          d3 = fold (\<lambda>v. idt_set_gate v (stub v) 0x08 0x8E) vectors d2
      in load_idt (idt_set_gate 128 (stub 128) 0x08 0xEE d3))"

section \<open>The processor's reading of the tables\<close>

definition seg_base :: "gdt_entry \<Rightarrow> u32" where
  "seg_base e = ucast (base_low e) OR push_bit 16 (ucast (base_middle e)) OR push_bit 24 (ucast (base_high e))"

definition seg_limit :: "gdt_entry \<Rightarrow> u32" where
  "seg_limit e = ucast (limit_low e) OR push_bit 16 (ucast (granularity e AND 0x0F))"

definition tss_base :: "gdt_entry \<Rightarrow> gdt_entry \<Rightarrow> u64" where
  "tss_base lo hi = ucast (seg_base lo) OR push_bit 32 (ucast (limit_low hi)) OR push_bit 48 (ucast (base_low hi))"

definition gate_offset :: "idt_entry \<Rightarrow> u64" where
  "gate_offset e = ucast (offset_low e) OR push_bit 16 (ucast (offset_middle e)) OR push_bit 32 (ucast (offset_high e))"

definition dpl :: "u8 \<Rightarrow> u8" where
  "dpl flgs = drop_bit 5 flgs AND 3"

definition descriptor_present :: "u8 \<Rightarrow> bool" where
  "descriptor_present flgs \<longleftrightarrow> bit flgs 7"

lemma hex_masks:
  "(0xF :: 'a::len word) = mask 4" "(0xFF :: 'a word) = mask 8" "(0xFFFF :: 'a word) = mask 16" "(0xFFFFFFFF :: 'a word) = mask 32"
  by (simp_all add: mask_eq_exp_minus_1)

lemma split_base32:
  "ucast (ucast (b AND 0xFFFF) :: u16) OR push_bit 16 (ucast (ucast (drop_bit 16 b AND 0xFF) :: u8)) OR
     push_bit 24 (ucast (ucast (drop_bit 24 b AND 0xFF) :: u8)) = (b :: u32)" (is "?l = b")
proof (rule bit_word_eqI)
  show "bit ?l n = bit b n" if "n < LENGTH(32)" for n
    using that unfolding hex_masks by (cases "n < 16"; cases "n < 24") (auto simp: bit_simps)
qed

lemma split_low32:
  "ucast (ucast (ucast (b AND 0xFFFF) :: u16) OR push_bit 16 (ucast (ucast (drop_bit 16 b AND 0xFF) :: u8)) OR
     push_bit 24 (ucast (ucast (drop_bit 24 b AND 0xFF) :: u8)) :: u32) OR
   push_bit 32 (ucast (ucast (drop_bit 32 b AND 0xFFFF) :: u16)) OR
   push_bit 48 (ucast (ucast (drop_bit 48 b AND 0xFFFF) :: u16)) = (b :: u64)" (is "?l = b")
proof (rule bit_word_eqI)
  show "bit ?l n = bit b n" if "n < LENGTH(64)" for n
    using that unfolding hex_masks by (cases "n < 16"; cases "n < 24"; cases "n < 32"; cases "n < 48") (auto simp: bit_simps)
qed

lemma split_offset64:
  "ucast (ucast (b AND 0xFFFF) :: u16) OR push_bit 16 (ucast (ucast (drop_bit 16 b AND 0xFFFF) :: u16)) OR
     push_bit 32 (ucast (ucast (drop_bit 32 b AND 0xFFFFFFFF) :: u32)) = (b :: u64)" (is "?l = b")
proof (rule bit_word_eqI)
  show "bit ?l n = bit b n" if "n < LENGTH(64)" for n
    using that unfolding hex_masks by (cases "n < 16"; cases "n < 32") (auto simp: bit_simps)
qed

section \<open>The interrupt table after initialisation\<close>

lemma idt_length [simp]:
  "length (idt (idt_set_gate v base sel flgs d)) = length (idt d)"
  "length (idt (fold (\<lambda>v. idt_set_gate v (f v) sel flgs) vs d)) = length (idt d)"
proof -
  show a: "length (idt (idt_set_gate v base sel flgs d)) = length (idt d)" for v base sel flgs d by (simp add: idt_set_gate_def)
  show "length (idt (fold (\<lambda>v. idt_set_gate v (f v) sel flgs) vs d)) = length (idt d)"
    by (induction vs arbitrary: d) (simp_all add: a)
qed

lemma idt_set_gate_other [simp]:
  "ip (idt_set_gate v base sel flgs d) = ip d" "idtr (idt_set_gate v base sel flgs d) = idtr d"
  by (simp_all add: idt_set_gate_def)

lemma idt_fold_other [simp]: "ip (fold (\<lambda>v. idt_set_gate v (f v) sel flgs) vs d) = ip d"
  by (induction vs arbitrary: d) simp_all

definition gate_is :: "idt_entry \<Rightarrow> u64 \<Rightarrow> u16 \<Rightarrow> u8 \<Rightarrow> bool" where
  "gate_is e base sel flgs \<longleftrightarrow> gate_offset e = base \<and> selector e = sel \<and> type_attr e = flgs \<and> ist e = 0 \<and> zero_dword e = 0"

lemma gate_is_set:
  assumes "unat v < length (idt d)"
  shows "gate_is (idt (idt_set_gate w base sel flgs d) ! unat v) b s f \<longleftrightarrow>
    (if v = w then b = base \<and> s = sel \<and> f = flgs else gate_is (idt d ! unat v) b s f)"
  using assms by (auto simp: gate_is_def idt_set_gate_def gate_offset_def split_offset64 nth_list_update word_unat_eq_iff)

lemma gate_is_fold:
  assumes "unat v < length (idt d)"
  shows "gate_is (idt (fold (\<lambda>v. idt_set_gate v (f v) sel flgs) vs d) ! unat v)
    (if v \<in> set vs then f v else b) (if v \<in> set vs then sel else s) (if v \<in> set vs then flgs else t) \<longleftrightarrow>
    v \<in> set vs \<or> gate_is (idt d ! unat v) b s t"
  using assms
proof (induction vs arbitrary: d b s t)
  case (Cons w vs)
  then show ?case using Cons.IH [of "idt_set_gate w (f w) sel flgs d" "f v" sel flgs] Cons.IH [of "idt_set_gate w (f w) sel flgs d" b s t]
    by (auto simp: gate_is_set split: if_splits)
qed simp

text \<open>
  C22: which interrupts a program can raise.  After \<open>init_idt\<close> the table register covers all 256
  gates.  Each vector of an exception, of the timer, of the keyboard and of the system call has a
  present gate that leads to its own stub in the kernel's code segment; only the gate of the system
  call may be entered from user mode, and every other vector has no gate.
\<close>

theorem init_idt_gates:
  assumes "length (idt d) = 256"
  shows "idtr (init_idt idt_addr stub d) = (4095, idt_addr) \<and>
    (let e = idt (init_idt idt_addr stub d) ! unat v
     in if v \<in> set vectors \<or> v = 128
     then gate_offset e = stub v \<and> selector e = 0x08 \<and> descriptor_present (type_attr e) \<and>
       dpl (type_attr e) = (if v = 128 then 3 else 0)
     else \<not> descriptor_present (type_attr e))"
proof -
  let ?d1 = "d\<lparr>ip := (4095, idt_addr)\<rparr>"
  let ?d2 = "fold (\<lambda>v. idt_set_gate v 0 0 0) (map of_nat [0..<256]) ?d1"
  let ?d3 = "fold (\<lambda>v. idt_set_gate v (stub v) 0x08 0x8E) vectors ?d2"
  have i: "init_idt idt_addr stub d = load_idt (idt_set_gate 128 (stub 128) 0x08 0xEE ?d3)"
    by (simp add: init_idt_def Let_def fold_map comp_def del: upt_rec_numeral)
  have v: "unat v < length (idt d)" "v \<in> set (map of_nat [0..<256])" for v :: u8
    using unsigned_less [of v] assms(1) by (auto simp: image_iff intro!: bexI [of _ "unat v"] simp del: upt_rec_numeral)
  have "gate_is (idt ?d2 ! unat v) 0 0 0"
    using gate_is_fold [of v ?d1 "\<lambda>_. 0" 0 0 "map of_nat [0..<256]" 0 0 0] v by (simp del: upt_rec_numeral)
  then have "gate_is (idt ?d3 ! unat v) (if v \<in> set vectors then stub v else 0) (if v \<in> set vectors then 8 else 0) (if v \<in> set vectors then 0x8E else 0)"
    using gate_is_fold [of v ?d2 stub 8 "0x8E" vectors 0 0 0] v(1) by (simp del: upt_rec_numeral)
  then have "gate_is (idt (init_idt idt_addr stub d) ! unat v) (if v \<in> set vectors \<or> v = 128 then stub v else 0) (if v \<in> set vectors \<or> v = 128 then 8 else 0)
      (if v = 128 then 0xEE else if v \<in> set vectors then 0x8E else 0)"
    using v(1) by (auto simp: i load_idt_def gate_is_set simp del: upt_rec_numeral)
  then show ?thesis
    by (auto simp: Let_def gate_is_def dpl_def descriptor_present_def i load_idt_def drop_bit_eq_div simp del: upt_rec_numeral)
qed

definition tables_boot :: descriptor_tables where
  "tables_boot = \<lparr>gdt = replicate 7 \<lparr>limit_low = 0, base_low = 0, base_middle = 0, access = 0, granularity = 0, base_high = 0\<rparr>,
     gp = (0, 0), idt = replicate 256 \<lparr>offset_low = 0, selector = 0, ist = 0, type_attr = 0, offset_middle = 0, offset_high = 0, zero_dword = 0\<rparr>,
     ip = (0, 0), gdtr = (0, 0), idtr = (0, 0), code_seg = 0, data_segs = 0, task_reg = 0\<rparr>"

theorem init_idt_gates_witness:
  "gate_offset (idt (init_idt 0x5000 (\<lambda>v. 0x100000 + 16 * ucast v) tables_boot) ! 128) = 0x100800 \<and>
   dpl (type_attr (idt (init_idt 0x5000 (\<lambda>v. 0x100000 + 16 * ucast v) tables_boot) ! 128)) = 3 \<and>
   \<not> descriptor_present (type_attr (idt (init_idt 0x5000 (\<lambda>v. 0x100000 + 16 * ucast v) tables_boot) ! 9))"
  using init_idt_gates [of tables_boot "0x5000" "\<lambda>v. 0x100000 + 16 * ucast v" 128]
    init_idt_gates [of tables_boot "0x5000" "\<lambda>v. 0x100000 + 16 * ucast v" 9]
  by (simp add: tables_boot_def vectors_def Let_def)

section \<open>The segment table after initialisation\<close>

lemma granularity_split:
  "((ucast (drop_bit 16 (limit :: u32) AND 0x0F) :: u8) OR (gran AND 0xF0)) AND 0x0F = ucast (drop_bit 16 limit AND 0x0F)"
  "((ucast (drop_bit 16 (limit :: u32) AND 0x0F) :: u8) OR (gran AND 0xF0)) AND 0xF0 = gran AND 0xF0"
proof -
  have f0: "(0xF0 :: u8) = push_bit 4 (mask 4)" by (simp add: mask_eq_exp_minus_1 push_bit_eq_mult)
  show "((ucast (drop_bit 16 limit AND 0x0F) :: u8) OR (gran AND 0xF0)) AND 0x0F = ucast (drop_bit 16 limit AND 0x0F)"
    unfolding f0 hex_masks by (rule bit_word_eqI) (auto simp: bit_simps)
  show "((ucast (drop_bit 16 (limit :: u32) AND 0x0F) :: u8) OR (gran AND 0xF0)) AND 0xF0 = gran AND 0xF0"
    unfolding f0 hex_masks by (rule bit_word_eqI) (auto simp: bit_simps)
qed

lemma limit_split:
  "ucast (ucast (limit AND 0xFFFF) :: u16) OR push_bit 16 (ucast (ucast (drop_bit 16 limit AND 0x0F) :: u8)) = (limit :: u32) AND 0xFFFFF"
proof -
  have f: "(0xFFFFF :: u32) = mask 20" by (simp add: mask_eq_exp_minus_1)
  show ?thesis unfolding f hex_masks
  proof (rule bit_word_eqI, goal_cases)
    case (1 n)
    then show ?case by (cases "n < 16"; cases "n < 20") (auto simp: bit_simps)
  qed
qed

definition segment_is :: "gdt_entry \<Rightarrow> u32 \<Rightarrow> u32 \<Rightarrow> u8 \<Rightarrow> u8 \<Rightarrow> bool" where
  "segment_is e base limit acc gran \<longleftrightarrow>
     seg_base e = base \<and> seg_limit e = limit AND 0xFFFFF \<and> access e = acc \<and> granularity e AND 0xF0 = gran AND 0xF0"

lemma gdt_set_gate_nth:
  "i < length (gdt d) \<Longrightarrow> segment_is (gdt (gdt_set_gate num base limit acc gran d) ! i) b l a g \<longleftrightarrow>
     (if i = num then b = base \<and> l AND 0xFFFFF = limit AND 0xFFFFF \<and> a = acc \<and> g AND 0xF0 = gran AND 0xF0
      else segment_is (gdt d ! i) b l a g)"
  by (auto simp: segment_is_def gdt_set_gate_def seg_base_def seg_limit_def split_base32 limit_split granularity_split nth_list_update)

lemma gdt_length [simp]:
  "length (gdt (gdt_set_gate num base limit acc gran d)) = length (gdt d)" "length (gdt (load_gdt d)) = length (gdt d)"
  by (simp_all add: gdt_set_gate_def load_gdt_def)

lemma gdt_set_tss_decodes:
  assumes "num + 1 < length (gdt d)"
  shows "tss_base (gdt (gdt_set_tss num base limit d) ! num) (gdt (gdt_set_tss num base limit d) ! (num + 1)) = base"
    and "seg_limit (gdt (gdt_set_tss num base limit d) ! num) = limit AND 0xFFFFF"
    and "access (gdt (gdt_set_tss num base limit d) ! num) = 0x89"
    and "i < num \<Longrightarrow> gdt (gdt_set_tss num base limit d) ! i = gdt d ! i"
proof -
  have "ucast (drop_bit 16 limit AND 0x0F) AND (0x0F :: u8) = ucast (drop_bit 16 limit AND 0x0F)"
    using granularity_split(1) [of limit 0] by simp
  then show "seg_limit (gdt (gdt_set_tss num base limit d) ! num) = limit AND 0xFFFFF"
    using assms by (simp add: gdt_set_tss_def Let_def seg_limit_def limit_split)
qed (use assms in \<open>simp_all add: gdt_set_tss_def Let_def tss_base_def seg_base_def split_low32\<close>)

text \<open>
  C36: the segments the kernel runs with.  After \<open>init_gdt\<close> the table register covers the seven
  entries, the null descriptor is not present, and entries 1 to 4 are flat segments: code and data
  of the kernel at privilege 0, code and data of user programs at privilege 3, both code segments
  in 64-bit mode.  Entries 5 and 6 hold the full 64-bit address of the task state segment and its
  limit, and the task register selects them.
\<close>

theorem init_gdt_segments:
  assumes "length (gdt d) = 7"
  shows "let d' = init_gdt gdt_addr tss_addr d; g = gdt d'
    in gdtr d' = (55, gdt_addr) \<and> code_seg d' = 1 * 8 \<and> data_segs d' = 2 * 8 \<and> task_reg d' = 5 * 8 \<and>
      \<not> descriptor_present (access (g ! 0)) \<and>
      (\<forall>i \<in> {1..4}. seg_base (g ! i) = 0 \<and> seg_limit (g ! i) = 0xFFFFF \<and> descriptor_present (access (g ! i)) \<and>
         dpl (access (g ! i)) = (if i \<le> 2 then 0 else 3) \<and>
         bit (access (g ! i)) 3 = odd i \<and> bit (granularity (g ! i)) 5 = odd i) \<and>
      tss_base (g ! 5) (g ! 6) = tss_addr \<and> seg_limit (g ! 5) = 103 \<and> access (g ! 5) = 0x89"
proof -
  define d5 where "d5 = gdt_set_gate 4 0 0xFFFFFFFF 0xF2 0xCF (gdt_set_gate 3 0 0xFFFFFFFF 0xFA 0xAF (gdt_set_gate 2 0 0xFFFFFFFF 0x92 0xCF
    (gdt_set_gate 1 0 0xFFFFFFFF 0x9A 0xAF (gdt_set_gate 0 0 0 0 0 (d\<lparr>gp := (55, gdt_addr)\<rparr>)))))"
  define d' where "d' = init_gdt gdt_addr tss_addr d"
  have d': "d' = (load_gdt (gdt_set_tss 5 tss_addr 103 (load_gdt d5)))\<lparr>task_reg := 0x28\<rparr>"
    by (simp add: d'_def d5_def init_gdt_def Let_def)
  have g: "gdt d' = gdt (gdt_set_tss 5 tss_addr 103 (load_gdt d5))" by (simp add: d' load_gdt_def)
  have l: "length (gdt (load_gdt d5)) = 7" by (simp add: d5_def assms)
  note t = gdt_set_tss_decodes [where num = 5 and d = "load_gdt d5" and base = tss_addr and limit = 103, unfolded l, folded g]
  have low: "gdt d' ! i = gdt d5 ! i" if "i < 5" for i using t(4) that by (simp add: load_gdt_def)
  have segs: "segment_is (gdt d' ! 0) 0 0 0 0" "segment_is (gdt d' ! 1) 0 0xFFFFF 0x9A 0xA0" "segment_is (gdt d' ! 2) 0 0xFFFFF 0x92 0xC0"
      "segment_is (gdt d' ! 3) 0 0xFFFFF 0xFA 0xA0" "segment_is (gdt d' ! 4) 0 0xFFFFF 0xF2 0xC0"
    by (simp_all add: low) (simp_all add: d5_def gdt_set_gate_nth assms)
  have b: "bit x 5 = bit (x AND 0xF0) 5" for x :: u8 by (simp add: bit_and_iff)
  have bits: "x AND 0xF0 = 0xA0 \<Longrightarrow> bit x 5" "x AND 0xF0 = 0xC0 \<Longrightarrow> \<not> bit x 5" for x :: u8
    by (subst b, simp)+
  have four: "{1..4} = {1, 2, 3, 4 :: nat}" by auto
  have regs: "gdtr d' = (55, gdt_addr)" "code_seg d' = 8" "data_segs d' = 16" "task_reg d' = 40"
    by (simp_all add: d' load_gdt_def gdt_set_tss_def Let_def d5_def gdt_set_gate_def)
  show ?thesis using t(1-3) segs regs unfolding d'_def [symmetric] four
    by (simp add: Let_def segment_is_def descriptor_present_def dpl_def drop_bit_eq_div bits)
qed

theorem init_gdt_segments_witness:
  "tss_base (gdt (init_gdt 0x4000 0xFFFF800000201040 tables_boot) ! 5) (gdt (init_gdt 0x4000 0xFFFF800000201040 tables_boot) ! 6)
     = 0xFFFF800000201040 \<and> dpl (access (gdt (init_gdt 0x4000 0xFFFF800000201040 tables_boot) ! 3)) = 3"
  using init_gdt_segments [of tables_boot "0x4000" "0xFFFF800000201040"] by (simp add: tables_boot_def Let_def)

end
