(* ===== verification/Interrupt.thy ===== *)
theory Interrupt
  imports Syscall Keyboard Descriptors
begin

text \<open>
  The way of an interrupt: the stubs of \<open>src/arch/x86_64/asm_functions.s\<close> build the structure
  \<open>registers_t\<close> on the kernel's stack, \<open>isr_handler\<close> of \<open>src/kernel/kernel.c\<close> finds the handler,
  and the common stub restores the registers from the structure.  The stack is a list of 64-bit
  words with the lowest address first.  The scan code that the keyboard delivers and the address
  of a page fault are arguments.
\<close>

section \<open>The stubs\<close>

text \<open>
  What the processor pushes when it delivers an interrupt: an error code for the exceptions that
  have one, below instruction pointer, code segment, flags, stack pointer and stack segment.
\<close>

definition pushes_error_code :: "u8 \<Rightarrow> bool" where
  "pushes_error_code v \<longleftrightarrow> v \<in> {8, 10, 11, 12, 13, 14, 17}"

definition cpu_push :: "u8 \<Rightarrow> u64 \<Rightarrow> registers_t \<Rightarrow> u64 list \<Rightarrow> u64 list" where
  "cpu_push v err g stk =
     (if pushes_error_code v then [err] else []) @ [reg_rip g, reg_cs g, reg_rflags g, reg_rsp g, reg_ss g] @ stk"

text \<open>The stubs by vector; the flag says whether the stub pushes a dummy error code.\<close>

definition isr_stubs :: "(u8 \<times> bool) list" where
  "isr_stubs =
     [(0, True), (1, True), (2, True), (3, True), (4, True), (5, True), (6, True),
      (7, True), (8, False), (10, False), (11, False), (12, False), (13, False), (14, False),
      (16, True), (17, False), (18, True), (19, True), (20, True), (32, True), (33, True),
      (128, True)]"

definition isr_stub :: "u8 \<Rightarrow> u64 list \<Rightarrow> u64 list option" where
  "isr_stub v stk = map_option (\<lambda>dummy. ucast v # (if dummy then 0 # stk else stk)) (map_of isr_stubs v)"

definition isr_common_push :: "registers_t \<Rightarrow> u64 list \<Rightarrow> u64 list" where
  "isr_common_push g stk = fold (#)
     [reg_rax g, reg_rcx g, reg_rdx g, reg_rbx g, reg_rbp g, reg_rsi g, reg_rdi g, reg_r8 g,
      reg_r9 g, reg_r10 g, reg_r11 g, reg_r12 g, reg_r13 g, reg_r14 g, reg_r15 g] stk"

text \<open>The structure as the handler reads it, and as it leaves it on the stack.\<close>

definition registers_at :: "u64 list \<Rightarrow> registers_t" where
  "registers_at stk =
     \<lparr>reg_r15 = stk ! 0, reg_r14 = stk ! 1, reg_r13 = stk ! 2, reg_r12 = stk ! 3, reg_r11 = stk ! 4,
      reg_r10 = stk ! 5, reg_r9 = stk ! 6, reg_r8 = stk ! 7, reg_rdi = stk ! 8, reg_rsi = stk ! 9,
      reg_rbp = stk ! 10, reg_rbx = stk ! 11, reg_rdx = stk ! 12, reg_rcx = stk ! 13, reg_rax = stk ! 14,
      reg_int_no = stk ! 15, reg_err_code = stk ! 16, reg_rip = stk ! 17, reg_cs = stk ! 18, reg_rflags = stk ! 19,
      reg_rsp = stk ! 20, reg_ss = stk ! 21\<rparr>"

definition store_registers :: "registers_t \<Rightarrow> u64 list \<Rightarrow> u64 list" where
  "store_registers regs stk =
     [reg_r15 regs, reg_r14 regs, reg_r13 regs, reg_r12 regs, reg_r11 regs, reg_r10 regs,
      reg_r9 regs, reg_r8 regs, reg_rdi regs, reg_rsi regs, reg_rbp regs, reg_rbx regs,
      reg_rdx regs, reg_rcx regs, reg_rax regs, reg_int_no regs, reg_err_code regs, reg_rip regs,
      reg_cs regs, reg_rflags regs, reg_rsp regs, reg_ss regs] @ drop 22 stk"

text \<open>The end of the common stub: pop the registers, skip interrupt number and error code, return.\<close>

definition isr_common_pop :: "u64 list \<Rightarrow> registers_t \<Rightarrow> registers_t" where
  "isr_common_pop stk g =
     (let rest = drop 17 stk
      in g\<lparr>reg_r15 := stk ! 0, reg_r14 := stk ! 1, reg_r13 := stk ! 2, reg_r12 := stk ! 3, reg_r11 := stk ! 4,
        reg_r10 := stk ! 5, reg_r9 := stk ! 6, reg_r8 := stk ! 7, reg_rdi := stk ! 8, reg_rsi := stk ! 9,
        reg_rbp := stk ! 10, reg_rbx := stk ! 11, reg_rdx := stk ! 12, reg_rcx := stk ! 13, reg_rax := stk ! 14,
        reg_rip := rest ! 0, reg_cs := rest ! 1, reg_rflags := rest ! 2, reg_rsp := rest ! 3, reg_ss := rest ! 4\<rparr>)"

section \<open>The handler\<close>

datatype 's isr_result = Returned registers_t 's | Switched 's | Halted 's | Faulted fault

fun call_handler ::
  "'a kcalls_scheme surroundings \<Rightarrow> u64 \<Rightarrow> u8 \<Rightarrow> isr_t \<Rightarrow> registers_t \<Rightarrow> 'a kcalls_scheme \<Rightarrow> 'a kcalls_scheme isr_result" where
  "call_handler e cr2 scancode Timer_callback regs s =
     (case timer_callback s of (switched, s') \<Rightarrow> if switched then Switched s' else Returned regs s')"
| "call_handler e cr2 scancode Keyboard_callback regs s = Returned regs (keyboard_callback (env_find e) scancode s)"
| "call_handler e cr2 scancode Syscall_handler regs s =
     (case syscall_handler e regs s of
        Inl f \<Rightarrow> Faulted f
      | Inr (None, s') \<Rightarrow> Switched s'
      | Inr (Some regs', s') \<Rightarrow> Returned regs' s')"
| "call_handler e cr2 scancode Invalid_opcode_handler regs s = Halted (invalid_opcode_handler regs s)"
| "call_handler e cr2 scancode Double_fault_handler regs s = Halted (double_fault_handler regs s)"
| "call_handler e cr2 scancode Stack_fault_handler regs s = Halted (stack_fault_handler regs s)"
| "call_handler e cr2 scancode General_protection_fault_handler regs s = Halted (general_protection_fault_handler regs s)"
| "call_handler e cr2 scancode Page_fault_handler regs s = Halted (page_fault_handler cr2 regs s)"

definition isr_handler ::
  "'a kcalls_scheme surroundings \<Rightarrow> u64 \<Rightarrow> u8 \<Rightarrow> registers_t \<Rightarrow> 'a kcalls_scheme \<Rightarrow> 'a kcalls_scheme isr_result" where
  "isr_handler e cr2 scancode regs s =
     (if reg_int_no regs < 32 then Halted (exception_handler regs s)
      else if 256 \<le> reg_int_no regs then Faulted OutOfBounds
      else case interrupt_handlers s (unat (reg_int_no regs)) of
        Some handler \<Rightarrow> call_handler e cr2 scancode handler regs s
      | None \<Rightarrow> Returned regs (terminal_writestring ''\<newline>'' (terminal_writestring ''Unhandled interrupt: '' s)))"

text \<open>An interrupt from its delivery to the return to the program, whose registers are \<open>g\<close>.\<close>

definition interrupt ::
  "'a kcalls_scheme surroundings \<Rightarrow> u64 \<Rightarrow> u8 \<Rightarrow> u8 \<Rightarrow> u64 \<Rightarrow> registers_t \<Rightarrow> 'a kcalls_scheme \<Rightarrow> 'a kcalls_scheme isr_result option" where
  "interrupt e cr2 scancode v err g s =
     map_option (\<lambda>stk1. let stk = isr_common_push g stk1
       in case isr_handler e cr2 scancode (registers_at stk) s of
         Returned regs s' \<Rightarrow> Returned (isr_common_pop (store_registers regs stk) g) s'
       | r \<Rightarrow> r)
     (isr_stub v (cpu_push v err g []))"

section \<open>Registers survive an interrupt\<close>

lemma stub_vectors: "fst ` set isr_stubs = insert 128 (set vectors)"
  by (auto simp: isr_stubs_def vectors_def)

lemma stub_dummy: "map_of isr_stubs v = Some dummy \<Longrightarrow> dummy = (\<not> pushes_error_code v)"
  by (auto simp: isr_stubs_def pushes_error_code_def split: if_splits)

lemma isr_stub_frame:
  assumes "v \<in> set vectors \<or> v = 128"
  shows "isr_stub v (cpu_push v err g stk) =
    Some (ucast v # (if pushes_error_code v then err else 0) # [reg_rip g, reg_cs g, reg_rflags g, reg_rsp g, reg_ss g] @ stk)"
proof -
  have "v \<in> fst ` set isr_stubs" using assms by (auto simp: stub_vectors)
  then obtain dummy where "map_of isr_stubs v = Some dummy" using map_of_eq_None_iff [of isr_stubs v] by auto
  then show ?thesis using stub_dummy [of v dummy] by (simp add: isr_stub_def cpu_push_def)
qed

lemma registers_at_push:
  "registers_at (isr_common_push g (i # c # [reg_rip g, reg_cs g, reg_rflags g, reg_rsp g, reg_ss g] @ stk)) = g\<lparr>reg_int_no := i, reg_err_code := c\<rparr>"
  by (cases g) (simp add: registers_at_def isr_common_push_def)

lemma isr_common_pop_store:
  "isr_common_pop (store_registers regs stk) g = regs\<lparr>reg_int_no := reg_int_no g, reg_err_code := reg_err_code g\<rparr>"
  by (cases regs, cases g) (simp add: isr_common_pop_def store_registers_def)

definition int_frame :: "u8 \<Rightarrow> u64 \<Rightarrow> registers_t \<Rightarrow> registers_t" where
  "int_frame v err g = g\<lparr>reg_int_no := ucast v, reg_err_code := if pushes_error_code v then err else 0\<rparr>"

lemma interrupt_eq:
  assumes "v \<in> set vectors \<or> v = 128"
  shows "interrupt e cr2 scancode v err g s = Some (case isr_handler e cr2 scancode (int_frame v err g) s of
      Returned regs s' \<Rightarrow> Returned (regs\<lparr>reg_int_no := reg_int_no g, reg_err_code := reg_err_code g\<rparr>) s'
    | r \<Rightarrow> r)"
  using registers_at_push [where stk = "[]"]
  by (simp add: interrupt_def isr_stub_frame [OF assms] isr_common_pop_store Let_def int_frame_def cong: isr_result.case_cong)

text \<open>
  C35: a processor exception stops the kernel with a full report.  Whatever handlers are registered,
  an exception that has a stub ends in a halt that changes nothing but the screen; the screen shows
  the message of that exception and, for each register of the interrupted program and for the
  interrupt number and the error code, sixteen hexadecimal digits that read back to its value.
\<close>

theorem cpu_exception_halts:
  assumes "v \<in> set vectors" "v < 32"
  shows "\<exists>s'. interrupt e cr2 scancode v err g s = Some (Halted s') \<and> (\<exists>t. s' = s\<lparr>console := console s @ t\<rparr>) \<and>
    (\<exists>pre post. console s' = pre @ exception_messages ! unat v @ post) \<and>
    (\<forall>(label, x) \<in> set (register_dump (int_frame v err g)).
       \<exists>pre ds post. console s' = pre @ (label @ '': 0x'' @ ds) @ post \<and> length ds = 16 \<and> hex_value ds = unat x)"
proof -
  let ?regs = "int_frame v err g" and ?msg = "exception_messages ! unat v"
  let ?s' = "panic_with_regs ?msg ?regs s"
  have n: "reg_int_no ?regs < 32" "unat (reg_int_no ?regs) = unat v"
    using assms(2) by (simp_all add: int_frame_def word_less_nat_alt unsigned_ucast_eq take_bit_nat_eq_self)
  have "interrupt e cr2 scancode v err g s = Some (Halted ?s')"
    using assms(1) n by (simp add: interrupt_eq isr_handler_def exception_handler_def)
  moreover have "\<exists>t. ?s' = s\<lparr>console := console s @ t\<rparr>" by (rule extends_panic [unfolded extends_def, rule_format])
  moreover have "\<exists>pre ds post. console ?s' = pre @ (label @ '': 0x'' @ ds) @ post \<and> length ds = 16 \<and> hex_value ds = unat x"
    if l: "(label, x) \<in> set (register_dump ?regs)" for label x
  proof -
    obtain pre post where "console ?s' = pre @ (label @ '': 0x'' @ hex16 x) @ post" using panic_shows_register [OF l] by blast
    moreover have "length (hex16 x) = 16" by (simp add: hex16_def hex_shifts_def)
    ultimately show ?thesis using hex_value_hex16 by blast
  qed
  ultimately show ?thesis using panic_shows_message [of ?msg ?regs s] by blast
qed

section \<open>System calls\<close>

text \<open>
  C3: the system call interface.  With the table that \<open>init_syscalls\<close> leaves, a program that executes
  INT 0x80 gets the effect of calling the kernel function of the number in RAX on the arguments in
  RDI, RSI, RDX, R10 and R8, as if the stubs, the structure on the stack and the table were not
  there: the result is in RAX, no other register of the program changes, and a number without a
  function leaves the kernel unchanged and gives -1.
\<close>

theorem int80_dispatch:
  assumes "syscalls_installed s"
  shows "interrupt e cr2 scancode 128 err g s = Some (case map_of syscall_numbers (reg_rax g) of
      None \<Rightarrow> Returned (g\<lparr>reg_rax := - 1\<rparr>) s
    | Some f \<Rightarrow> (case call_syscall e f (reg_rdi g) (reg_rsi g) (reg_rdx g) (reg_r10 g) (reg_r8 g) s of
        Inl flt \<Rightarrow> Faulted flt
      | Inr (None, s') \<Rightarrow> Switched s'
      | Inr (Some r, s') \<Rightarrow> Returned (g\<lparr>reg_rax := r\<rparr>) s'))"
proof -
  have h: "interrupt_handlers s 128 = Some Syscall_handler" using assms by (simp add: syscalls_installed_def)
  have "isr_handler e cr2 scancode (int_frame 128 err g) s = call_handler e cr2 scancode Syscall_handler (int_frame 128 err g) s"
    by (simp add: isr_handler_def int_frame_def h)
  then show ?thesis
    by (simp add: interrupt_eq syscall_handler_number [OF assms] int_frame_def bind_res_def split: option.splits sum.splits prod.splits)
qed

section \<open>Examples\<close>

definition calls_demo :: kcalls where
  "calls_demo = init_syscalls (ksys.extend
     ((kdev.extend kdev_boot \<lparr>ramfs = ramfs_zero, nodes_base = 0x300000\<rparr>)
       \<lparr>procs := (\<lambda>_. zero_process)(0x100 := zero_process\<lparr>pid := 7\<rparr>), current_process := 0x100\<rparr>)
     \<lparr>syscall_table = []\<rparr>)"

definition env_demo :: "kcalls surroundings" where
  "env_demo = \<lparr>env_irq = (\<lambda>_ s. s), env_va_pa = (\<lambda>a. a), env_clock = of_nat, env_find = (\<lambda>_ _. 0), env_code = (\<lambda>_. 0x100000)\<rparr>"

definition program_demo :: "u64 \<Rightarrow> registers_t" where
  "program_demo n = (registers_at (replicate 22 0))\<lparr>reg_rax := n, reg_rip := 0x400010, reg_cs := 0x1B\<rparr>"

theorem int80_dispatch_witness:
  "interrupt env_demo 0 0 128 0 (program_demo 4) calls_demo = Some (Returned ((program_demo 4)\<lparr>reg_rax := 7\<rparr>) calls_demo) \<and>
   interrupt env_demo 0 0 128 0 (program_demo 99) calls_demo = Some (Returned ((program_demo 99)\<lparr>reg_rax := - 1\<rparr>) calls_demo)"
proof -
  have i: "syscalls_installed calls_demo" unfolding calls_demo_def by (rule init_syscalls_installs)
  have "sys_getpid calls_demo = 7"
    by (simp add: sys_getpid_def process_get_pid_def process_get_current_def calls_demo_def init_syscalls_def Let_def
        terminal_writestring_eq register_interrupt_handler_def ksys.defs kdev.defs)
  then show ?thesis
    using int80_dispatch [OF i, of env_demo 0 0 0 "program_demo 4"] int80_dispatch [OF i, of env_demo 0 0 0 "program_demo 99"]
    by (simp add: program_demo_def syscall_numbers_def)
qed

theorem cpu_exception_halts_witness:
  "\<exists>s'. interrupt env_demo 0 0 14 2 (program_demo 4) calls_demo = Some (Halted s') \<and>
    (\<exists>pre post. console s' = pre @ ''Page Fault'' @ post) \<and>
    (\<exists>pre ds post. console s' = pre @ (''RIP: 0x'' @ ds) @ post \<and> length ds = 16 \<and> hex_value ds = 0x400010)"
proof -
  have "14 \<in> set vectors" "(14 :: u8) < 32" by (simp_all add: vectors_def)
  from cpu_exception_halts [OF this, of env_demo 0 0 2 "program_demo 4" calls_demo]
  show ?thesis by (auto simp: register_dump_def int_frame_def program_demo_def exception_messages_def)
qed

end
