(* ===== verification/Terminal.thy ===== *)
theory Terminal
  imports Prelude
begin

text \<open>
  The VGA text terminal (\<open>src/src/drivers/terminal.c\<close>) and the four virtual terminals
  (\<open>src/src/drivers/vt.c\<close>).  The state is the text buffer at 0xB8000, the statics of the two
  files and the bytes sent to the cursor ports.  A write outside of the 2000 cells of a buffer is
  the fault \<open>OutOfBounds\<close>.  The reference of the VGA terminal is a tape that never scrolls.
\<close>

section \<open>State\<close>

datatype vga_color =
    VGA_COLOR_BLACK | VGA_COLOR_BLUE | VGA_COLOR_GREEN | VGA_COLOR_CYAN
  | VGA_COLOR_RED | VGA_COLOR_MAGENTA | VGA_COLOR_BROWN | VGA_COLOR_LIGHT_GREY
  | VGA_COLOR_DARK_GREY | VGA_COLOR_LIGHT_BLUE | VGA_COLOR_LIGHT_GREEN | VGA_COLOR_LIGHT_CYAN
  | VGA_COLOR_LIGHT_RED | VGA_COLOR_LIGHT_MAGENTA | VGA_COLOR_LIGHT_BROWN | VGA_COLOR_WHITE

fun color_code :: "vga_color \<Rightarrow> u8" where
  "color_code VGA_COLOR_BLACK = 0"
| "color_code VGA_COLOR_BLUE = 1"
| "color_code VGA_COLOR_GREEN = 2"
| "color_code VGA_COLOR_CYAN = 3"
| "color_code VGA_COLOR_RED = 4"
| "color_code VGA_COLOR_MAGENTA = 5"
| "color_code VGA_COLOR_BROWN = 6"
| "color_code VGA_COLOR_LIGHT_GREY = 7"
| "color_code VGA_COLOR_DARK_GREY = 8"
| "color_code VGA_COLOR_LIGHT_BLUE = 9"
| "color_code VGA_COLOR_LIGHT_GREEN = 10"
| "color_code VGA_COLOR_LIGHT_CYAN = 11"
| "color_code VGA_COLOR_LIGHT_RED = 12"
| "color_code VGA_COLOR_LIGHT_MAGENTA = 13"
| "color_code VGA_COLOR_LIGHT_BROWN = 14"
| "color_code VGA_COLOR_WHITE = 15"

record virtual_terminal_t =
  vt_buffer :: "u16 list"
  cursor_x :: u16
  cursor_y :: u16
  vt_color :: u8
  active :: int
  shell_pid :: int

record display =
  VGA_BUFFER :: "u16 list"
  terminal_row :: u64
  terminal_column :: u64
  terminal_color :: u8
  vt_enabled :: bool
  terminals :: "virtual_terminal_t list"
  current_terminal :: int
  cursor_ports :: "(u16 \<times> u8) list"

abbreviation (input) VGA_WIDTH :: nat where "VGA_WIDTH \<equiv> 80"
abbreviation (input) VGA_HEIGHT :: nat where "VGA_HEIGHT \<equiv> 25"
abbreviation (input) NUM_VIRTUAL_TERMINALS :: int where "NUM_VIRTUAL_TERMINALS \<equiv> 4"

text \<open>\<open>(uint16_t)c | (uint16_t)color << 8\<close>; \<open>char\<close> is signed.\<close>

definition cell :: "char \<Rightarrow> u8 \<Rightarrow> u16" where
  "cell c color = scast (of_char c :: u8) OR push_bit 8 (ucast color)"

definition put_cell :: "nat \<Rightarrow> u16 \<Rightarrow> u16 list \<Rightarrow> u16 list res" where
  "put_cell i v buf = (if i < length buf then Inr (buf[i := v]) else Inl OutOfBounds)"

text \<open>The copying loop \<open>buf[i] = buf[i + k]\<close> for the listed indices.\<close>

definition copy_down :: "nat \<Rightarrow> nat list \<Rightarrow> u16 list \<Rightarrow> u16 list" where
  "copy_down k is buf = fold (\<lambda>i b. b[i := b ! (i + k)]) is buf"

definition fill_cells :: "u16 \<Rightarrow> nat list \<Rightarrow> u16 list \<Rightarrow> u16 list" where
  "fill_cells v is buf = fold (\<lambda>i b. b[i := v]) is buf"

section \<open>Virtual terminals\<close>

definition set_cursor :: "u16 \<Rightarrow> u16 \<Rightarrow> display \<Rightarrow> display" where
  "set_cursor x y d =
     (let pos = y * 80 + x
      in d\<lparr>cursor_ports := cursor_ports d @
           [(0x3D4, 0x0F), (0x3D5, ucast (pos AND 0xFF)), (0x3D4, 0x0E), (0x3D5, ucast (drop_bit 8 pos AND 0xFF))]\<rparr>)"

definition indicator :: "int \<Rightarrow> string" where
  "indicator n = [''[F1]'', ''[F2]'', ''[F3]'', ''[F4]''] ! nat n"

definition current_vt :: "display \<Rightarrow> virtual_terminal_t" where
  "current_vt d = terminals d ! nat (current_terminal d)"

definition set_current_vt :: "virtual_terminal_t \<Rightarrow> display \<Rightarrow> display" where
  "set_current_vt vt d = d\<lparr>terminals := (terminals d)[nat (current_terminal d) := vt]\<rparr>"

definition vt_refresh :: "display \<Rightarrow> display" where
  "vt_refresh d =
     (let ind = indicator (current_terminal d);
          vga = vt_buffer (current_vt d) @ drop 2000 (VGA_BUFFER d)
      in d\<lparr>VGA_BUFFER := fold (\<lambda>i b. b[76 + i := cell (ind ! i) 0x1F]) [0..<length ind] vga\<rparr>)"

definition vt_init :: "display \<Rightarrow> display" where
  "vt_init d =
     (let clear = (\<lambda>vt. vt\<lparr>vt_buffer := fill_cells (cell (CHR '' '') 0x0F) [0..<2000] (vt_buffer vt),
            cursor_x := 0, cursor_y := 0, vt_color := 0x0F, active := 0, shell_pid := - 1\<rparr>);
          ts = map clear (terminals d)
      in vt_refresh (d\<lparr>terminals := ts[0 := (ts ! 0)\<lparr>active := 1\<rparr>]\<rparr>))"

definition vt_switch :: "int \<Rightarrow> display \<Rightarrow> display" where
  "vt_switch terminal d =
     (if terminal < 0 \<or> NUM_VIRTUAL_TERMINALS \<le> terminal then d
      else if terminal = current_terminal d then d
      else let d1 = d\<lparr>current_terminal := terminal\<rparr>;
               d2 = set_current_vt ((current_vt d1)\<lparr>active := 1\<rparr>) d1;
               d3 = vt_refresh d2
           in set_cursor (cursor_x (current_vt d3)) (cursor_y (current_vt d3)) d3)"

definition vt_get_current :: "display \<Rightarrow> int" where
  "vt_get_current d = current_terminal d"

definition vt_wrap :: "virtual_terminal_t \<Rightarrow> virtual_terminal_t" where
  "vt_wrap vt = (if 80 \<le> cursor_x vt then vt\<lparr>cursor_x := 0, cursor_y := cursor_y vt + 1\<rparr> else vt)"

definition vt_scroll :: "virtual_terminal_t \<Rightarrow> virtual_terminal_t" where
  "vt_scroll vt =
     (if 25 \<le> cursor_y vt then
        vt\<lparr>vt_buffer := fill_cells (cell (CHR '' '') (vt_color vt)) [1920..<2000] (copy_down 80 [0..<1920] (vt_buffer vt)),
           cursor_y := 24\<rparr>
      else vt)"

text \<open>The part of \<open>vt_putchar\<close> that changes the terminal's own structure.\<close>

definition vt_put :: "char \<Rightarrow> virtual_terminal_t \<Rightarrow> virtual_terminal_t res" where
  "vt_put c vt =
     (if c = CHR 0x0A then Inr (vt\<lparr>cursor_x := 0, cursor_y := cursor_y vt + 1\<rparr>)
      else if c = CHR 0x0D then Inr (vt\<lparr>cursor_x := 0\<rparr>)
      else if c = CHR 0x08 then
        (if 0 < cursor_x vt then
           let x = cursor_x vt - 1
           in bind_res (put_cell (unat (cursor_y vt) * 80 + unat x) (cell (CHR '' '') (vt_color vt)) (vt_buffer vt))
                (\<lambda>buf. Inr (vt\<lparr>vt_buffer := buf, cursor_x := x\<rparr>))
         else Inr vt)
      else if c = CHR 0x09 then Inr (vt\<lparr>cursor_x := (cursor_x vt + 8) AND NOT 7\<rparr>)
      else if 32 \<le> (of_char c :: nat) \<and> (of_char c :: nat) < 127 then
        let v = vt_scroll (vt_wrap vt)
        in bind_res (put_cell (unat (cursor_y v) * 80 + unat (cursor_x v)) (cell c (vt_color v)) (vt_buffer v))
             (\<lambda>buf. Inr (v\<lparr>vt_buffer := buf, cursor_x := cursor_x v + 1\<rparr>))
      else Inr vt)"

definition vt_putchar :: "char \<Rightarrow> display \<Rightarrow> display res" where
  "vt_putchar c d =
     bind_res (vt_put c (current_vt d)) (\<lambda>vt.
       Inr (set_cursor (cursor_x vt) (cursor_y vt) (vt_refresh (set_current_vt vt d))))"

fun vt_writestring :: "string \<Rightarrow> display \<Rightarrow> display res" where
  "vt_writestring [] d = Inr d"
| "vt_writestring (c # cs) d = bind_res (vt_putchar c d) (vt_writestring cs)"

definition vt_clear :: "display \<Rightarrow> display" where
  "vt_clear d =
     (let vt = current_vt d;
          vt' = vt\<lparr>vt_buffer := fill_cells (cell (CHR '' '') (vt_color vt)) [0..<2000] (vt_buffer vt), cursor_x := 0, cursor_y := 0\<rparr>
      in set_cursor 0 0 (vt_refresh (set_current_vt vt' d)))"

definition vt_get :: "int \<Rightarrow> display \<Rightarrow> virtual_terminal_t option" where
  "vt_get terminal d =
     (if terminal < 0 \<or> NUM_VIRTUAL_TERMINALS \<le> terminal then None else Some (terminals d ! nat terminal))"

section \<open>The VGA terminal\<close>

definition terminal_scroll :: "display \<Rightarrow> display" where
  "terminal_scroll d =
     d\<lparr>VGA_BUFFER := fill_cells (cell (CHR '' '') (terminal_color d)) (map (\<lambda>x. (VGA_HEIGHT - 1) * VGA_WIDTH + x) [0..<VGA_WIDTH])
         (fold (\<lambda>y. copy_down VGA_WIDTH (map (\<lambda>x. y * VGA_WIDTH + x) [0..<VGA_WIDTH])) [0..<VGA_HEIGHT - 1] (VGA_BUFFER d)),
       terminal_row := 24\<rparr>"

definition terminal_newline :: "display \<Rightarrow> display" where
  "terminal_newline d =
     (let d1 = d\<lparr>terminal_column := 0, terminal_row := terminal_row d + 1\<rparr>
      in if terminal_row d1 = 25 then terminal_scroll d1 else d1)"

definition terminal_putchar :: "char \<Rightarrow> display \<Rightarrow> display res" where
  "terminal_putchar c d =
     (if vt_enabled d then vt_putchar c d
      else if c = CHR 0x0A then Inr (terminal_newline d)
      else if c = CHR 0x0D then Inr (d\<lparr>terminal_column := 0\<rparr>)
      else if c = CHR 0x08 then
        (if 0 < terminal_column d then
           let col = terminal_column d - 1
           in bind_res (put_cell (unat (terminal_row d * 80 + col)) (cell (CHR '' '') (terminal_color d)) (VGA_BUFFER d))
                (\<lambda>buf. Inr (d\<lparr>terminal_column := col, VGA_BUFFER := buf\<rparr>))
         else Inr d)
      else bind_res (put_cell (unat (terminal_row d * 80 + terminal_column d)) (cell c (terminal_color d)) (VGA_BUFFER d))
        (\<lambda>buf. let d1 = d\<lparr>VGA_BUFFER := buf, terminal_column := terminal_column d + 1\<rparr>
          in Inr (if terminal_column d1 = 80 then terminal_newline d1 else d1)))"

fun terminal_write :: "string \<Rightarrow> display \<Rightarrow> display res" where
  "terminal_write [] d = Inr d"
| "terminal_write (c # cs) d = bind_res (terminal_putchar c d) (terminal_write cs)"

definition init_vga :: "display \<Rightarrow> display" where
  "init_vga d =
     (let color = color_code VGA_COLOR_LIGHT_GREY OR push_bit 4 (color_code VGA_COLOR_BLACK)
      in d\<lparr>VGA_BUFFER := fold (\<lambda>y. fill_cells (cell (CHR '' '') color) (map (\<lambda>x. y * VGA_WIDTH + x) [0..<VGA_WIDTH]))
             [0..<VGA_HEIGHT] (VGA_BUFFER d),
           terminal_row := 0, terminal_column := 0, terminal_color := color\<rparr>)"

definition terminal_enable_vt :: "display \<Rightarrow> display" where
  "terminal_enable_vt d = d\<lparr>vt_enabled := True\<rparr>"

section \<open>Loops over cells\<close>

lemma copy_down_snoc: "copy_down k (is @ [i]) buf = (copy_down k is buf)[i := copy_down k is buf ! (i + k)]"
  by (simp add: copy_down_def)

lemma copy_down_upt: "n + k \<le> length buf \<Longrightarrow> 0 < k \<Longrightarrow> copy_down k [0..<n] buf = take n (drop k buf) @ drop n buf"
proof (induction n)
  case 0
  show ?case by (simp add: copy_down_def)
next
  case (Suc n)
  let ?b = "take n (drop k buf) @ drop n buf"
  have "copy_down k [0..<Suc n] buf = ?b[n := ?b ! (n + k)]" using Suc by (simp add: copy_down_snoc)
  moreover have "?b ! (n + k) = buf ! (n + k)" using Suc.prems by (simp add: nth_append)
  moreover have "drop n buf = buf ! n # drop (Suc n) buf" using Suc.prems by (intro Cons_nth_drop_Suc [symmetric]) simp
  moreover have "take (Suc n) (drop k buf) = take n (drop k buf) @ [buf ! (n + k)]"
    using Suc.prems by (simp add: take_Suc_conv_app_nth add.commute)
  ultimately show ?case using Suc.prems by (simp add: list_update_append)
qed

lemma fill_cells_upt:
  "a \<le> b \<Longrightarrow> b \<le> length buf \<Longrightarrow> fill_cells v [a..<b] buf = take a buf @ replicate (b - a) v @ drop b buf"
proof (induction "b - a" arbitrary: b)
  case 0
  then show ?case by (simp add: fill_cells_def)
next
  case (Suc n)
  then obtain b' where b: "b = Suc b'" "a \<le> b'" by (cases b) auto
  then have "fill_cells v [a..<b] buf = (take a buf @ replicate (b' - a) v @ drop b' buf)[b' := v]"
    using Suc by (simp add: fill_cells_def)
  moreover have "drop b' buf = buf ! b' # drop b buf" using Suc.prems b by (simp add: Cons_nth_drop_Suc)
  moreover have "replicate (b - a) v = replicate (b' - a) v @ [v]" using b by (simp add: Suc_diff_le replicate_append_same)
  ultimately show ?case using b Suc.prems by (simp add: list_update_append)
qed

lemma rows_upt: "concat (map (\<lambda>y. map (\<lambda>x. y * w + x) [0..<w]) [0..<n]) = [0..<n * w]"
proof (induction n)
  case (Suc n)
  have "[0..<Suc n * w] = [0..<n * w] @ [n * w..<n * w + w]" by (metis add.commute mult_Suc upt_add_eq_append zero_le)
  moreover have "map (\<lambda>x. n * w + x) [0..<w] = [n * w..<n * w + w]" by (simp add: map_add_upt add.commute)
  ultimately show ?case using Suc by simp
qed simp

lemma fold_copy_down: "fold (\<lambda>y. copy_down k (g y)) ys buf = copy_down k (concat (map g ys)) buf"
  by (induction ys arbitrary: buf) (simp_all add: copy_down_def)

lemma fold_fill_cells: "fold (\<lambda>y. fill_cells v (g y)) ys buf = fill_cells v (concat (map g ys)) buf"
  by (induction ys arbitrary: buf) (simp_all add: fill_cells_def)

lemma scroll_cells:
  assumes "length buf = 2000"
  shows "fill_cells v [1920..<2000] (copy_down 80 [0..<1920] buf) = drop 80 buf @ replicate 80 v"
proof -
  have c: "copy_down 80 [0..<1920] buf = drop 80 buf @ drop 1920 buf" using assms copy_down_upt [of 1920 80 buf] by simp
  show ?thesis unfolding c using assms fill_cells_upt [of 1920 2000 "drop 80 buf @ drop 1920 buf" v] by (simp del: upt_Suc upt_rec_numeral)
qed

lemma terminal_scroll_eq:
  assumes "length (VGA_BUFFER d) = 2000"
  shows "terminal_scroll d = d\<lparr>VGA_BUFFER := drop 80 (VGA_BUFFER d) @ replicate 80 (cell (CHR '' '') (terminal_color d)), terminal_row := 24\<rparr>"
proof -
  have "map (\<lambda>x. (VGA_HEIGHT - 1) * VGA_WIDTH + x) [0..<VGA_WIDTH] = [1920..<2000]" using map_add_upt [of 1920 80] by (simp add: add.commute)
  moreover have "concat (map (\<lambda>y. map (\<lambda>x. y * VGA_WIDTH + x) [0..<VGA_WIDTH]) [0..<VGA_HEIGHT - 1]) = [0..<1920]"
    unfolding rows_upt by simp
  ultimately show ?thesis unfolding terminal_scroll_def fold_copy_down
    by (simp only: scroll_cells [OF assms])
qed

section \<open>The terminal shows the end of a tape\<close>

record tape =
  tape_rows :: "u16 list list"
  tape_row :: nat
  tape_column :: nat
  tape_color :: u8

definition blank_row :: "u8 \<Rightarrow> u16 list" where
  "blank_row color = replicate 80 (cell (CHR '' '') color)"

definition blank_tape :: "u8 \<Rightarrow> tape" where
  "blank_tape color = \<lparr>tape_rows = replicate 25 (blank_row color), tape_row = 0, tape_column = 0, tape_color = color\<rparr>"

definition tape_write :: "u16 \<Rightarrow> tape \<Rightarrow> tape" where
  "tape_write v t = t\<lparr>tape_rows := (tape_rows t)[tape_row t := (tape_rows t ! tape_row t)[tape_column t := v]]\<rparr>"

definition tape_newline :: "tape \<Rightarrow> tape" where
  "tape_newline t =
     t\<lparr>tape_rows := (if tape_row t + 1 = length (tape_rows t) then tape_rows t @ [blank_row (tape_color t)] else tape_rows t),
       tape_row := tape_row t + 1, tape_column := 0\<rparr>"

definition tape_putchar :: "char \<Rightarrow> tape \<Rightarrow> tape" where
  "tape_putchar c t =
     (if c = CHR 0x0A then tape_newline t
      else if c = CHR 0x0D then t\<lparr>tape_column := 0\<rparr>
      else if c = CHR 0x08 then
        (if 0 < tape_column t then tape_write (cell (CHR '' '') (tape_color t)) (t\<lparr>tape_column := tape_column t - 1\<rparr>) else t)
      else let t1 = tape_write (cell c (tape_color t)) t
           in if tape_column t + 1 = 80 then tape_newline t1 else t1\<lparr>tape_column := tape_column t + 1\<rparr>)"

definition tape_inv :: "tape \<Rightarrow> bool" where
  "tape_inv t \<longleftrightarrow> 25 \<le> length (tape_rows t) \<and> (\<forall>r \<in> set (tape_rows t). length r = 80) \<and>
     length (tape_rows t) - 25 \<le> tape_row t \<and> tape_row t < length (tape_rows t) \<and> tape_column t < 80"

definition tape_window :: "tape \<Rightarrow> u16 list" where
  "tape_window t = concat (drop (length (tape_rows t) - 25) (tape_rows t))"

definition shows_tape :: "tape \<Rightarrow> display \<Rightarrow> bool" where
  "shows_tape t d \<longleftrightarrow> \<not> vt_enabled d \<and> VGA_BUFFER d = tape_window t \<and>
     unat (terminal_row d) = tape_row t - (length (tape_rows t) - 25) \<and>
     unat (terminal_column d) = tape_column t \<and> terminal_color d = tape_color t"

lemma length_rows: "\<forall>r \<in> set rs. length r = w \<Longrightarrow> length (concat rs) = length rs * w"
  by (induction rs) auto

lemma tape_window_length: "tape_inv t \<Longrightarrow> length (tape_window t) = 2000"
  unfolding tape_window_def tape_inv_def by (subst length_rows [where w = 80]) (auto dest: in_set_dropD)

lemma concat_update:
  "\<forall>r \<in> set rs. length r = w \<Longrightarrow> i < length rs \<Longrightarrow> j < w \<Longrightarrow>
     (concat rs)[i * w + j := v] = concat (rs[i := (rs ! i)[j := v]])"
proof (induction rs arbitrary: i)
  case (Cons r rs)
  then show ?case
  proof (cases i)
    case (Suc k)
    have "(concat (r # rs))[i * w + j := v] = r @ (concat rs)[k * w + j := v]"
      using Cons.prems Suc by (simp add: list_update_append ac_simps)
    then show ?thesis using Cons Suc by simp
  qed (simp add: list_update_append)
qed simp

lemma tape_write_inv: "tape_inv t \<Longrightarrow> tape_inv (tape_write v t)"
  unfolding tape_inv_def by (auto simp: tape_write_def dest!: set_update_subset_insert [THEN subsetD])

lemma tape_write_window:
  assumes "tape_inv t"
  shows "tape_window (tape_write v t) =
    (tape_window t)[(tape_row t - (length (tape_rows t) - 25)) * 80 + tape_column t := v]"
proof -
  let ?n = "length (tape_rows t) - 25" and ?r = "tape_rows t"
  let ?i = "tape_row t - ?n"
  have i: "?n + ?i = tape_row t" "?i < length (drop ?n ?r)" using assms by (auto simp: tape_inv_def)
  have "drop ?n (?r[tape_row t := x]) = (drop ?n ?r)[?i := x]" for x
    using assms by (simp add: drop_update_swap tape_inv_def)
  moreover have "drop ?n ?r ! ?i = ?r ! tape_row t" using i by simp
  moreover have "\<forall>r \<in> set (drop ?n ?r). length r = 80" using assms by (auto simp: tape_inv_def dest: in_set_dropD)
  ultimately show ?thesis
    using concat_update [of "drop ?n ?r" 80 ?i "tape_column t" v] i assms
    by (simp add: tape_window_def tape_write_def tape_inv_def)
qed

lemma tape_newline_inv: "tape_inv t \<Longrightarrow> tape_inv (tape_newline t)"
  by (auto simp: tape_inv_def tape_newline_def blank_row_def)

lemma unat_row_add: "unat (r :: u64) < 80 \<Longrightarrow> unat (r + 1) = unat r + 1"
  by (subst unat_add_no_wrap) simp_all

lemma newline_shows_tape:
  assumes t: "tape_inv t" and d: "shows_tape t d"
  shows "shows_tape (tape_newline t) (terminal_newline d)"
proof -
  let ?n = "length (tape_rows t) - 25"
  have row: "unat (terminal_row d) = tape_row t - ?n" "unat (terminal_row d) < 25"
    and len: "length (VGA_BUFFER d) = 2000"
    using t d tape_window_length [OF t] by (auto simp: shows_tape_def tape_inv_def)
  have row1: "unat (terminal_row d + 1) = tape_row t - ?n + 1" using row by (simp add: unat_row_add)
  then have full: "terminal_row d + 1 = 25 \<longleftrightarrow> tape_row t + 1 = length (tape_rows t)"
    using t by (auto simp: word_unat_eq_iff tape_inv_def)
  show ?thesis
  proof (cases "tape_row t + 1 = length (tape_rows t)")
    case False
    then show ?thesis using d row1 full t
      by (simp add: shows_tape_def terminal_newline_def tape_newline_def tape_window_def Let_def tape_inv_def) arith
  next
    case True
    let ?d1 = "d\<lparr>terminal_column := 0, terminal_row := terminal_row d + 1\<rparr>"
    have "terminal_newline d = terminal_scroll ?d1" using True full by (simp add: terminal_newline_def)
    also have "\<dots> = ?d1\<lparr>VGA_BUFFER := drop 80 (tape_window t) @ blank_row (tape_color t), terminal_row := 24\<rparr>"
      using terminal_scroll_eq [of ?d1] len d by (simp add: shows_tape_def blank_row_def)
    finally have nl: "terminal_newline d = \<dots>" .
    have "drop ?n (tape_rows t) = tape_rows t ! ?n # drop (Suc ?n) (tape_rows t)" "length (tape_rows t ! ?n) = 80"
      using t by (auto simp: tape_inv_def Cons_nth_drop_Suc)
    then have "drop 80 (tape_window t) = concat (drop (Suc ?n) (tape_rows t))" by (simp add: tape_window_def)
    moreover have "length (tape_rows (tape_newline t)) - 25 = Suc ?n" "Suc ?n \<le> length (tape_rows t)"
      using t True by (auto simp: tape_inv_def tape_newline_def)
    ultimately show ?thesis using d t True unfolding nl
      by (simp add: shows_tape_def tape_window_def tape_newline_def tape_inv_def)
  qed
qed

lemma write_shows_tape:
  assumes t: "tape_inv t" and d: "shows_tape t d"
  shows "put_cell (unat (terminal_row d * 80 + terminal_column d)) v (VGA_BUFFER d) = Inr (tape_window (tape_write v t))"
    "shows_tape (tape_write v t) (d\<lparr>VGA_BUFFER := tape_window (tape_write v t)\<rparr>)"
proof -
  let ?r = "tape_row t - (length (tape_rows t) - 25)"
  have b: "unat (terminal_row d) = ?r" "?r < 25" "unat (terminal_column d) = tape_column t" "tape_column t < 80"
    using t d by (auto simp: shows_tape_def tape_inv_def)
  then have "unat (terminal_row d * 80) = ?r * 80" by (simp add: unat_word_ariths)
  then have i: "unat (terminal_row d * 80 + terminal_column d) = ?r * 80 + tape_column t"
    using b by (simp add: unat_add_no_wrap)
  show "put_cell (unat (terminal_row d * 80 + terminal_column d)) v (VGA_BUFFER d) = Inr (tape_window (tape_write v t))"
    using d tape_window_length [OF t] b unfolding put_cell_def i by (simp add: shows_tape_def tape_write_window [OF t])
  show "shows_tape (tape_write v t) (d\<lparr>VGA_BUFFER := tape_window (tape_write v t)\<rparr>)"
    using d by (simp add: shows_tape_def) (simp add: tape_write_def)
qed

lemma tape_column_inv: "tape_inv t \<Longrightarrow> c < 80 \<Longrightarrow> tape_inv (t\<lparr>tape_column := c\<rparr>)"
  by (simp add: tape_inv_def)

lemma shows_tape_column:
  "shows_tape t d \<Longrightarrow> unat col = c \<Longrightarrow> shows_tape (t\<lparr>tape_column := c\<rparr>) (d\<lparr>terminal_column := col\<rparr>)"
  by (simp add: shows_tape_def tape_window_def)

lemma tape_putchar_inv:
  assumes "tape_inv t"
  shows "tape_inv (tape_putchar c t)"
proof -
  have "tape_column t + 1 < 80" if "tape_column t + 1 \<noteq> 80" using assms that by (simp add: tape_inv_def)
  then show ?thesis using assms tape_write_inv [OF assms]
    by (auto simp: tape_putchar_def Let_def intro!: tape_newline_inv tape_write_inv tape_column_inv)
qed

lemma backspace_shows_tape:
  assumes t: "tape_inv t" and d: "shows_tape t d"
  shows "\<exists>d'. terminal_putchar (CHR 0x08) d = Inr d' \<and> shows_tape (tape_putchar (CHR 0x08) t) d'"
proof (cases "tape_column t = 0")
  case True
  then have "terminal_column d = 0" using d by (simp add: shows_tape_def unat_eq_0)
  then show ?thesis using True d by (simp add: terminal_putchar_def tape_putchar_def shows_tape_def)
next
  case False
  then have ne: "terminal_column d \<noteq> 0" using d by (auto simp: shows_tape_def)
  let ?t = "t\<lparr>tape_column := tape_column t - 1\<rparr>" and ?d = "d\<lparr>terminal_column := terminal_column d - 1\<rparr>"
  have "unat (terminal_column d - 1) = tape_column t - 1" using ne d unat_minus_one [OF ne] by (simp add: shows_tape_def)
  then have sh: "shows_tape ?t ?d" by (rule shows_tape_column [OF d])
  have inv: "tape_inv ?t" using t False unfolding tape_inv_def by auto
  have nv: "\<not> vt_enabled d" "terminal_color d = tape_color t" using d by (simp_all add: shows_tape_def)
  show ?thesis using False ne nv write_shows_tape [OF inv sh, of "cell (CHR '' '') (tape_color t)"]
    by (simp add: terminal_putchar_def tape_putchar_def Let_def word_neq_0_conv)
qed

lemma print_shows_tape:
  assumes t: "tape_inv t" and d: "shows_tape t d" and c: "c \<noteq> CHR 0x0A" "c \<noteq> CHR 0x0D" "c \<noteq> CHR 0x08"
  shows "\<exists>d'. terminal_putchar c d = Inr d' \<and> shows_tape (tape_putchar c t) d'"
proof -
  let ?t = "tape_write (cell c (tape_color t)) t"
  let ?d = "d\<lparr>VGA_BUFFER := tape_window ?t, terminal_column := terminal_column d + 1\<rparr>"
  have col: "unat (terminal_column d) = tape_column t" "tape_column t < 80" using t d by (simp_all add: shows_tape_def tape_inv_def)
  then have col1: "unat (terminal_column d + 1) = tape_column t + 1" by (simp add: unat_row_add)
  then have full: "terminal_column d + 1 = 80 \<longleftrightarrow> tape_column t + 1 = 80" by (simp add: word_unat_eq_iff)
  have nv: "\<not> vt_enabled d" "terminal_color d = tape_color t" using d by (simp_all add: shows_tape_def)
  note w = write_shows_tape [OF t d, of "cell c (tape_color t)"]
  have put: "terminal_putchar c d = Inr (if tape_column t + 1 = 80 then terminal_newline ?d else ?d)"
    using c nv w(1) full by (simp add: terminal_putchar_def Let_def)
  have "shows_tape (?t\<lparr>tape_column := tape_column t + 1\<rparr>) ?d" by (rule shows_tape_column [OF w(2) col1])
  moreover have "shows_tape (tape_newline ?t) (terminal_newline ?d)"
    using newline_shows_tape [OF tape_write_inv [OF t] w(2)] by (simp add: terminal_newline_def)
  ultimately show ?thesis unfolding put using c by (simp add: tape_putchar_def Let_def)
qed

lemma terminal_putchar_tape:
  assumes t: "tape_inv t" and d: "shows_tape t d"
  shows "\<exists>d'. terminal_putchar c d = Inr d' \<and> shows_tape (tape_putchar c t) d'"
proof -
  have nv: "\<not> vt_enabled d" using d by (simp add: shows_tape_def)
  consider "c = CHR 0x0A" | "c = CHR 0x0D" | "c = CHR 0x08" | "c \<noteq> CHR 0x0A" "c \<noteq> CHR 0x0D" "c \<noteq> CHR 0x08" by blast
  then show ?thesis
  proof cases
    case 1
    then show ?thesis using nv newline_shows_tape [OF t d] by (simp add: terminal_putchar_def tape_putchar_def)
  next
    case 2
    then show ?thesis using nv shows_tape_column [OF d, of 0 0] by (simp add: terminal_putchar_def tape_putchar_def)
  next
    case 3
    then show ?thesis using backspace_shows_tape [OF t d] by simp
  next
    case 4
    then show ?thesis by (rule print_shows_tape [OF t d])
  qed
qed

lemma terminal_write_tape:
  "tape_inv t \<Longrightarrow> shows_tape t d \<Longrightarrow> \<exists>d'. terminal_write str d = Inr d' \<and> shows_tape (fold tape_putchar str t) d'"
proof (induction str arbitrary: t d)
  case (Cons c cs)
  obtain d1 where "terminal_putchar c d = Inr d1" "shows_tape (tape_putchar c t) d1"
    using terminal_putchar_tape [OF Cons.prems] by blast
  then show ?case using Cons.IH [OF tape_putchar_inv [OF Cons.prems(1)]] by simp
qed simp

lemma init_vga_tape:
  assumes "length (VGA_BUFFER d) = 2000" "\<not> vt_enabled d"
  shows "shows_tape (blank_tape 7) (init_vga d)" "tape_inv (blank_tape 7)"
proof -
  have "fold (\<lambda>y. fill_cells v (map (\<lambda>x. y * VGA_WIDTH + x) [0..<VGA_WIDTH])) [0..<VGA_HEIGHT] (VGA_BUFFER d) = replicate 2000 v" for v
    unfolding fold_fill_cells rows_upt using fill_cells_upt [of 0 2000 "VGA_BUFFER d" v] assms(1) by (simp del: upt_rec_numeral)
  moreover have "concat (replicate 25 (replicate 80 v)) = replicate 2000 (v :: u16)" for v
    by (intro replicate_eqI) (auto simp: length_concat sum_list_replicate)
  ultimately show "shows_tape (blank_tape 7) (init_vga d)" using assms(2)
    by (simp add: shows_tape_def init_vga_def Let_def blank_tape_def tape_window_def blank_row_def)
  show "tape_inv (blank_tape 7)" by (auto simp: tape_inv_def blank_tape_def blank_row_def)
qed

text \<open>
  C33: the VGA terminal refines a tape that never scrolls.  Whatever text is written to a freshly
  initialised terminal, no write leaves the text buffer, and the screen shows the last 25 rows of
  the tape on which the text has been written, with the cursor at the tape's position.
\<close>

theorem terminal_refines_tape:
  assumes "length (VGA_BUFFER d) = 2000" "\<not> vt_enabled d"
  shows "\<exists>d'. terminal_write str (init_vga d) = Inr d' \<and>
    shows_tape (fold tape_putchar str (blank_tape 7)) d'"
  by (rule terminal_write_tape [OF init_vga_tape(2) init_vga_tape(1)]) (rule assms)+

definition display_boot :: display where
  "display_boot = \<lparr>VGA_BUFFER = replicate 2000 0, terminal_row = 0, terminal_column = 0, terminal_color = 0, vt_enabled = False,
     terminals = replicate 4 \<lparr>vt_buffer = replicate 2000 0, cursor_x = 0, cursor_y = 0, vt_color = 0, active = 0, shell_pid = 0\<rparr>,
     current_terminal = 0, cursor_ports = []\<rparr>"

lemma newlines_on_tape:
  "fold tape_putchar (replicate n (CHR 0x0A)) (blank_tape c) =
     \<lparr>tape_rows = replicate (max 25 (n + 1)) (blank_row c), tape_row = n, tape_column = 0, tape_color = c\<rparr>"
proof (induction n)
  case (Suc n)
  have "fold tape_putchar (replicate (Suc n) (CHR 0x0A)) (blank_tape c) =
      tape_newline (fold tape_putchar (replicate n (CHR 0x0A)) (blank_tape c))"
    by (simp add: tape_putchar_def replicate_append_same [symmetric] del: replicate_append_same)
  then show ?case using Suc by (auto simp: tape_newline_def max_def replicate_append_same)
qed (simp add: blank_tape_def)

theorem terminal_refines_tape_witness:
  "\<exists>d'. terminal_write (replicate 25 (CHR 0x0A) @ ''ok'') (init_vga display_boot) = Inr d' \<and>
     unat (terminal_row d') = 24 \<and> unat (terminal_column d') = 2 \<and> VGA_BUFFER d' ! 1920 = cell (CHR ''o'') 7"
proof -
  let ?start = "\<lparr>tape_rows = replicate 26 (blank_row 7), tape_row = 25, tape_column = 0, tape_color = 7\<rparr>"
  let ?mid = "(tape_write (cell (CHR ''o'') 7) ?start)\<lparr>tape_column := 1\<rparr>"
  let ?fin = "(tape_write (cell (CHR ''k'') 7) ?mid)\<lparr>tape_column := 2\<rparr>"
  have t: "fold tape_putchar (replicate 25 (CHR 0x0A) @ ''ok'') (blank_tape 7) = ?fin"
    unfolding fold_append comp_def newlines_on_tape by (simp add: tape_putchar_def tape_write_def)
  obtain d' where d': "terminal_write (replicate 25 (CHR 0x0A) @ ''ok'') (init_vga display_boot) = Inr d'" "shows_tape ?fin d'"
    using terminal_refines_tape [of display_boot "replicate 25 (CHR 0x0A) @ ''ok''"] unfolding t by (auto simp: display_boot_def)
  have i0: "tape_inv ?start" by (simp add: tape_inv_def blank_row_def)
  then have i1: "tape_inv ?mid" by (intro tape_column_inv tape_write_inv) simp_all
  have col: "tape_window (u\<lparr>tape_column := c\<rparr>) = tape_window u" for u c by (simp add: tape_window_def)
  have "tape_window ?fin = (tape_window ?start)[1920 := cell (CHR ''o'') 7, 1921 := cell (CHR ''k'') 7]"
    unfolding col tape_write_window [OF i1] tape_write_window [OF i0] by (simp add: tape_write_def)
  then have "tape_window ?fin ! 1920 = cell (CHR ''o'') 7" using tape_window_length [OF i0] by simp
  moreover have "length (tape_rows ?fin) = 26" "tape_row ?fin = 25" "tape_column ?fin = 2" by (simp_all add: tape_write_def)
  ultimately show ?thesis using d' by (auto simp: shows_tape_def)
qed

section \<open>Virtual terminals are independent\<close>

definition vt_inv :: "display \<Rightarrow> bool" where
  "vt_inv d \<longleftrightarrow> length (terminals d) = 4 \<and> (\<forall>vt \<in> set (terminals d). length (vt_buffer vt) = 2000) \<and>
     0 \<le> current_terminal d \<and> current_terminal d < 4 \<and> length (VGA_BUFFER d) = 2000"

text \<open>The picture of a terminal: its buffer with the indicator in the top right corner.\<close>

definition vt_picture :: "int \<Rightarrow> u16 list \<Rightarrow> u16 list" where
  "vt_picture n buf = take 76 buf @ map (\<lambda>c. cell c 0x1F) (indicator n) @ drop 80 buf"

definition on_screen :: "display \<Rightarrow> bool" where
  "on_screen d \<longleftrightarrow> VGA_BUFFER d = vt_picture (current_terminal d) (vt_buffer (current_vt d))"

lemma indicator_length: "0 \<le> n \<Longrightarrow> n < 4 \<Longrightarrow> length (indicator n) = 4"
proof -
  assume "0 \<le> n" "n < 4"
  then have "n = 0 \<or> n = 1 \<or> n = 2 \<or> n = 3" by arith
  then show ?thesis by (auto simp: indicator_def)
qed

lemma current_vt_length: "vt_inv d \<Longrightarrow> length (vt_buffer (current_vt d)) = 2000"
  unfolding vt_inv_def current_vt_def by (auto simp: nat_less_iff)

lemma overwrite_cells:
  assumes "a + length cs \<le> length buf"
  shows "fold (\<lambda>i b. b[a + i := f (cs ! i)]) [0..<length cs] buf = take a buf @ map f cs @ drop (a + length cs) buf"
  using assms
proof (induction cs rule: rev_induct)
  case (snoc c cs)
  have same: "fold (\<lambda>i b. b[a + i := f ((cs @ [c]) ! i)]) [0..<length cs] buf = fold (\<lambda>i b. b[a + i := f (cs ! i)]) [0..<length cs] buf"
    by (rule fold_cong) (auto simp: nth_append)
  have "drop (a + length cs) buf = buf ! (a + length cs) # drop (Suc (a + length cs)) buf"
    using snoc.prems by (intro Cons_nth_drop_Suc [symmetric]) simp
  then show ?case using snoc same by (simp add: list_update_append)
qed simp

lemma vt_refresh_on_screen:
  assumes "vt_inv d"
  shows "VGA_BUFFER (vt_refresh d) = vt_picture (current_terminal d) (vt_buffer (current_vt d))"
    "length (vt_picture (current_terminal d) (vt_buffer (current_vt d))) = 2000"
proof -
  let ?ind = "indicator (current_terminal d)" and ?b = "vt_buffer (current_vt d)"
  have l: "length ?ind = 4" "length ?b = 2000" "length (VGA_BUFFER d) = 2000"
    using assms indicator_length current_vt_length by (auto simp: vt_inv_def)
  then show "VGA_BUFFER (vt_refresh d) = vt_picture (current_terminal d) ?b"
    using overwrite_cells [of 76 ?ind ?b "\<lambda>c. cell c 0x1F"] by (simp add: vt_refresh_def Let_def vt_picture_def del: upt_rec_numeral)
  show "length (vt_picture (current_terminal d) ?b) = 2000" using l by (simp add: vt_picture_def)
qed

lemma vt_refresh_fields [simp]:
  "terminals (vt_refresh d) = terminals d" "current_terminal (vt_refresh d) = current_terminal d"
  "terminals (set_cursor x y d) = terminals d" "current_terminal (set_cursor x y d) = current_terminal d"
  "VGA_BUFFER (set_cursor x y d) = VGA_BUFFER d"
  by (simp_all add: vt_refresh_def set_cursor_def Let_def)

lemma current_vt_cong: "terminals d' = terminals d \<Longrightarrow> current_terminal d' = current_terminal d \<Longrightarrow> current_vt d' = current_vt d"
  by (simp add: current_vt_def)

text \<open>Storing a terminal structure, refreshing the screen and moving the cursor.\<close>

lemma vt_shown:
  fixes x y :: u16
  assumes d: "vt_inv d" and vt: "length (vt_buffer vt) = 2000"
  defines "d' \<equiv> set_cursor x y (vt_refresh (set_current_vt vt d))"
  shows "vt_inv d' \<and> on_screen d' \<and> current_vt d' = vt \<and> current_terminal d' = current_terminal d \<and>
    (\<forall>n. n \<noteq> current_terminal d \<longrightarrow> vt_get n d' = vt_get n d)"
proof -
  let ?d = "set_current_vt vt d"
  have bufs: "\<forall>v \<in> set ((terminals d)[nat (current_terminal d) := vt]). length (vt_buffer v) = 2000"
    using d vt by (auto simp: vt_inv_def dest!: set_update_subset_insert [THEN subsetD])
  have i: "vt_inv ?d" and cur: "current_vt ?d = vt" using d bufs by (auto simp: vt_inv_def set_current_vt_def current_vt_def)
  note r = vt_refresh_on_screen [OF i]
  have t: "terminals d' = (terminals d)[nat (current_terminal d) := vt]" "current_terminal d' = current_terminal d"
    by (simp_all add: d'_def set_current_vt_def)
  have c: "current_vt d' = vt" using cur t by (simp add: current_vt_def set_current_vt_def)
  have v: "VGA_BUFFER d' = vt_picture (current_terminal d) (vt_buffer vt)" using r cur by (simp add: d'_def set_current_vt_def)
  have "vt_inv d'" using d bufs r cur t v by (simp add: vt_inv_def set_current_vt_def)
  moreover have "on_screen d'" by (simp add: on_screen_def c t v)
  moreover have "vt_get n d' = vt_get n d" if "n \<noteq> current_terminal d" for n
    using that d t by (simp add: vt_get_def vt_inv_def nat_eq_iff)
  ultimately show ?thesis using c t by simp
qed

lemma vt_scroll_cursor:
  assumes "length (vt_buffer vt) = 2000"
  shows "length (vt_buffer (vt_scroll (vt_wrap vt))) = 2000"
    "unat (cursor_y (vt_scroll (vt_wrap vt))) * 80 + unat (cursor_x (vt_scroll (vt_wrap vt))) < 2000"
proof -
  let ?w = "vt_wrap vt"
  have x: "unat (cursor_x ?w) < 80" by (auto simp: vt_wrap_def word_le_nat_alt not_le)
  have b: "length (vt_buffer ?w) = 2000" using assms by (simp add: vt_wrap_def)
  show "length (vt_buffer (vt_scroll ?w)) = 2000" using b by (simp add: vt_scroll_def scroll_cells del: upt_rec_numeral)
  have "unat (cursor_y (vt_scroll ?w)) < 25" by (auto simp: vt_scroll_def word_le_nat_alt not_le)
  moreover have "cursor_x (vt_scroll ?w) = cursor_x ?w" by (simp add: vt_scroll_def)
  ultimately show "unat (cursor_y (vt_scroll ?w)) * 80 + unat (cursor_x (vt_scroll ?w)) < 2000" using x by simp
qed

definition backspace_overrun :: "virtual_terminal_t \<Rightarrow> bool" where
  "backspace_overrun vt \<longleftrightarrow> 0 < cursor_x vt \<and> 2000 \<le> unat (cursor_y vt) * 80 + unat (cursor_x vt - 1)"

lemma vt_put_result:
  assumes "length (vt_buffer vt) = 2000"
  shows "if c = CHR 0x08 \<and> backspace_overrun vt then vt_put c vt = Inl OutOfBounds
    else \<exists>vt'. vt_put c vt = Inr vt' \<and> length (vt_buffer vt') = 2000"
  using assms vt_scroll_cursor [OF assms]
  by (auto simp: vt_put_def backspace_overrun_def Let_def put_cell_def)

lemma vt_putchar_result:
  assumes "vt_inv d"
  shows "if c = CHR 0x08 \<and> backspace_overrun (current_vt d) then vt_putchar c d = Inl OutOfBounds
    else \<exists>d'. vt_putchar c d = Inr d' \<and> vt_inv d' \<and> on_screen d' \<and> current_terminal d' = current_terminal d \<and>
      (\<forall>n. n \<noteq> current_terminal d \<longrightarrow> vt_get n d' = vt_get n d)"
  using vt_put_result [OF current_vt_length [OF assms], of c] vt_shown [OF assms]
  by (auto simp: vt_putchar_def split: if_splits)

lemma vt_switch_result:
  assumes "vt_inv d"
  shows "vt_inv (vt_switch n d)" "on_screen d \<longrightarrow> on_screen (vt_switch n d)"
    "current_terminal (vt_switch n d) = (if 0 \<le> n \<and> n < 4 then n else current_terminal d)"
    "map vt_buffer (terminals (vt_switch n d)) = map vt_buffer (terminals d)"
proof -
  have "vt_inv (vt_switch n d) \<and> (on_screen d \<longrightarrow> on_screen (vt_switch n d)) \<and>
    current_terminal (vt_switch n d) = (if 0 \<le> n \<and> n < 4 then n else current_terminal d) \<and>
    map vt_buffer (terminals (vt_switch n d)) = map vt_buffer (terminals d)"
  proof (cases "n < 0 \<or> 4 \<le> n \<or> n = current_terminal d")
    case True
    then show ?thesis using assms by (auto simp: vt_switch_def vt_inv_def)
  next
    case False
    let ?d1 = "d\<lparr>current_terminal := n\<rparr>"
    let ?vt = "(current_vt ?d1)\<lparr>active := 1\<rparr>"
    have i: "vt_inv ?d1" using assms False by (simp add: vt_inv_def)
    have l: "nat n < length (terminals d)" using assms False by (auto simp: vt_inv_def nat_less_iff)
    then have "vt_switch n d = set_cursor (cursor_x ?vt) (cursor_y ?vt) (vt_refresh (set_current_vt ?vt ?d1))"
      using False by (simp add: vt_switch_def Let_def current_vt_def set_current_vt_def)
    moreover have "map vt_buffer ((terminals d)[nat n := ?vt]) = map vt_buffer (terminals d)"
      using l by (simp add: map_update current_vt_def) (metis list_update_id nth_map)
    ultimately show ?thesis using vt_shown [OF i, of ?vt "cursor_x ?vt" "cursor_y ?vt"] current_vt_length [OF i] False
      by (simp add: set_current_vt_def)
  qed
  then show "vt_inv (vt_switch n d)" "on_screen d \<longrightarrow> on_screen (vt_switch n d)"
    "current_terminal (vt_switch n d) = (if 0 \<le> n \<and> n < 4 then n else current_terminal d)"
    "map vt_buffer (terminals (vt_switch n d)) = map vt_buffer (terminals d)" by blast+
qed

text \<open>
  The virtual terminals are independent, and one kind of write leaves its buffer.  A
  character changes only the terminal on the screen, and the screen shows that terminal;
  switching changes no terminal's contents and shows the new one.  The only fault is a backspace
  with the cursor below the last row, which happens after enough newlines, since only a printable
  character scrolls.
\<close>

theorem vt_independent:
  assumes "vt_inv d"
  shows "(if c = CHR 0x08 \<and> backspace_overrun (current_vt d) then vt_putchar c d = Inl OutOfBounds
      else \<exists>d'. vt_putchar c d = Inr d' \<and> vt_inv d' \<and> on_screen d' \<and> current_terminal d' = current_terminal d \<and>
        (\<forall>n. n \<noteq> current_terminal d \<longrightarrow> vt_get n d' = vt_get n d)) \<and>
    vt_inv (vt_switch terminal d) \<and> (on_screen d \<longrightarrow> on_screen (vt_switch terminal d)) \<and>
    current_terminal (vt_switch terminal d) = (if 0 \<le> terminal \<and> terminal < 4 then terminal else current_terminal d) \<and>
    map vt_buffer (terminals (vt_switch terminal d)) = map vt_buffer (terminals d)"
  using vt_putchar_result [OF assms] vt_switch_result [OF assms] by simp

lemma vt_putchar_shown:
  assumes "vt_inv d" "vt_put c (current_vt d) = Inr vt" "length (vt_buffer vt) = 2000"
  obtains d' where "vt_putchar c d = Inr d'" "vt_inv d'" "current_vt d' = vt"
  using vt_shown [OF assms(1,3), of "cursor_x vt" "cursor_y vt"] assms(2) by (simp add: vt_putchar_def)

lemma newlines_move_cursor:
  assumes "vt_inv d"
  shows "\<exists>d'. vt_writestring (replicate n (CHR 0x0A)) d = Inr d' \<and> vt_inv d' \<and>
    cursor_y (current_vt d') = cursor_y (current_vt d) + of_nat n \<and> (cursor_x (current_vt d) = 0 \<longrightarrow> cursor_x (current_vt d') = 0)"
  using assms
proof (induction n arbitrary: d)
  case (Suc n)
  let ?vt = "(current_vt d)\<lparr>cursor_x := 0, cursor_y := cursor_y (current_vt d) + 1\<rparr>"
  obtain d1 where d1: "vt_putchar (CHR 0x0A) d = Inr d1" "vt_inv d1" "current_vt d1 = ?vt"
    using vt_putchar_shown [OF Suc.prems, of "CHR 0x0A" ?vt] current_vt_length [OF Suc.prems] by (auto simp: vt_put_def)
  from Suc.IH [OF d1(2)] d1 show ?case by (auto simp: ac_simps)
qed simp

lemma vt_writestring_append: "vt_writestring (a @ b) d = bind_res (vt_writestring a d) (vt_writestring b)"
  by (induction a arbitrary: d) (simp_all add: bind_res_def split: sum.split)

lemma vt_boot:
  "vt_inv (vt_init display_boot)" "cursor_x (current_vt (vt_init display_boot)) = 0" "cursor_y (current_vt (vt_init display_boot)) = 0"
proof -
  let ?blank = "\<lparr>vt_buffer = replicate 2000 (cell (CHR '' '') 0x0F), cursor_x = 0, cursor_y = 0, vt_color = 0x0F, active = 0, shell_pid = - 1\<rparr>"
  let ?d = "display_boot\<lparr>terminals := (replicate 4 ?blank)[0 := ?blank\<lparr>active := 1\<rparr>]\<rparr>"
  have "fill_cells v [0..<2000] (replicate 2000 0) = replicate 2000 v" for v
    using fill_cells_upt [of 0 2000 "replicate 2000 0" v] by (simp del: upt_rec_numeral)
  then have d: "vt_init display_boot = vt_refresh ?d" by (simp add: vt_init_def display_boot_def Let_def del: upt_rec_numeral)
  have i: "vt_inv ?d" by (auto simp: vt_inv_def display_boot_def dest!: set_update_subset_insert [THEN subsetD])
  show "vt_inv (vt_init display_boot)" using i vt_refresh_on_screen [OF i] unfolding d by (simp add: vt_inv_def)
  show "cursor_x (current_vt (vt_init display_boot)) = 0" "cursor_y (current_vt (vt_init display_boot)) = 0"
    unfolding d by (simp_all add: current_vt_def display_boot_def)
qed

theorem vt_independent_witness:
  "vt_writestring (replicate 25 (CHR 0x0A) @ [CHR 0x09, CHR 0x08]) (vt_init display_boot) = Inl OutOfBounds"
proof -
  obtain d where d: "vt_writestring (replicate 25 (CHR 0x0A)) (vt_init display_boot) = Inr d" "vt_inv d"
      "cursor_y (current_vt d) = 25" "cursor_x (current_vt d) = 0"
    using newlines_move_cursor [OF vt_boot(1), of 25] by (auto simp: vt_boot)
  obtain d' where d': "vt_putchar (CHR 0x09) d = Inr d'" "vt_inv d'" "current_vt d' = (current_vt d)\<lparr>cursor_x := 8\<rparr>"
    using vt_putchar_shown [OF d(2), of "CHR 0x09" "(current_vt d)\<lparr>cursor_x := 8\<rparr>"] current_vt_length [OF d(2)] d(4)
    by (auto simp: vt_put_def)
  have "backspace_overrun (current_vt d')" using d' d by (simp add: backspace_overrun_def)
  then have "vt_putchar (CHR 0x08) d' = Inl OutOfBounds" using vt_independent [OF d'(2), of "CHR 0x08"] by simp
  then show ?thesis using d d' by (simp add: vt_writestring_append)
qed

end
