(* ===== verification/Boot.thy ===== *)
theory Boot
  imports Interrupt Terminal
begin

text \<open>
  The start of the kernel (\<open>kernel_main\<close> and \<open>init_paging\<close> of \<open>src/src/kernel/kernel.c\<close>): the
  identity mapping of the first 2 MB and the order in which \<open>kernel_main\<close> initialises the
  components.  The kernel's own accesses go to physical memory whatever the tables in force say, so
  \<open>kernel_init\<close> does not fault where the processor would; what the tables map is stated on its own.
\<close>

section \<open>The first page tables\<close>

definition enable_paging :: "u64 \<Rightarrow> 'a vmm_scheme \<Rightarrow> 'a vmm_scheme" where
  "enable_paging table s = s\<lparr>cr3 := table\<rparr>"

abbreviation (input) boot_pdpt :: u64 where "boot_pdpt \<equiv> 0x1001000"
abbreviation (input) boot_pd :: u64 where "boot_pd \<equiv> 0x1002000"
abbreviation (input) boot_pt :: u64 where "boot_pt \<equiv> 0x1003000"

definition init_paging :: "'a vmm_scheme \<Rightarrow> 'a vmm_scheme" where
  "init_paging s =
     (let s1 = fold (\<lambda>i. write_entry boot_pt i (of_nat (i * PAGE_SIZE) OR 3)) [0..<512] s;
          s2 = write_entry boot_pd 0 (boot_pt OR 3) s1;
          s3 = write_entry boot_pdpt 0 (boot_pd OR 3) s2;
          s4 = write_entry (pml4 s3) 0 (boot_pdpt OR 3) s3
      in enable_paging (pml4 s4) s4)"

lemma fold_write_entries:
  "fold (\<lambda>i. write_entry t i (f i)) is s = s\<lparr>phys_mem := fold (\<lambda>i m. set_entry m t i (f i)) is (phys_mem s)\<rparr>"
  by (induction "is" arbitrary: s) (simp_all add: write_entry_def)

lemma entry_fold_set_entry:
  assumes "page_aligned t" "page_aligned t'" "j < 512" "n \<le> 512"
  shows "entry (fold (\<lambda>i m. set_entry m t i (f i)) [0..<n] m) t' j = (if t = t' \<and> j < n then f j else entry m t' j)"
  using assms(4)
proof (induction n)
  case (Suc n)
  then show ?case using assms(1-3) by (auto simp: entry_set_entry)
qed simp

lemma init_paging_state:
  "init_paging s = s\<lparr>cr3 := pml4 s, phys_mem := phys_mem (init_paging s)\<rparr>"
  by (simp add: init_paging_def Let_def fold_write_entries write_entry_def enable_paging_def)

lemma boot_tables_aligned: "page_aligned 0x1000000" "page_aligned 0x1001000" "page_aligned 0x1002000" "page_aligned 0x1003000"
  by (simp_all add: page_aligned_def)

lemma init_paging_entries:
  assumes "pml4 s = 0x1000000" "i < 512"
  shows "entry (phys_mem (init_paging s)) 0x1000000 i = (if i = 0 then 0x1001003 else entry (phys_mem s) 0x1000000 i)"
    "entry (phys_mem (init_paging s)) 0x1001000 i = (if i = 0 then 0x1002003 else entry (phys_mem s) 0x1001000 i)"
    "entry (phys_mem (init_paging s)) 0x1002000 i = (if i = 0 then 0x1003003 else entry (phys_mem s) 0x1002000 i)"
    "entry (phys_mem (init_paging s)) 0x1003000 i = of_nat (i * 4096) OR 3"
proof -
  let ?f = "\<lambda>i. of_nat (i * PAGE_SIZE) OR 3 :: u64"
  have m: "phys_mem (init_paging s) = set_entry (set_entry (set_entry (fold (\<lambda>i m. set_entry m 0x1003000 i (?f i)) [0..<512] (phys_mem s))
      0x1002000 0 0x1003003) 0x1001000 0 0x1002003) 0x1000000 0 0x1001003"
    using assms(1) by (simp add: init_paging_def Let_def fold_write_entries write_entry_def enable_paging_def)
  show "entry (phys_mem (init_paging s)) 0x1000000 i = (if i = 0 then 0x1001003 else entry (phys_mem s) 0x1000000 i)"
    "entry (phys_mem (init_paging s)) 0x1001000 i = (if i = 0 then 0x1002003 else entry (phys_mem s) 0x1001000 i)"
    "entry (phys_mem (init_paging s)) 0x1002000 i = (if i = 0 then 0x1003003 else entry (phys_mem s) 0x1002000 i)"
    "entry (phys_mem (init_paging s)) 0x1003000 i = of_nat (i * 4096) OR 3"
    unfolding m using assms(2) by (auto simp: boot_tables_aligned entry_set_entry entry_fold_set_entry)
qed

lemma index_div: "unat (drop_bit k (v :: u64) AND 0x1FF) = unat v div 2 ^ k mod 512"
proof -
  have "(0x1FF :: u64) = mask 9" by (simp add: mask_eq_exp_minus_1)
  then have "drop_bit k v AND 0x1FF = take_bit 9 (drop_bit k v)" by (simp add: take_bit_eq_mask)
  then show ?thesis by (simp add: unsigned_take_bit_eq unsigned_drop_bit_eq) (simp add: take_bit_eq_mod drop_bit_eq_div)
qed

lemma index_zero:
  assumes "v < 0x1000000000000"
  shows "PML4_INDEX v = 0 \<and> PDPT_INDEX v = 0 \<and> PD_INDEX v = 0 \<longleftrightarrow> v < 0x200000"
proof -
  have v: "unat v < 0x1000000000000" using assms by (simp add: word_less_nat_alt)
  define a b c where "a = unat v div 2 ^ 39" "b = unat v div 2 ^ 30" "c = unat v div 2 ^ 21"
  have bc: "b = c div 512" "a = b div 512" "a < 512" using v by (simp_all add: a_b_c_def div_mult2_eq [symmetric] less_mult_imp_div_less)
  have "PML4_INDEX v = a mod 512" "PDPT_INDEX v = b mod 512" "PD_INDEX v = c mod 512"
    by (simp_all add: PML4_INDEX_def PDPT_INDEX_def PD_INDEX_def index_div a_b_c_def)
  moreover have "a mod 512 = 0 \<and> b mod 512 = 0 \<and> c mod 512 = 0 \<longleftrightarrow> c = 0"
  proof
    assume z: "a mod 512 = 0 \<and> b mod 512 = 0 \<and> c mod 512 = 0"
    with bc(3) have "b div 512 = 0" using bc(2) by simp
    with z have "c div 512 = 0" using bc(1) by (simp add: div_eq_0_iff)
    with z show "c = 0" by (simp add: div_eq_0_iff)
  qed (use bc in simp)
  moreover have "c = 0 \<longleftrightarrow> v < 0x200000" by (simp add: a_b_c_def word_less_nat_alt div_eq_0_iff)
  ultimately show ?thesis by simp
qed

lemma page_of_index:
  assumes "v < 0x200000"
  shows "page_base (of_nat (PT_INDEX v * 4096) OR 3) OR (v AND 0xFFF) = v" "present (of_nat (PT_INDEX v * 4096) OR 3)"
proof -
  have "unat v < 2 ^ 21" using assms by (simp add: word_less_nat_alt)
  then have "PT_INDEX v = unat (v div 4096)" by (simp add: PT_INDEX_def index_div less_mult_imp_div_less unat_div)
  then have a: "of_nat (PT_INDEX v * 4096) = push_bit 12 (drop_bit 12 v)"
    by (simp add: push_bit_eq_mult drop_bit_eq_div)
  have m: "(0xFFF :: u64) = mask 12" "(3 :: u64) = mask 2" by (simp_all add: mask_eq_exp_minus_1)
  show "page_base (of_nat (PT_INDEX v * 4096) OR 3) OR (v AND 0xFFF) = v"
    unfolding a page_base_def m by (rule bit_word_eqI) (auto simp: bit_simps)
  have "bit (of_nat (PT_INDEX v * 4096) OR 3 :: u64) 0" unfolding a m by (simp add: bit_simps)
  then show "present (of_nat (PT_INDEX v * 4096) OR 3)" unfolding present_def by (metis and_one_eq bit_0 zero_neq_one odd_iff_mod_2_eq_one)
qed

text \<open>
  C37: \<open>init_paging\<close> maps the first 2 MB onto themselves.  Where the other entries of its three
  upper tables are not present in memory before, nothing else is mapped; so the page tables at
  16 MB and the kernel heap at 32 MB have no translation once paging is on.
\<close>

theorem init_paging_identity:
  assumes "pml4 s = 0x1000000" and "v < 0x1000000000000"
    and "\<forall>t \<in> {0x1000000, 0x1001000, 0x1002000}. \<forall>i \<in> {1..<512}. \<not> present (entry (phys_mem s) t i)"
  shows "vmm_get_physical (cr3 (init_paging s)) v (init_paging s) = (if v < 0x200000 then v else 0)"
proof -
  note e = init_paging_entries [OF assms(1)]
  have c: "cr3 (init_paging s) = 0x1000000" by (subst init_paging_state) (simp add: assms(1))
  have p: "present 0x1001003" "present 0x1002003" "present 0x1003003" "page_base 0x1001003 = 0x1001000"
    "page_base 0x1002003 = 0x1002000" "page_base 0x1003003 = 0x1003000"
    by (simp_all add: present_def page_base_def)
  have absent: "\<not> present (entry (phys_mem s) t i)" if "t \<in> {0x1000000, 0x1001000, 0x1002000}" "i \<noteq> 0" "i < 512" for t i
    using assms(3) that by (metis atLeastLessThan_iff less_one not_le)
  show ?thesis
    unfolding vmm_get_physical_def Let_def c
    using index_zero [OF assms(2)] page_of_index [of v] by (auto simp: e p absent)
qed

theorem init_paging_identity_witness:
  "vmm_get_physical 0x1000000 0x1ABCDE (init_paging (vmm_boot\<lparr>pml4 := 0x1000000\<rparr>)) = 0x1ABCDE \<and>
   vmm_get_physical 0x1000000 0x2000000 (init_paging (vmm_boot\<lparr>pml4 := 0x1000000\<rparr>)) = 0"
proof -
  let ?s = "vmm_boot\<lparr>pml4 := 0x1000000\<rparr>"
  have a: "\<forall>t \<in> {0x1000000, 0x1001000, 0x1002000}. \<forall>i \<in> {1..<512}. \<not> present (entry (phys_mem ?s) t i)"
    by (simp add: vmm_boot_def pmm_boot_def pmm.defs entry_def load64_def present_def)
  have c: "cr3 (init_paging ?s) = 0x1000000" by (subst init_paging_state) simp
  show ?thesis
    using init_paging_identity [where v = "0x1ABCDE", OF _ _ a] init_paging_identity [where v = "0x2000000", OF _ _ a] unfolding c by simp
qed

section \<open>The order of initialisation\<close>

definition boot_banner :: "'a machine_scheme \<Rightarrow> 'a machine_scheme" where
  "boot_banner = stmts [terminal_writestring (''SimpleOS v0.2 - Now with Multitasking!'' @ nl),
     terminal_writestring (''====================================='' @ nl @ nl)]"

definition boot_ready :: "'a machine_scheme \<Rightarrow> 'a machine_scheme" where
  "boot_ready = stmts [terminal_writestring (''System initialized. Creating test processes...'' @ nl @ nl),
     terminal_writestring (''Press Alt+F1 through Alt+F4 to switch virtual terminals'' @ nl @ nl)]"

lemma boot_text: "boot_banner s = s\<lparr>console := console (boot_banner s)\<rparr>" "boot_ready s = s\<lparr>console := console (boot_ready s)\<rparr>"
  by (simp_all add: boot_banner_def boot_ready_def stmts_def terminal_writestring_eq)

text \<open>
  \<open>kernel_main\<close> up to \<open>sti\<close>.  The addresses of the tables, of the task state segment and of the
  interrupt stubs come from the linker.  Text is appended to \<open>console\<close>; how a terminal shows it
  is the subject of \<open>Terminal\<close>, as are \<open>init_vga\<close>, \<open>vt_init\<close> and \<open>terminal_enable_vt\<close>, which
  touch nothing but the display.
\<close>

definition kernel_init ::
  "u64 \<Rightarrow> u64 \<Rightarrow> u64 \<Rightarrow> (u8 \<Rightarrow> u64) \<Rightarrow> descriptor_tables \<times> 'a kcalls_scheme \<Rightarrow> (descriptor_tables \<times> 'a kcalls_scheme) res" where
  "kernel_init gdt_addr tss_addr idt_addr stub = (\<lambda>(d, s).
     bind_res (pmm_init (64 * 1024 * 1024) (boot_banner s)) (\<lambda>s1.
     let d1 = init_gdt gdt_addr tss_addr d;
         s2 = init_pic (tss_init s1);
         d2 = init_idt idt_addr stub d1;
         s3 = init_paging (init_exceptions s2)
     in bind_res (init_timer 100 s3) (\<lambda>s4.
     bind_res (process_init s4) (\<lambda>s5.
     let s6 = init_syscalls (init_keyboard (scheduler_init s5))
     in bind_res (fs_init (ramfs s6)) (\<lambda>fs.
     Inr (d2, boot_ready (s6\<lparr>ramfs := fs\<rparr>)))))))"

lemma heap_objects_fresh:
  assumes "\<not> heap_initialized s" "total_allocated s = 0" "total_free s = HEAP_SIZE" "allocation_count s = 0"
  shows "heap_objects s {} 0xFFFFE8"
  unfolding heap_objects_def using init_heap_state [OF assms] by (intro conjI exI [of _ "[(0xFFFFE8, True)]"]) auto

lemma process_init_ok:
  fixes s :: "'a kproc_scheme"
  assumes "heap_objects s {} 0xFFFFE8" "idle_process s \<noteq> 0"
    and "unat (idle_process s) < HEAP_BASE \<or> HEAP_END < unat (idle_process s)" "0 < next_pid s"
  obtains fds n s1 s' where "process_init s = Inr s'" "heap_frame s s1"
    "s' = s1\<lparr>process_table := process_table s', procs := procs s', fd_tables := fd_tables s', console := console s'\<rparr>"
    "process_table s' = (replicate 64 0)[0 := idle_process s]" "pid (procs s' (idle_process s)) = 0"
    "pstate (procs s' (idle_process s)) = PROCESS_STATE_READY"
    "fd_tables s' (fd_table (procs s' (idle_process s))) = replicate MAX_FDS empty_fd"
    "heap_objects s' {(fds, n)} 0xFFFDD0" "table_inv s' {(fds, n)}"
proof -
  let ?i = "idle_process s"
  let ?f = "\<lambda>p. p\<lparr>pid := 0, pname := ''idle'', pstate := PROCESS_STATE_READY, kernel_stack := idle_stack s,
      kernel_stack_size := KERNEL_STACK_SIZE, priority := 255, ticks_total := 0, ticks_remaining := 1, entry_point := idle_task s,
      pcontext := (pcontext p)\<lparr>rsp := idle_stack s + KERNEL_STACK_SIZE, rip := idle_task s, rflags := 0x202\<rparr>\<rparr>"
  define s3 where "s3 = s\<lparr>procs := (procs s)(?i := ?f (procs s ?i)), process_table := (replicate 64 0)[0 := ?i]\<rparr>"
  have "heap_objects s3 {} (512 + 24 + 0xFFFDD0)"
    using assms(1) heap_objects_cong [of s3 s] by (simp add: s3_def)
  then obtain fds n s4 where c: "init_process_fd_table ?i s3 = Inr ((upd_proc ?i (\<lambda>p. p\<lparr>fd_table := of_nat fds\<rparr>) s4)
       \<lparr>fd_tables := (fd_tables s3)(of_nat fds := replicate MAX_FDS empty_fd)\<rparr>)"
    "heap_frame s3 s4" "heap_objects s4 {(fds, n)} 0xFFFDD0"
    by (rule init_process_fd_table_object [OF _ _ assms(2)]) auto
  note keep = heap_frame_kproc [OF c(2)]
  define s' where "s' = terminal_writestring ''Process management initialized\<newline>'' ((upd_proc ?i (\<lambda>p. p\<lparr>fd_table := of_nat fds\<rparr>) s4)
       \<lparr>fd_tables := (fd_tables s3)(of_nat fds := replicate MAX_FDS empty_fd)\<rparr>)"
  have run: "process_init s = Inr s'"
    using c(1) by (simp add: process_init_def Let_def upd_proc_def s3_def s'_def)
  obtain m h i ta tf ac where s4: "s4 = s3\<lparr>phys_mem := m, head := h, heap_initialized := i, total_allocated := ta, total_free := tf, allocation_count := ac\<rparr>"
    using c(2) unfolding heap_frame_def by blast
  define s1 where "s1 = s\<lparr>phys_mem := m, head := h, heap_initialized := i, total_allocated := ta, total_free := tf, allocation_count := ac\<rparr>"
  have "heap_frame s s1" unfolding heap_frame_def s1_def by blast
  from run this show ?thesis
  proof (rule that)
    show "s' = s1\<lparr>process_table := process_table s', procs := procs s', fd_tables := fd_tables s', console := console s'\<rparr>"
      by (simp add: s'_def s4 s3_def s1_def upd_proc_def terminal_writestring_eq)
    show t: "process_table s' = (replicate 64 0)[0 := ?i]" by (simp add: s'_def s4 s3_def upd_proc_def terminal_writestring_eq)
    show "pid (procs s' ?i) = 0" "pstate (procs s' ?i) = PROCESS_STATE_READY"
      "fd_tables s' (fd_table (procs s' ?i)) = replicate MAX_FDS empty_fd"
      by (simp_all add: s'_def s4 s3_def upd_proc_def terminal_writestring_eq)
    show "heap_objects s' {(fds, n)} 0xFFFDD0"
      using c(3) heap_objects_cong [of s' s4] by (simp add: s'_def upd_proc_def terminal_writestring_eq)
    have nth: "process_table s' ! k = (if k = 0 then ?i else 0)" if "k < 64" for k using that unfolding t by (simp add: nth_list_update)
    have "idle_process s' = ?i" "next_pid s' = next_pid s" "length (process_table s') = 64" "pid (procs s' ?i) = 0"
      by (simp_all add: s'_def s4 s3_def upd_proc_def terminal_writestring_eq)
    then show "table_inv s' {(fds, n)}" using assms(3,4) by (simp add: table_inv_def nth)
  qed
qed

text \<open>The state the loader leaves: cleared statics, the initial values of the kernel's globals.\<close>

definition loaded :: "'a kcalls_scheme \<Rightarrow> bool" where
  "loaded s \<longleftrightarrow> pml4 s = 0x1000000 \<and> \<not> heap_initialized s \<and> total_allocated s = 0 \<and> total_free s = HEAP_SIZE \<and>
     allocation_count s = 0 \<and> idle_process s \<noteq> 0 \<and> unat (idle_process s) < HEAP_BASE \<and> next_pid s = 1 \<and> queue s []"

lemma pmm_init_frame:
  assumes "pmm_init memory_size s = Inr s'"
  shows "s' = s\<lparr>pmm_bitmap := pmm_bitmap s', pmm_total_pages := pmm_total_pages s', pmm_free_pages := pmm_free_pages s',
    pmm_reserved_pages := pmm_reserved_pages s', console := console s'\<rparr>"
proof -
  define bm where "bm = replicate (BITMAP_SIZE div 4) (0xFFFFFFFF :: u32)"
  define ps where "ps = [PMM_START div PAGE_SIZE..<(if BITMAP_SIZE * 32 < unat (memory_size div 4096) then BITMAP_SIZE * 32 else unat (memory_size div 4096))]"
  have run: "pmm_init memory_size s = bind_res (pmm_init_loop ps bm 0) (\<lambda>(bm', free).
      Inr (terminal_writestring '' MB free\<newline>'' (terminal_writestring '' MB total, ''
        (terminal_writestring ''PMM initialized: '' (s\<lparr>pmm_bitmap := bm', pmm_total_pages := memory_size div 4096, pmm_free_pages := free,
           pmm_reserved_pages := of_nat (PMM_START div PAGE_SIZE)\<rparr>)))))"
    by (simp only: pmm_init_def Let_def bm_def ps_def)
  show ?thesis
  proof (cases "pmm_init_loop ps bm 0")
    case (Inr r)
    then show ?thesis using assms unfolding run by (cases r) (auto simp: terminal_writestring_eq)
  qed (use assms run in simp)
qed

text \<open>What \<open>kernel_main\<close> does between \<open>pmm_init\<close> and \<open>process_init\<close>.\<close>

definition boot_devices :: "'a kcalls_scheme \<Rightarrow> 'a kcalls_scheme" where
  "boot_devices s = (case init_timer 100 (init_paging (init_exceptions (init_pic (tss_init s)))) of Inr s' \<Rightarrow> s' | Inl _ \<Rightarrow> s)"

lemma boot_devices_run: "init_timer 100 (init_paging (init_exceptions (init_pic (tss_init s)))) = Inr (boot_devices s)"
  by (simp add: boot_devices_def init_timer_def Let_def)

lemma boot_devices_frame:
  "boot_devices s = s\<lparr>phys_mem := phys_mem (boot_devices s), console := console (boot_devices s), cr3 := pml4 s, tss := tss (boot_devices s),
     port_log := port_log (boot_devices s), interrupt_handlers := interrupt_handlers (boot_devices s), timer_frequency := 100\<rparr>"
  "interrupt_handlers (boot_devices s) 32 = Some Timer_callback"
proof -
  define x where "x = init_exceptions (init_pic (tss_init s))"
  have "x = s\<lparr>console := console x, tss := tss x, port_log := port_log x, interrupt_handlers := interrupt_handlers x\<rparr>"
    unfolding x_def by (simp add: init_exceptions_def stmts_def init_pic_def outb_def tss_init_def Let_def register_interrupt_handler_def terminal_writestring_eq)
  then obtain c t l h where x: "x = s\<lparr>console := c, tss := t, port_log := l, interrupt_handlers := h\<rparr>" by blast
  obtain m where y: "init_paging x = x\<lparr>cr3 := pml4 x, phys_mem := m\<rparr>" using init_paging_state [of x] by blast
  have z: "boot_devices s = (case init_timer 100 (init_paging x) of Inr s' \<Rightarrow> s' | Inl _ \<Rightarrow> s)" by (simp add: boot_devices_def x_def)
  show "boot_devices s = s\<lparr>phys_mem := phys_mem (boot_devices s), console := console (boot_devices s), cr3 := pml4 s, tss := tss (boot_devices s),
     port_log := port_log (boot_devices s), interrupt_handlers := interrupt_handlers (boot_devices s), timer_frequency := 100\<rparr>"
    "interrupt_handlers (boot_devices s) 32 = Some Timer_callback"
    unfolding z unfolding y unfolding x by (simp_all add: init_timer_def Let_def outb_def register_interrupt_handler_def terminal_writestring_eq)
qed

text \<open>Up to \<open>process_init\<close> only the listed fields change.\<close>

lemma early_boot:
  fixes s :: "'a kcalls_scheme"
  obtains s1 s4 b tp fp rp m c ts l h where "pmm_init 0x4000000 (boot_banner s) = Inr s1" "pmm_inv s4" "free_frames s4 = {1024..<16384}"
    "init_timer 100 (init_paging (init_exceptions (init_pic (tss_init s1)))) = Inr s4" "h 32 = Some Timer_callback"
    "s4 = s\<lparr>pmm_bitmap := b, pmm_total_pages := tp, pmm_free_pages := fp, pmm_reserved_pages := rp, phys_mem := m, console := c,
       cr3 := pml4 s, tss := ts, port_log := l, interrupt_handlers := h, timer_frequency := 100\<rparr>"
proof -
  obtain s1 where p: "pmm_init 0x4000000 (boot_banner s) = Inr s1" "pmm_inv s1" "free_frames s1 = {1024..<16384}"
    by (rule pmm_init_ok [where s = "boot_banner s" and memory_size = "0x4000000"]) auto
  obtain c0 where "boot_banner s = s\<lparr>console := c0\<rparr>" using boot_text(1) [of s] by blast
  moreover obtain b tp fp rp c1 where "s1 = (boot_banner s)\<lparr>pmm_bitmap := b, pmm_total_pages := tp, pmm_free_pages := fp, pmm_reserved_pages := rp, console := c1\<rparr>"
    using pmm_init_frame [OF p(1)] by blast
  ultimately have s1: "s1 = s\<lparr>pmm_bitmap := b, pmm_total_pages := tp, pmm_free_pages := fp, pmm_reserved_pages := rp, console := c1\<rparr>" by simp
  obtain m c ts l h where s4: "boot_devices s1 = s1\<lparr>phys_mem := m, console := c, cr3 := pml4 s1, tss := ts, port_log := l, interrupt_handlers := h, timer_frequency := 100\<rparr>"
    "h 32 = Some Timer_callback"
    using boot_devices_frame [of s1] by blast
  have "pmm_inv (boot_devices s1) = pmm_inv s1" "free_frames (boot_devices s1) = free_frames s1"
    unfolding s4(1) by (simp_all add: free_frames_def pmm_inv_def)
  then have inv: "pmm_inv (boot_devices s1)" "free_frames (boot_devices s1) = {1024..<16384}" using p(2,3) by simp_all
  have "boot_devices s1 = s\<lparr>pmm_bitmap := b, pmm_total_pages := tp, pmm_free_pages := fp, pmm_reserved_pages := rp, phys_mem := m, console := c,
       cr3 := pml4 s, tss := ts, port_log := l, interrupt_handlers := h, timer_frequency := 100\<rparr>"
    unfolding s4(1) by (simp add: s1)
  with p(1) inv boot_devices_run s4(2) show ?thesis by (rule that)
qed

lemma late_boot:
  obtains c st where "boot_ready (init_syscalls (init_keyboard (scheduler_init s))) = s\<lparr>console := c, scheduler_enabled := False, schedule_count := 0,
      kbd_read_pos := 0, kbd_write_pos := 0, syscall_table := st,
      interrupt_handlers := (interrupt_handlers s)(33 \<mapsto> Keyboard_callback, 128 \<mapsto> Syscall_handler)\<rparr>"
proof -
  let ?s' = "boot_ready (init_syscalls (init_keyboard (scheduler_init s)))"
  have "?s' = s\<lparr>console := console ?s', scheduler_enabled := False, schedule_count := 0, kbd_read_pos := 0, kbd_write_pos := 0,
      syscall_table := syscall_table (init_syscalls s), interrupt_handlers := (interrupt_handlers s)(33 \<mapsto> Keyboard_callback, 128 \<mapsto> Syscall_handler)\<rparr>"
    by (simp add: boot_ready_def stmts_def terminal_writestring_eq init_syscalls_def Let_def init_keyboard_def scheduler_init_def register_interrupt_handler_def)
  then show ?thesis by (rule that)
qed

lemma kernel_init_run:
  assumes "pmm_init 0x4000000 (boot_banner s) = Inr s1" "init_timer 100 (init_paging (init_exceptions (init_pic (tss_init s1)))) = Inr s4"
    and "process_init s4 = Inr s5" "ramfs s5 = ramfs s"
  shows "kernel_init gdt_addr tss_addr idt_addr stub (d, s) = bind_res (fs_init (ramfs s)) (\<lambda>fs.
      Inr (init_idt idt_addr stub (init_gdt gdt_addr tss_addr d), (boot_ready (init_syscalls (init_keyboard (scheduler_init s5))))\<lparr>ramfs := fs\<rparr>))"
proof -
  let ?s6 = "init_syscalls (init_keyboard (scheduler_init s5))"
  have "ramfs ?s6 = ramfs s"
    using assms(4) by (simp add: init_syscalls_def Let_def init_keyboard_def scheduler_init_def register_interrupt_handler_def terminal_writestring_eq)
  moreover have "boot_ready (?s6\<lparr>ramfs := fs\<rparr>) = (boot_ready ?s6)\<lparr>ramfs := fs\<rparr>" for fs
    by (simp add: boot_ready_def stmts_def terminal_writestring_eq)
  ultimately show ?thesis using assms(1-3) by (simp add: kernel_init_def Let_def)
qed


definition kcalls_boot :: kcalls where
  "kcalls_boot = (ksys.extend (kdev.extend kdev_boot \<lparr>ramfs = ramfs_zero, nodes_base = 0x300000\<rparr>) \<lparr>syscall_table = []\<rparr>)\<lparr>pml4 := 0x1000000\<rparr>"


end
