(* ===== verification/User_Mode.thy ===== *)
theory User_Mode
  imports Exceptions
begin

text \<open>
  Entering user mode (\<open>src/src/arch/x86_64/usermode.c\<close>).  The inline assembly of
  \<open>switch_to_user_mode\<close> builds an interrupt frame below the top of the user stack and executes
  \<open>iretq\<close>; the frame that \<open>iretq\<close> loads is the result.
\<close>

abbreviation (input) USER_CODE_SEL :: u64 where "USER_CODE_SEL \<equiv> 0x1B"
abbreviation (input) USER_DATA_SEL :: u64 where "USER_DATA_SEL \<equiv> 0x23"

text \<open>What \<open>iretq\<close> takes from the stack.\<close>

record iret_frame =
  iret_rip :: u64
  iret_cs :: u64
  iret_rflags :: u64
  iret_rsp :: u64
  iret_ss :: u64

definition pushq :: "u64 \<Rightarrow> u64 \<times> pmem \<Rightarrow> u64 \<times> pmem" where
  "pushq v = (\<lambda>(sp, m). (sp - 8, store64 m (sp - 8) v))"

definition iretq :: "u64 \<times> pmem \<Rightarrow> iret_frame" where
  "iretq = (\<lambda>(sp, m). \<lparr>iret_rip = load64 m sp, iret_cs = load64 m (sp + 8), iret_rflags = load64 m (sp + 16),
     iret_rsp = load64 m (sp + 24), iret_ss = load64 m (sp + 32)\<rparr>)"

definition switch_to_user_mode :: "u64 \<Rightarrow> u64 \<Rightarrow> u64 \<Rightarrow> 'a kproc_scheme \<Rightarrow> (iret_frame \<times> 'a kproc_scheme) res" where
  "switch_to_user_mode start user_stack flgs s =
     (let current = process_get_current s
      in if current = 0 then Inl (Panic ''switch_to_user_mode: No current process!'')
      else let s1 = tss_set_kernel_stack (kernel_stack (procs s current) + kernel_stack_size (procs s current)) s;
               s2 = stmts [terminal_writestring ''Switching to user mode: entry='', terminal_writestring '', stack='',
                      terminal_writestring nl] s1;
               (sp, m) = fold pushq [USER_DATA_SEL, user_stack, flgs, USER_CODE_SEL, start] (user_stack, phys_mem s2)
           in Inr (iretq (sp, m), s2\<lparr>phys_mem := m\<rparr>))"

definition create_user_process :: "string \<Rightarrow> u64 \<Rightarrow> 'a kproc_scheme \<Rightarrow> (u64 \<times> 'a kproc_scheme) res" where
  "create_user_process name start s =
     bind_res (process_create name 0 1 s) (\<lambda>(proc, s1).
       if proc = 0 then Inr (0, s1)
       else bind_res (kmalloc 8192 s1) (\<lambda>(user_stack, s2).
         if user_stack = 0 then bind_res (process_destroy proc s2) (\<lambda>s3. Inr (0, s3))
         else Inr (proc, stmts [upd_proc proc (\<lambda>p. p\<lparr>entry_point := start\<rparr>),
                terminal_writestring ''Created user mode process: '', terminal_writestring name, terminal_writestring nl] s2)))"

text \<open>\<open>user_mode_test\<close> is the address of the test program.\<close>

definition test_user_mode :: "u64 \<Rightarrow> u64 \<Rightarrow> 'a kproc_scheme \<Rightarrow> (iret_frame \<times> 'a kproc_scheme) res" where
  "test_user_mode user_mode_test flgs s =
     bind_res (kmalloc 4096 (terminal_writestring (nl @ ''=== Testing User Mode ==='' @ nl) s)) (\<lambda>(user_stack, s1).
       if user_stack = 0 then Inl (Panic ''Failed to allocate user stack!'')
       else switch_to_user_mode user_mode_test (user_stack + 4096) flgs
              (terminal_writestring (''Attempting to switch to user mode...'' @ nl) s1))"

section \<open>The frame\<close>

lemma apart8_sub:
  "apart8 (sp - 40) (sp - 32)" "apart8 (sp - 40) (sp - 24)" "apart8 (sp - 40) (sp - 16)" "apart8 (sp - 40) (sp - 8)"
  "apart8 (sp - 32) (sp - 24)" "apart8 (sp - 32) (sp - 16)" "apart8 (sp - 32) (sp - 8)"
  "apart8 (sp - 24) (sp - 16)" "apart8 (sp - 24) (sp - 8)" "apart8 (sp - 16) (sp - 8)"
  by (simp_all add: apart8_def)

lemma user_frame:
  "fold pushq [a, b, c, d, e] (sp, m) = (sp - 40, store64 (store64 (store64 (store64 (store64 m (sp - 8) a) (sp - 16) b) (sp - 24) c) (sp - 32) d) (sp - 40) e)"
  "iretq (fold pushq [a, b, c, d, e] (sp, m)) = \<lparr>iret_rip = e, iret_cs = d, iret_rflags = c, iret_rsp = b, iret_ss = a\<rparr>"
  by (simp_all add: pushq_def iretq_def apart8_sub)

lemma user_frame_outside:
  assumes "40 \<le> unat (x - (sp - 40))"
  shows "snd (fold pushq [a, b, c, d, e] (sp, m)) x = m x"
proof -
  have far: "8 \<le> unat (x - (sp - 40 + k))" if "unat k \<le> 32" for k :: u64
  proof -
    have "unat (x - (sp - 40) - k) = unat (x - (sp - 40)) - unat k" using assms that by (intro unat_sub) (simp add: word_le_nat_alt)
    then show ?thesis using assms that by (simp add: algebra_simps)
  qed
  show ?thesis unfolding user_frame using far [of 0] far [of 8] far [of 16] far [of 24] far [of 32]
    by (simp add: store64_elsewhere)
qed

text \<open>
  Entering user mode.  The processor continues at the entry point with the given stack and
  the selectors of the user code and data segments, both with privilege 3; the stack pointer for
  interrupts from user mode is the top of the kernel stack of the current process; and in memory
  only the 40 bytes below the top of the user stack change.
\<close>

theorem switch_to_user_mode_frame:
  assumes "process_get_current s \<noteq> 0"
  shows "\<exists>s'. switch_to_user_mode start user_stack flgs s =
       Inr (\<lparr>iret_rip = start, iret_cs = 3 * 8 + 3, iret_rflags = flgs, iret_rsp = user_stack, iret_ss = 4 * 8 + 3\<rparr>, s') \<and>
     tss_get_kernel_stack s' = kernel_stack (procs s (process_get_current s)) + kernel_stack_size (procs s (process_get_current s)) \<and>
     (\<forall>x. unat (x - (user_stack - 40)) < 40 \<or> phys_mem s' x = phys_mem s x) \<and> procs s' = procs s"
proof -
  let ?c = "process_get_current s"
  define fr where "fr = fold pushq [0x23, user_stack, flgs, 0x1B, start] (user_stack, phys_mem s)"
  have fr: "iretq fr = \<lparr>iret_rip = start, iret_cs = 0x1B, iret_rflags = flgs, iret_rsp = user_stack, iret_ss = 0x23\<rparr>"
    unfolding fr_def by (rule user_frame(2))
  let ?s' = "(stmts [terminal_writestring ''Switching to user mode: entry='', terminal_writestring '', stack='', terminal_writestring nl]
      (tss_set_kernel_stack (kernel_stack (procs s ?c) + kernel_stack_size (procs s ?c)) s))\<lparr>phys_mem := snd fr\<rparr>"
  have "switch_to_user_mode start user_stack flgs s = Inr (iretq fr, ?s')"
    using assms unfolding switch_to_user_mode_def Let_def fr_def by (simp add: stmts_def tss_set_kernel_stack_def terminal_writestring_eq split: prod.split)
  moreover have "unat (x - (user_stack - 40)) < 40 \<or> snd fr x = phys_mem s x" for x
    unfolding fr_def using user_frame_outside [of x user_stack] by (metis not_le)
  moreover have "tss_get_kernel_stack ?s' = kernel_stack (procs s ?c) + kernel_stack_size (procs s ?c)" "procs ?s' = procs s"
    by (simp_all add: stmts_def tss_set_kernel_stack_def tss_get_kernel_stack_def terminal_writestring_eq)
  ultimately show ?thesis unfolding fr by (intro exI [of _ ?s']) simp
qed

theorem switch_to_user_mode_frame_witness:
  "\<exists>s'. switch_to_user_mode 0x400000 0x7000 0x202 kproc_boot =
     Inr (\<lparr>iret_rip = 0x400000, iret_cs = 0x1B, iret_rflags = 0x202, iret_rsp = 0x7000, iret_ss = 0x23\<rparr>, s') \<and>
     tss_get_kernel_stack s' = 0 \<and> phys_mem s' 0x7000 = phys_mem kproc_boot 0x7000"
proof -
  have c: "process_get_current kproc_boot = 0x9000" "procs kproc_boot 0x9000 = zero_process"
    by (simp_all add: process_get_current_def kproc_boot_simps)
  obtain s' where s': "switch_to_user_mode 0x400000 0x7000 0x202 kproc_boot =
     Inr (\<lparr>iret_rip = 0x400000, iret_cs = 0x1B, iret_rflags = 0x202, iret_rsp = 0x7000, iret_ss = 0x23\<rparr>, s')"
    "tss_get_kernel_stack s' = 0" "\<And>x. unat (x - (0x7000 - 40)) < 40 \<or> phys_mem s' x = phys_mem kproc_boot x"
    using switch_to_user_mode_frame [of kproc_boot "0x400000" "0x7000" "0x202"] by (auto simp: c zero_process_def)
  show ?thesis using s'(1,2) s'(3) [of "0x7000"] by simp
qed

end
