(* ===== verification/Fd_Laws.thy ===== *)
theory Fd_Laws
  imports Fd_Calls
begin

text \<open>
  What the descriptor system calls of \<open>src/src/kernel/syscall.c\<close> guarantee: descriptors always
  refer to existing nodes, bytes written through one descriptor are read back through another,
  and the end of a pipe is never seen.
\<close>

section \<open>User memory and node pointers\<close>

lemma fold_store:
  assumes "inj_on g {..<n}" "i < n"
  shows "fold (\<lambda>i m. m(g i := b i)) [0..<n] m (g i) = b i"
  using assms
proof (induction n)
  case (Suc n)
  then show ?case by (cases "i = n") (auto simp: inj_on_def)
qed simp

lemma user_bytes_put_user:
  assumes "inj_on (\<lambda>i. va_pa (ptr + of_nat i)) {..<length bs}"
  shows "user_bytes va_pa ptr (length bs) (put_user va_pa ptr bs s) = bs"
  by (intro nth_equalityI) (simp_all add: user_bytes_def put_user_def fold_store [OF assms])

lemma length_user_bytes [simp]: "length (user_bytes va_pa ptr n s) = n"
  by (simp add: user_bytes_def)

lemma node_index_ptr: "n < 64 \<Longrightarrow> node_index (node_ptr n s) s = n"
proof -
  assume "n < 64"
  then have "unat (60 * of_nat n :: u64) = 60 * n" by (simp add: unat_word_ariths unat_of_nat)
  then show ?thesis by (simp add: node_index_def node_ptr_def)
qed

lemma put_user_fields [simp]:
  "ramfs (put_user va_pa ptr bs s) = ramfs s" "fd_tables (put_user va_pa ptr bs s) = fd_tables s"
  "procs (put_user va_pa ptr bs s) = procs s" "current_process (put_user va_pa ptr bs s) = current_process s"
  "nodes_base (put_user va_pa ptr bs s) = nodes_base s" "pipes (put_user va_pa ptr bs s) = pipes s"
  by (simp_all add: put_user_def)

lemma upd_fd_fields [simp]:
  "ramfs (upd_fd t i f s) = ramfs s" "phys_mem (upd_fd t i f s) = phys_mem s" "procs (upd_fd t i f s) = procs s"
  "current_process (upd_fd t i f s) = current_process s" "nodes_base (upd_fd t i f s) = nodes_base s"
  "pipes (upd_fd t i f s) = pipes s" "length (fd_tables (upd_fd t i f s) t) = length (fd_tables s t)"
  "user_bytes va_pa ptr n (upd_fd t i f s) = user_bytes va_pa ptr n s"
  by (simp_all add: upd_fd_def user_bytes_def)

lemma get_fd_table_cong:
  "procs s' = procs s \<Longrightarrow> current_process s' = current_process s \<Longrightarrow> idle_process s' = idle_process s \<Longrightarrow> get_fd_table s' = get_fd_table s"
  by (simp add: get_fd_table_def process_get_current_def Let_def)

lemma fd_of_upd: "i < length (fd_tables s t) \<Longrightarrow> fd_of t j (upd_fd t i f s) = (if j = i then f (fd_of t i s) else fd_of t j s)"
  by (simp add: fd_of_def upd_fd_def)

lemma node_ptr_cong: "nodes_base s' = nodes_base s \<Longrightarrow> node_ptr n s' = node_ptr n s"
  by (simp add: node_ptr_def)

section \<open>Descriptors refer to existing nodes\<close>

definition fd_ok :: "u64 \<Rightarrow> 'a ksys_scheme \<Rightarrow> bool" where
  "fd_ok t s \<longleftrightarrow> length (fd_tables s t) = 16 \<and>
     (\<forall>i < 16. node (fd_of t i s) = 0 \<or> (\<exists>n. live (ramfs s) n \<and> node (fd_of t i s) = node_ptr n s))"

lemma fd_ok_upd:
  assumes "fd_ok t s" "i < 16" "node (f (fd_of t i s)) = 0 \<or> (\<exists>n. live (ramfs s) n \<and> node (f (fd_of t i s)) = node_ptr n s)"
  shows "fd_ok t (upd_fd t i f s)"
proof -
  have len: "length (fd_tables s t) = 16" using assms(1) by (simp add: fd_ok_def)
  have ptr: "node_ptr n (upd_fd t i f s) = node_ptr n s" for n by (rule node_ptr_cong) simp
  show ?thesis using assms len by (auto simp: fd_ok_def fd_of_upd ptr)
qed

lemma fd_ok_ramfs:
  assumes "fd_ok t s" "\<And>n. live (ramfs s) n \<Longrightarrow> live fs n"
  shows "fd_ok t (s\<lparr>ramfs := fs\<rparr>)"
proof -
  have "node_ptr n (s\<lparr>ramfs := fs\<rparr>) = node_ptr n s" for n by (rule node_ptr_cong) simp
  then show ?thesis using assms by (simp add: fd_ok_def fd_of_def) blast
qed

lemma live_upd_node: "(\<And>x. inode_num (f x) = inode_num x) \<Longrightarrow> live (upd_node n f fs) m = live fs m"
  by (cases "m = n"; cases "n < length (fs_nodes fs)") (simp_all add: live_def upd_node_def list_update_beyond)

lemma live_upd_block: "live (upd_block b f fs) = live fs"
  by (simp add: live_def upd_block_def fun_eq_iff)

lemma finddir_live:
  assumes "ramfs_finddir p name fs = Inr (Some n)"
  shows "live fs n"
proof -
  have "finddir_scan fs data name is = Some n \<Longrightarrow> live fs n" for data "is"
    by (induction "is") (auto simp: finddir_scan_Cons node_of_def find_upt_Some live_def split: if_splits)
  then show ?thesis using assms by (auto simp: ramfs_finddir_def res_simps split: if_splits)
qed

lemma add_entry_live: "add_entry p name e fs = Inr fs' \<Longrightarrow> live fs' m = live fs m"
  by (auto simp: add_entry_def Let_def res_simps live_upd_node live_upd_block split: if_splits option.splits)

lemma create_live:
  assumes "ramfs_create_file p name fs = Inr (nd, fs')" "next_inode fs \<noteq> 0" "length (fs_nodes fs) = 64"
  shows "live fs n \<Longrightarrow> live fs' n" "nd = Some m \<Longrightarrow> live fs' m"
proof -
  have "live fs' = (\<lambda>k. live fs k \<or> Some k = nd)"
  proof (cases "nd")
    case None
    then show ?thesis using assms(1) by (auto simp: ramfs_create_file_def Let_def res_simps split: if_splits option.splits)
  next
    case (Some i)
    then have i: "free_node fs = Some i" and a: "add_entry p name (next_inode fs) (new_node i name fs) = Inr fs'"
      using assms(1) by (auto simp: ramfs_create_file_def Let_def res_simps new_node_def split: if_splits option.splits)
    have "i < 64" using i by (auto simp: free_node_def find_upt_Some)
    then have "live (new_node i name fs) = (\<lambda>k. live fs k \<or> k = i)"
      using assms(2,3) by (auto simp: live_def new_node_def upd_node_def fun_eq_iff nth_list_update)
    then show ?thesis using add_entry_live [OF a] Some by (auto simp: fun_eq_iff)
  qed
  then show "live fs n \<Longrightarrow> live fs' n" "nd = Some m \<Longrightarrow> live fs' m" by auto
qed


lemma upd_node_next_inode [simp]: "next_inode (upd_node n f fs) = next_inode fs" "length (fs_nodes (upd_node n f fs)) = length (fs_nodes fs)"
    "next_inode (upd_block b g fs) = next_inode fs" "fs_nodes (upd_block b g fs) = fs_nodes fs"
  by (simp_all add: upd_node_def upd_block_def)

lemma allocate_block_nodes [simp]: "fs_nodes (snd (allocate_block fs)) = fs_nodes fs" "next_inode (snd (allocate_block fs)) = next_inode fs"
  by (simp_all add: allocate_block_def split: option.split)

text \<open>What the nodes look like after a call: no node goes away, and at most one is created.\<close>

definition nodes_grow :: "ramfs_t \<Rightarrow> ramfs_t \<Rightarrow> bool" where
  "nodes_grow fs fs' \<longleftrightarrow> (\<forall>n. live fs n \<longrightarrow> live fs' n) \<and> length (fs_nodes fs') = length (fs_nodes fs) \<and>
     (next_inode fs' = next_inode fs \<or> next_inode fs' = next_inode fs + 1)"

lemma nodes_grow_refl [simp]: "nodes_grow fs fs"
  by (simp add: nodes_grow_def)

lemma nodes_grow_same:
  "fs_nodes fs' = fs_nodes fs \<Longrightarrow> next_inode fs' = next_inode fs \<Longrightarrow> nodes_grow fs fs'"
  by (simp add: nodes_grow_def live_def)

lemma next_or_new_nodes: "next_or_new b fs = Inr (r, fs') \<Longrightarrow> fs_nodes fs' = fs_nodes fs \<and> next_inode fs' = next_inode fs"
  using allocate_block_nodes [of fs]
  by (cases "allocate_block fs") (auto simp: next_or_new_def res_simps Let_def split: if_splits)

lemma write_skip_nodes: "write_skip b off fs = Inr (r, fs') \<Longrightarrow> fs_nodes fs' = fs_nodes fs \<and> next_inode fs' = next_inode fs"
proof (induction b off fs arbitrary: fs' rule: write_skip.induct)
  case (1 b off fs)
  show ?case using "1.prems" [unfolded write_skip.simps [of b off fs]] "1.IH"
    by (auto simp: res_simps split: if_splits option.splits dest!: next_or_new_nodes)
qed

lemma write_loop_nodes: "write_loop sz buf b off n fs = Inr (r, fs') \<Longrightarrow> fs_nodes fs' = fs_nodes fs \<and> next_inode fs' = next_inode fs"
proof (induction sz buf b off n fs arbitrary: fs' rule: write_loop.induct)
  case (1 sz buf b off n fs)
  show ?case
  proof (cases "n < sz")
    case True
    note prem = "1.prems" [unfolded write_loop.simps [of sz buf b off n fs] Let_def]
    note IH = "1.IH" [OF True refl refl refl refl]
    show ?thesis
    proof (cases "n + chunk off sz n < sz")
      case more: True
      obtain nx fs2 where nx: "next_or_new b (upd_block (unat b) (\<lambda>x. x\<lparr>fs_data := store_bytes (unat off)
          (take (unat (chunk off sz n)) (drop (unat n) buf)) (fs_data x)\<rparr>) fs) = Inr (nx, fs2)"
        using prem True more by (auto simp: res_simps)
      then show ?thesis using next_or_new_nodes [OF nx] prem True more IH(1)
        by (auto simp: res_simps split: option.splits)
    next
      case False
      then show ?thesis using prem True IH(2) by (auto simp: res_simps)
    qed
  next
    case False
    then show ?thesis using "1.prems" [unfolded write_loop.simps [of sz buf b off n fs]] by simp
  qed
qed

lemma ramfs_write_grow: "ramfs_write n ofs sz buf fs = Inr (w, fs') \<Longrightarrow> nodes_grow fs fs'"
proof -
  have e: "live (ensure_first n fs) m = live fs m" "length (fs_nodes (ensure_first n fs)) = length (fs_nodes fs)"
      "next_inode (ensure_first n fs) = next_inode fs" for m
    using allocate_block_nodes [of fs]
    by (cases "allocate_block fs"; simp add: ensure_first_def live_upd_node; simp add: live_def)+
  have g: "live (grow_size n x fs3) m = live fs3 m" "length (fs_nodes (grow_size n x fs3)) = length (fs_nodes fs3)"
      "next_inode (grow_size n x fs3) = next_inode fs3" for m x fs3
    by (simp_all add: grow_size_def live_upd_node)
  have same: "live fs3 m = live (ensure_first n fs) m" if "fs_nodes fs3 = fs_nodes (ensure_first n fs)" for fs3 m
    using that by (simp add: live_def)
  assume "ramfs_write n ofs sz buf fs = Inr (w, fs')"
  then show ?thesis
    by (auto simp: ramfs_write_def Let_def res_simps nodes_grow_def e g split: if_splits option.splits
      dest!: write_skip_nodes write_loop_nodes) (simp_all add: same e)
qed

lemma add_entry_grow:
  "add_entry p name e fs = Inr fs' \<Longrightarrow> length (fs_nodes fs') = length (fs_nodes fs) \<and> next_inode fs' = next_inode fs"
  by (auto simp: add_entry_def Let_def res_simps split: if_splits option.splits)

lemma create_file_grow:
  assumes "ramfs_create_file p name fs = Inr (nd, fs')" "next_inode fs \<noteq> 0" "length (fs_nodes fs) = 64"
  shows "nodes_grow fs fs'"
  using create_live(1) [OF assms] assms(1)
  by (auto simp: nodes_grow_def ramfs_create_file_def Let_def res_simps split: if_splits option.splits dest!: add_entry_grow)

lemma create_dir_grow:
  assumes "ramfs_create_dir p name fs = Inr (nd, fs')" "length (fs_nodes fs) = 64"
  shows "nodes_grow fs fs'"
proof (cases "fs_type (fs_nodes fs ! p) = 2 \<and> free_node fs \<noteq> None \<and> fits_name name")
  case True
  then obtain i where i: "free_node fs = Some i" by blast
  have free: "\<not> live fs i" "i < 64" using i by (auto simp: free_node_def find_upt_Some live_def)
  let ?fs0 = "upd_node i (\<lambda>n. n\<lparr>fs_name := name, fs_type := 2, fs_size := 0, permissions := 4 OR 2 OR 1, inode_num := next_inode fs\<rparr>)
      (fs\<lparr>next_inode := next_inode fs + 1\<rparr>)"
  obtain b fs1 where b: "allocate_block ?fs0 = (b, fs1)" by fastforce
  then have fs1: "fs_nodes fs1 = fs_nodes ?fs0" "next_inode fs1 = next_inode fs + 1" using allocate_block_nodes [of ?fs0] by auto
  have keep: "live (upd_node i f fs1) m" if "live fs m" for m f
    using that free assms(2) by (cases "m = i") (simp_all add: live_def upd_node_def fs1)
  have keep2: "live (upd_node i g (upd_node i f fs1)) m" if "live fs m" for m f g
    using that free assms(2) by (cases "m = i") (simp_all add: live_def upd_node_def fs1)
  show ?thesis
  proof (cases "b = - 1")
    case True
    then have "fs' = upd_node i (\<lambda>n. n\<lparr>inode_num := 0\<rparr>) (upd_node i (\<lambda>n. n\<lparr>first_block := b\<rparr>) fs1)"
      using assms(1) b i \<open>_ \<and> _ \<and> _\<close> by (simp add: ramfs_create_dir_def Let_def)
    then show ?thesis using keep2 fs1 by (simp add: nodes_grow_def)
  next
    case False
    then have "add_entry p name (next_inode fs) (upd_block (unat b) (\<lambda>blk. blk\<lparr>fs_data := replicate 512 0\<rparr>)
        (upd_node i (\<lambda>n. n\<lparr>first_block := b\<rparr>) fs1)) = Inr fs'"
      using assms(1) b i \<open>_ \<and> _ \<and> _\<close> by (auto simp: ramfs_create_dir_def Let_def res_simps)
    then show ?thesis using add_entry_live [of p name "next_inode fs"] add_entry_grow [of p name "next_inode fs"] keep fs1
      by (simp add: nodes_grow_def live_upd_block)
  qed
next
  case False
  then show ?thesis using assms(1) by (auto simp: ramfs_create_dir_def Let_def split: if_splits option.splits)
qed

text \<open>One call of the running process on its descriptors; the keyboard is not read.\<close>

inductive fd_step :: "(nat \<Rightarrow> 'a ksys_scheme \<Rightarrow> 'a ksys_scheme) \<Rightarrow> (u64 \<Rightarrow> u64) \<Rightarrow> 'a ksys_scheme \<Rightarrow> 'a ksys_scheme \<Rightarrow> bool"
  for irq va_pa where
  call_write: "sys_write va_pa fd p n s = Inr (r, s') \<Longrightarrow> fd_step irq va_pa s s'"
| call_read: "fd \<noteq> 0 \<Longrightarrow> sys_read irq va_pa fd p n s = Inr (r, s') \<Longrightarrow> fd_step irq va_pa s s'"
| call_open: "sys_open va_pa p n s = Inr (r, s') \<Longrightarrow> fd_step irq va_pa s s'"
| call_close: "sys_close fd s = (r, s') \<Longrightarrow> fd_step irq va_pa s s'"
| call_stat: "sys_stat va_pa p q s = Inr (r, s') \<Longrightarrow> fd_step irq va_pa s s'"
| call_mkdir: "sys_mkdir va_pa p s = Inr (r, s') \<Longrightarrow> fd_step irq va_pa s s'"
| call_readdir: "sys_readdir va_pa fd p s = Inr (r, s') \<Longrightarrow> fd_step irq va_pa s s'"
| call_pipe: "sys_pipe va_pa p s = Inr (r, s') \<Longrightarrow> fd_step irq va_pa s s'"
| call_dup2: "sys_dup2 fd fd' s = (r, s') \<Longrightarrow> fd_step irq va_pa s s'"

text \<open>The effect of a call as the invariant sees it.\<close>

definition keeps_fds :: "'a ksys_scheme \<Rightarrow> 'a ksys_scheme \<Rightarrow> bool" where
  "keeps_fds s s' \<longleftrightarrow> fd_ok (get_fd_table s) s' \<and> get_fd_table s' = get_fd_table s \<and> nodes_grow (ramfs s) (ramfs s')"

definition fd_frame :: "'a ksys_scheme \<Rightarrow> 'a ksys_scheme \<Rightarrow> bool" where
  "fd_frame s s' \<longleftrightarrow> fd_tables s' = fd_tables s \<and> procs s' = procs s \<and> current_process s' = current_process s \<and>
     idle_process s' = idle_process s \<and> nodes_base s' = nodes_base s \<and> nodes_grow (ramfs s) (ramfs s')"

lemma fd_frame_intros [intro!]:
  "fd_frame s s" "nodes_grow (ramfs s) fs \<Longrightarrow> fd_frame s (s\<lparr>ramfs := fs\<rparr>)" "fd_frame s (s\<lparr>pipes := ps\<rparr>)"
  "fd_frame s (put_user va_pa p bs s)" "fd_frame s (put_user va_pa p bs (s\<lparr>pipes := ps\<rparr>))"
  by (simp_all add: fd_frame_def put_user_def)

lemma fd_frame_console: "fd_frame s (fold terminal_putchar_log cs s)"
  using terminal_writestring_eq [of cs s] by (simp add: terminal_writestring_def fd_frame_def)

lemma fd_frame_table: "fd_frame s s' \<Longrightarrow> get_fd_table s' = get_fd_table s"
  by (rule get_fd_table_cong) (simp_all add: fd_frame_def)

lemma fd_frame_ok: "fd_frame s s' \<Longrightarrow> fd_ok t s \<Longrightarrow> fd_ok t s'"
  by (simp add: fd_frame_def fd_ok_def fd_of_def nodes_grow_def node_ptr_def) blast

lemma keeps_frame: "fd_frame s s' \<Longrightarrow> fd_ok (get_fd_table s) s \<Longrightarrow> keeps_fds s s'"
  using fd_frame_ok [of s s'] fd_frame_table [of s s'] by (simp add: keeps_fds_def fd_frame_def)

lemma keeps_simple:
  assumes "fd_ok (get_fd_table s) s"
  shows "keeps_fds s s" "keeps_fds s (put_user va_pa p bs s)" "keeps_fds s (s\<lparr>pipes := ps\<rparr>)"
    "keeps_fds s (put_user va_pa p bs (s\<lparr>pipes := ps\<rparr>))" "keeps_fds s (fold terminal_putchar_log cs s)"
    "nodes_grow (ramfs s) fs \<Longrightarrow> keeps_fds s (s\<lparr>ramfs := fs\<rparr>)"
  using assms by (auto intro: keeps_frame fd_frame_console)

lemma keeps_upd:
  assumes "keeps_fds s s1" "i < 16"
    and "node (f (fd_of (get_fd_table s) i s1)) \<in> {0, node (fd_of (get_fd_table s) i s1)} \<or>
      (\<exists>n. live (ramfs s1) n \<and> node (f (fd_of (get_fd_table s) i s1)) = node_ptr n s1)"
  shows "keeps_fds s (upd_fd (get_fd_table s) i f s1)"
proof -
  have "fd_ok (get_fd_table s) s1" using assms(1) by (simp add: keeps_fds_def)
  then have "fd_ok (get_fd_table s) (upd_fd (get_fd_table s) i f s1)"
    using assms(2,3) by (intro fd_ok_upd) (simp_all add: fd_ok_def, metis)
  moreover have "get_fd_table (upd_fd (get_fd_table s) i f s1) = get_fd_table s1"
    by (rule get_fd_table_cong) (simp_all add: upd_fd_def)
  ultimately show ?thesis using assms(1) by (simp add: keeps_fds_def)
qed

lemma unat_fd: "fd < (16 :: u64) \<Longrightarrow> unat fd < 16"
  by (simp add: word_less_nat_alt)

lemma sys_write_keeps:
  assumes "sys_write va_pa fd p n s = Inr (r, s')" and ok: "fd_ok (get_fd_table s) s"
  shows "keeps_fds s s'"
proof -
  have grow: "nodes_grow (ramfs s) fs" if "fs_write m ofs k bs (ramfs s) = Inr (w, fs)" for m ofs k bs w fs
    using ramfs_write_grow that by (simp add: fs_write_def)
  show ?thesis using assms
    by (auto simp: sys_write_def Let_def res_simps split: if_splits option.splits
      intro!: keeps_simple keeps_upd grow unat_fd)
qed

lemma sys_read_keeps:
  assumes "sys_read irq va_pa fd p n s = Inr (r, s')" "fd \<noteq> 0" "fd_ok (get_fd_table s) s"
  shows "keeps_fds s s'"
  using assms by (auto simp: sys_read_def Let_def res_simps split: if_splits option.splits intro!: keeps_simple keeps_upd unat_fd)

lemma sys_open_keeps:
  assumes call: "sys_open va_pa p n s = Inr (r, s')" and ok: "fd_ok (get_fd_table s) s"
    and fs: "next_inode (ramfs s) \<noteq> 0" "length (fs_nodes (ramfs s)) = 64"
  shows "keeps_fds s s'"
proof -
  let ?t = "get_fd_table s"
  have put: "keeps_fds s (upd_fd ?t fd (\<lambda>e. e\<lparr>node := node_ptr m s, offset := 0, flags := fl, is_pipe := False\<rparr>) (s\<lparr>ramfs := fs'\<rparr>))"
    if "nodes_grow (ramfs s) fs'" "live fs' m" "fd < 16" for fd fl m fs'
    using that keeps_simple(6) [OF ok] by (intro keeps_upd) (auto simp: node_ptr_def)
  have fd: "fd < 16" if "find (fd_free ?t s) [3..<16] = Some fd" for fd
    using that by (auto simp: find_Some_iff simp del: upt_rec_numeral)
  have live: "live (ramfs s) m" if "fs_finddir root nm (ramfs s) = Inr (Some m)" for root nm m
    using finddir_live that by (simp add: fs_finddir_def)
  show ?thesis
  proof (cases "p = 0 \<or> ?t = 0 \<or> find (fd_free ?t s) [3..<16] = None \<or> fs_root (ramfs s) = None")
    case True
    then have "s' = s" using call
      by (cases "p = 0 \<or> ?t = 0"; cases "find (fd_free ?t s) [3..<16]"; cases "fs_root (ramfs s)") (auto simp: sys_open_def Let_def simp del: upt_rec_numeral)
    then show ?thesis using keeps_simple(1) [OF ok] by simp
  next
    case False
    then obtain fd root where f: "find (fd_free ?t s) [3..<16] = Some fd" "fs_root (ramfs s) = Some root" "p \<noteq> 0" "?t \<noteq> 0" by (auto simp del: upt_rec_numeral)
    note simps = sys_open_def Let_def f
    obtain path where u: "user_string va_pa p s = Inr path"
      using call f by (cases "user_string va_pa p s") (simp_all add: simps del: upt_rec_numeral)
    obtain found where c: "fs_finddir root (skip_slash path) (ramfs s) = Inr found"
      using call f u by (cases "fs_finddir root (skip_slash path) (ramfs s)") (simp_all add: simps del: upt_rec_numeral)
    show ?thesis
    proof (cases found)
      case None
      then obtain nd fs' where m: "ramfs_create_file root (skip_slash path) (ramfs s) = Inr (nd, fs')"
        using call f u c by (cases "ramfs_create_file root (skip_slash path) (ramfs s)") (auto simp: simps simp del: upt_rec_numeral)
      then show ?thesis using call f u c None put fd [OF f(1)] create_live(2) [OF m fs] create_file_grow [OF m fs] keeps_simple(6) [OF ok]
        by (cases nd) (auto simp: simps simp del: upt_rec_numeral)
    next
      case (Some m)
      then show ?thesis using call f u c live put [of "ramfs s"] fd [OF f(1)] by (auto simp: simps simp del: upt_rec_numeral)
    qed
  qed
qed

lemma sys_close_keeps:
  assumes "sys_close fd s = (r, s')" "fd_ok (get_fd_table s) s"
  shows "keeps_fds s s'"
  using assms by (auto simp: sys_close_def Let_def not_le split: if_splits intro!: keeps_simple keeps_upd unat_fd)

lemma sys_stat_keeps:
  assumes "sys_stat va_pa p q s = Inr (r, s')" "fd_ok (get_fd_table s) s"
  shows "keeps_fds s s'"
  using assms by (auto simp: sys_stat_def res_simps split: if_splits option.splits intro!: keeps_simple)

lemma sys_mkdir_keeps:
  assumes "sys_mkdir va_pa p s = Inr (r, s')" "fd_ok (get_fd_table s) s" "length (fs_nodes (ramfs s)) = 64"
  shows "keeps_fds s s'"
  using assms create_dir_grow [OF _ assms(3)]
  by (auto simp: sys_mkdir_def res_simps split: if_splits option.splits intro!: keeps_simple)

lemma sys_readdir_keeps:
  assumes "sys_readdir va_pa fd p s = Inr (r, s')" "fd_ok (get_fd_table s) s"
  shows "keeps_fds s s'"
  using assms
  by (auto simp: sys_readdir_def Let_def res_simps not_le split: if_splits option.splits intro!: keeps_simple keeps_upd unat_fd)

lemma kmalloc_fds:
  assumes "kmalloc k s = Inr (p, s')"
  shows "fd_tables s' = fd_tables s \<and> procs s' = procs s \<and> current_process s' = current_process s \<and>
     idle_process s' = idle_process s \<and> nodes_base s' = nodes_base s \<and> ramfs s' = ramfs s"
proof -
  define s0 where "s0 = (if heap_initialized s then s else init_heap s)"
  have "fd_tables s0 = fd_tables s \<and> procs s0 = procs s \<and> current_process s0 = current_process s \<and>
     idle_process s0 = idle_process s \<and> nodes_base s0 = nodes_base s \<and> ramfs s0 = ramfs s"
    by (simp add: s0_def init_heap_def Let_def)
  then show ?thesis using assms unfolding kmalloc_def s0_def [symmetric] Let_def
    by (auto simp: res_simps split: if_splits)
qed

lemma pipe_create_frame: "pipe_create s = Inr (p, s') \<Longrightarrow> fd_frame s s'"
proof -
  assume "pipe_create s = Inr (p, s')"
  then obtain s1 ps where a: "kmalloc 4116 s = Inr (p, s1)" "s' = s1 \<or> s' = s1\<lparr>pipes := ps\<rparr>"
    by (auto simp: pipe_create_def res_simps split: if_splits)
  then show ?thesis using kmalloc_fds [OF a(1)] by (auto simp: fd_frame_def)
qed

lemma sys_pipe_keeps:
  assumes call: "sys_pipe va_pa p s = Inr (r, s')" and ok: "fd_ok (get_fd_table s) s"
  shows "keeps_fds s s'"
proof -
  have put: "keeps_fds s (put_user va_pa q bs s1)" "keeps_fds s (s1\<lparr>pipes := ps\<rparr>)" if "keeps_fds s s1" for q bs s1 ps
    using that get_fd_table_cong [of "put_user va_pa q bs s1" s1] get_fd_table_cong [of "s1\<lparr>pipes := ps\<rparr>" s1]
    by (auto simp: keeps_fds_def fd_ok_def fd_of_def node_ptr_def put_user_def)
  have fds: "i < 16 \<and> j < 16" if "filter (fd_free t s1) [3..<16] = i # j # is" for t i j "is" and s1 :: "'a ksys_scheme"
  proof -
    have "{i, j} \<subseteq> set (filter (fd_free t s1) [3..<16])" unfolding that by simp
    then show ?thesis by (auto simp del: upt_rec_numeral)
  qed
  show ?thesis
  proof (cases "p = 0 \<or> get_fd_table s = 0")
    case True
    then show ?thesis using call keeps_simple(1) [OF ok] by (simp add: sys_pipe_def Let_def)
  next
    case False
    then obtain q s1 where s1: "pipe_create s = Inr (q, s1)" using call by (auto simp: sys_pipe_def Let_def res_simps)
    then have k: "keeps_fds s s1" using ok by (intro keeps_frame pipe_create_frame)
    have two: "keeps_fds s (upd_fd (get_fd_table s) j (\<lambda>e. e\<lparr>fpipe := q, is_pipe := True, flags := 1\<rparr>)
        (upd_fd (get_fd_table s) i (\<lambda>e. e\<lparr>fpipe := q, is_pipe := True, flags := 0\<rparr>) s1))" if "i < 16" "j < 16" for i j
      using that k by (intro keeps_upd) auto
    from False s1 call k show ?thesis
      by (cases "q = 0") (auto simp: sys_pipe_def Let_def simp del: upt_rec_numeral split: list.splits intro!: put two dest!: fds)
  qed
qed

lemma sys_dup2_keeps:
  assumes "sys_dup2 fd fd' s = (r, s')" and ok: "fd_ok (get_fd_table s) s"
  shows "keeps_fds s s'"
proof -
  have copy: "keeps_fds s (upd_fd (get_fd_table s) i (\<lambda>_. fd_of (get_fd_table s) j s1) s1)"
    if "keeps_fds s s1" "i < 16" "j < 16" for i j s1
    using that by (intro keeps_upd) (auto simp: keeps_fds_def fd_ok_def)
  have clear: "keeps_fds s (upd_fd (get_fd_table s) i (\<lambda>e. e\<lparr>node := 0, fpipe := 0\<rparr>) s)" if "i < 16" for i
    using that ok by (intro keeps_upd keeps_simple) auto
  show ?thesis using assms
    by (auto simp: sys_dup2_def Let_def not_le fs_close_def ramfs_close_def split: if_splits
      intro!: keeps_simple copy clear unat_fd)
qed

lemmas calls_keep = sys_write_keeps sys_read_keeps sys_open_keeps sys_close_keeps sys_stat_keeps sys_mkdir_keeps
  sys_readdir_keeps sys_pipe_keeps sys_dup2_keeps

lemma fd_step_keeps:
  assumes "fd_step irq va_pa s s'" "fd_ok (get_fd_table s) s" "next_inode (ramfs s) \<noteq> 0" "length (fs_nodes (ramfs s)) = 64"
  shows "keeps_fds s s'"
  using assms by (cases rule: fd_step.cases) (auto intro: calls_keep)

lemma fd_steps_keep:
  assumes "(fd_step irq va_pa ^^ k) s s'" "fd_ok (get_fd_table s) s" "length (fs_nodes (ramfs s)) = 64"
    and "0 < unat (next_inode (ramfs s))" "unat (next_inode (ramfs s)) + k < 4294967296"
  shows "fd_ok (get_fd_table s) s' \<and> get_fd_table s' = get_fd_table s \<and> length (fs_nodes (ramfs s')) = 64 \<and>
    0 < unat (next_inode (ramfs s')) \<and> unat (next_inode (ramfs s')) \<le> unat (next_inode (ramfs s)) + k \<and>
    (\<forall>n. live (ramfs s) n \<longrightarrow> live (ramfs s') n)"
  using assms
proof (induction k arbitrary: s')
  case (Suc k)
  then obtain s1 where s1: "(fd_step irq va_pa ^^ k) s s1" "fd_step irq va_pa s1 s'" by auto
  note IH = Suc.IH [OF s1(1)]
  have inv: "fd_ok (get_fd_table s1) s1" "next_inode (ramfs s1) \<noteq> 0" "length (fs_nodes (ramfs s1)) = 64" "get_fd_table s1 = get_fd_table s"
      "unat (next_inode (ramfs s1)) + 1 < 4294967296"
    using IH Suc.prems by auto
  have "keeps_fds s1 s'" by (rule fd_step_keeps [OF s1(2) inv(1-3)])
  moreover have "unat (next_inode (ramfs s1) + 1) = unat (next_inode (ramfs s1)) + 1"
    using inv(5) by (subst unat_add_no_wrap) simp_all
  ultimately show ?case using IH inv Suc.prems by (auto simp: keeps_fds_def nodes_grow_def)
qed simp


section \<open>Bytes written are bytes read\<close>

lemma scast_count:
  assumes "unat (count :: u64) < 2147483648"
  shows "unat (ucast count :: u32) = unat count" "scast (ucast count :: u32) = count" "sint (ucast count :: u32) = int (unat count)"
proof -
  show c: "unat (ucast count :: u32) = unat count" using assms by (simp add: unsigned_ucast_eq take_bit_nat_eq_self)
  have "int (unat count) < 2147483648" "- 2147483648 \<le> int (unat count)" using assms by linarith+
  moreover have "uint (ucast count :: u32) = int (unat count)" using c by (metis uint_nat)
  ultimately show s: "sint (ucast count :: u32) = int (unat count)"
    using signed_take_bit_int_eq_self [of 31 "int (unat count)"] unfolding sint_uint by simp
  show "scast (ucast count :: u32) = count" unfolding scast_eq s by simp
qed

text \<open>Descriptor \<open>fd\<close> of table \<open>t\<close> is on the file \<open>n\<close>.\<close>

definition file_fd :: "'a ksys_scheme \<Rightarrow> u64 \<Rightarrow> nat \<Rightarrow> bool" where
  "file_fd s fd n \<longleftrightarrow> get_fd_table s \<noteq> 0 \<and> 3 \<le> fd \<and> fd < 16 \<and> length (fd_tables s (get_fd_table s)) = 16 \<and>
     fpipe (fd_of (get_fd_table s) (unat fd) s) = 0 \<and> node (fd_of (get_fd_table s) (unat fd) s) = node_ptr n s \<and>
     node_ptr n s \<noteq> 0 \<and> live (ramfs s) n \<and> fs_type (fs_nodes (ramfs s) ! n) = 1"

lemma file_fd_cases:
  assumes "file_fd s fd n"
  shows "fd \<noteq> 0" "fd \<noteq> 1" "fd \<noteq> 2" "unat fd < 16" "get_fd_table s \<noteq> 0" "fd < 16"
    "node_index (node (fd_of (get_fd_table s) (unat fd) s)) s = n"
  using assms node_index_ptr [of n s] by (auto simp: file_fd_def live_def word_less_nat_alt word_le_nat_alt)

lemma sys_write_file:
  assumes fd: "file_fd s fd n" and inv: "ramfs_inv (ramfs s)" and count: "count \<noteq> 0" "unat count < 2147483648"
    and ofs: "offset (fd_of (get_fd_table s) (unat fd) s) = ofs" "unat ofs + unat count < 4294967296" and p: "p \<noteq> 0"
  obtains w fs where "fs_write n ofs (ucast count) (user_bytes va_pa p (unat count) s) (ramfs s) = Inr (w, fs)"
    "ramfs_inv fs" "live fs = live (ramfs s)"
    "disk_full fs \<or> w = ucast count \<and> take (unat count) (drop (unat ofs) (file_bytes fs n)) = user_bytes va_pa p (unat count) s"
    "sys_write va_pa fd p count s = Inr (scast w, if 0 < sint w
       then upd_fd (get_fd_table s) (unat fd) (\<lambda>e. e\<lparr>offset := offset e + w\<rparr>) (s\<lparr>ramfs := fs\<rparr>) else s\<lparr>ramfs := fs\<rparr>)"
proof -
  note c = scast_count [OF count(2)]
  obtain ch where o: "owns (ramfs s) ch" using inv unfolding ramfs_inv_def by blast
  have n: "live (ramfs s) n" "fs_type (fs_nodes (ramfs s) ! n) = 1" using fd by (simp_all add: file_fd_def)
  have len: "length (user_bytes va_pa p (unat count) s) = unat (ucast count :: u32)" using c by simp
  have small: "unat ofs + unat (ucast count :: u32) < 4294967296" using c ofs(2) by simp
  obtain w fs where w: "ramfs_write n ofs (ucast count) (user_bytes va_pa p (unat count) s) (ramfs s) = Inr (w, fs)"
      "ramfs_inv fs" "live fs = live (ramfs s)"
      "w = - 1 \<and> disk_full fs \<or> (w = ucast count \<or> disk_full fs) \<and> written n ofs w (user_bytes va_pa p (unat count) s) (ramfs s) fs"
    using ramfs_write_bytes [OF o n len small] by blast
  have full: "disk_full fs \<or> w = ucast count \<and> take (unat count) (drop (unat ofs) (file_bytes fs n)) = user_bytes va_pa p (unat count) s"
    using w(4) c by (auto simp: written_def)
  have call: "sys_write va_pa fd p count s = Inr (scast w, if 0 < sint w
       then upd_fd (get_fd_table s) (unat fd) (\<lambda>e. e\<lparr>offset := offset e + w\<rparr>) (s\<lparr>ramfs := fs\<rparr>) else s\<lparr>ramfs := fs\<rparr>)"
    using file_fd_cases [OF fd] fd w(1) count p ofs(1) c by (simp add: sys_write_def file_fd_def fs_write_def Let_def)
  show thesis by (rule that) (use w full call in \<open>simp_all add: fs_write_def\<close>)
qed

lemma sys_read_file:
  assumes fd: "file_fd s fd n" and inv: "ramfs_inv (ramfs s)" and count: "count \<noteq> 0" "unat count < 2147483648"
    and ofs: "offset (fd_of (get_fd_table s) (unat fd) s) = ofs" "unat ofs + unat count < 4294967296" and p: "p \<noteq> 0"
    and bs: "bs = take (unat count) (drop (unat ofs) (file_bytes (ramfs s) n))"
  shows "sys_read irq va_pa fd p count s = Inr (of_nat (length bs), if bs \<noteq> []
    then upd_fd (get_fd_table s) (unat fd) (\<lambda>e. e\<lparr>offset := offset e + of_nat (length bs)\<rparr>) (put_user va_pa p bs s)
    else put_user va_pa p bs s)"
proof -
  note c = scast_count [OF count(2)]
  obtain ch where o: "owns (ramfs s) ch" using inv unfolding ramfs_inv_def by blast
  have n: "live (ramfs s) n" "fs_type (fs_nodes (ramfs s) ! n) = 1" using fd by (simp_all add: file_fd_def)
  have small: "unat ofs + unat (ucast count :: u32) < 4294967296" using c ofs(2) by simp
  have r: "fs_read n ofs (ucast count) (ramfs s) = Inr (of_nat (length bs), bs)"
    using ramfs_read_bytes [OF o n small] bs c(1) by (simp add: fs_read_def)
  have len: "length bs < 2147483648" using bs count(2) by simp
  have l: "of_nat (length bs) = (ucast (of_nat (length bs) :: u64) :: u32)"
    using len by (simp add: unsigned_of_nat take_bit_nat_eq_self)
  have "unat (of_nat (length bs) :: u64) < 2147483648" using len by (simp add: unat_of_nat_64)
  from scast_count [OF this, folded l]
  have w: "scast (of_nat (length bs) :: u32) = (of_nat (length bs) :: u64)" "0 < sint (of_nat (length bs) :: u32) \<longleftrightarrow> bs \<noteq> []"
    using len by (simp_all add: unat_of_nat_64)
  show ?thesis using file_fd_cases [OF fd] fd r count p ofs(1) w by (simp add: sys_read_def file_fd_def Let_def)
qed

lemma type_upd_node: "(\<And>x. fs_type (f x) = fs_type x) \<Longrightarrow> fs_type (fs_nodes (upd_node n f fs) ! m) = fs_type (fs_nodes fs ! m)"
  by (cases "m = n"; cases "n < length (fs_nodes fs)") (simp_all add: upd_node_def list_update_beyond)

lemma ramfs_write_type: "ramfs_write n ofs sz buf fs = Inr (w, fs') \<Longrightarrow> fs_type (fs_nodes fs' ! m) = fs_type (fs_nodes fs ! m)"
proof -
  have e: "fs_type (fs_nodes (ensure_first n fs) ! m) = fs_type (fs_nodes fs ! m)"
    using allocate_block_nodes [of fs] by (cases "allocate_block fs") (simp add: ensure_first_def type_upd_node)
  have g: "fs_type (fs_nodes (grow_size n x fs3) ! m) = fs_type (fs_nodes fs3 ! m)" for x fs3
    by (simp add: grow_size_def type_upd_node)
  assume "ramfs_write n ofs sz buf fs = Inr (w, fs')"
  then show ?thesis
    by (auto simp: ramfs_write_def Let_def res_simps e g split: if_splits option.splits dest!: write_skip_nodes write_loop_nodes)
qed

lemma file_fd_after:
  assumes "file_fd s fd n" "fs_write m ofs k bs (ramfs s) = Inr (w, fs)" "live fs = live (ramfs s)"
    and "s' = upd_fd (get_fd_table s) i (\<lambda>e. e\<lparr>offset := offset e + w'\<rparr>) (s\<lparr>ramfs := fs\<rparr>)" "i < 16"
  shows "file_fd s' fd n" "get_fd_table s' = get_fd_table s" "ramfs s' = fs"
    "fd_of (get_fd_table s) j s' = (if j = i then (fd_of (get_fd_table s) i s)\<lparr>offset := offset (fd_of (get_fd_table s) i s) + w'\<rparr> else fd_of (get_fd_table s) j s)"
proof -
  have len: "length (fd_tables s (get_fd_table s)) = 16" using assms(1) by (simp add: file_fd_def)
  show t: "get_fd_table s' = get_fd_table s" by (rule get_fd_table_cong) (simp_all add: assms(4) upd_fd_def)
  show fs: "ramfs s' = fs" by (simp add: assms(4))
  show f: "fd_of (get_fd_table s) j s' = (if j = i then (fd_of (get_fd_table s) i s)\<lparr>offset := offset (fd_of (get_fd_table s) i s) + w'\<rparr> else fd_of (get_fd_table s) j s)" for j
    using len assms(5) unfolding assms(4) by (subst fd_of_upd) (simp_all add: fd_of_def)
  have ty: "fs_type (fs_nodes fs ! n) = fs_type (fs_nodes (ramfs s) ! n)"
    using assms(2) unfolding fs_write_def by (rule ramfs_write_type)
  have p: "node_ptr n s' = node_ptr n s" by (simp add: node_ptr_def assms(4))
  have len': "length (fd_tables s' (get_fd_table s)) = 16" using len by (simp add: assms(4))
  show "file_fd s' fd n" using assms(1,3) ty unfolding file_fd_def t f fs p len' by (auto split: if_splits)
qed

text \<open>
  C10: what a process writes through one descriptor it reads through another one on the same file
  at the same offset.  Unless the write leaves no free block, it reports \<open>count\<close>, the read reports
  \<open>count\<close> too, the destination buffer then holds the bytes of the source buffer, and both
  offsets have advanced by \<open>count\<close>.
\<close>

theorem write_then_read:
  assumes fds: "file_fd s fd1 n" "file_fd s fd2 n" "fd1 \<noteq> fd2" and inv: "ramfs_inv (ramfs s)"
    and count: "count \<noteq> 0" "unat count < 2147483648" "unat ofs + unat count < 4294967296"
    and ofs: "offset (fd_of (get_fd_table s) (unat fd1) s) = ofs" "offset (fd_of (get_fd_table s) (unat fd2) s) = ofs"
    and buf: "p \<noteq> 0" "q \<noteq> 0" "inj_on (\<lambda>i. va_pa (q + of_nat i)) {..<unat count}"
  shows "\<exists>w s1. sys_write va_pa fd1 p count s = Inr (w, s1) \<and> (disk_full (ramfs s1) \<or> w = count \<and>
    (\<exists>s2. sys_read irq va_pa fd2 q count s1 = Inr (count, s2) \<and>
      user_bytes va_pa q (unat count) s2 = user_bytes va_pa p (unat count) s \<and>
      (\<forall>fd \<in> {fd1, fd2}. offset (fd_of (get_fd_table s) (unat fd) s2) = ofs + ucast count)))"
proof -
  let ?t = "get_fd_table s" and ?bs = "user_bytes va_pa p (unat count) s" and ?c = "ucast count :: u32"
  note c = scast_count [OF count(2)] and i = file_fd_cases(4) [OF fds(1)] file_fd_cases(4) [OF fds(2)]
  obtain w fs where w: "fs_write n ofs ?c ?bs (ramfs s) = Inr (w, fs)" "ramfs_inv fs" "live fs = live (ramfs s)"
      "disk_full fs \<or> w = ?c \<and> take (unat count) (drop (unat ofs) (file_bytes fs n)) = ?bs"
    and call: "sys_write va_pa fd1 p count s = Inr (scast w, if 0 < sint w
       then upd_fd ?t (unat fd1) (\<lambda>e. e\<lparr>offset := offset e + w\<rparr>) (s\<lparr>ramfs := fs\<rparr>) else s\<lparr>ramfs := fs\<rparr>)"
    using sys_write_file [OF fds(1) inv count(1,2) ofs(1) count(3) buf(1), of va_pa] .
  show ?thesis
  proof (cases "disk_full fs")
    case True
    then show ?thesis using call by simp
  next
    case False
    then have full: "w = ?c" "?bs = take (unat count) (drop (unat ofs) (file_bytes fs n))" using w(4) by simp_all
    define s1 where "s1 = upd_fd ?t (unat fd1) (\<lambda>e. e\<lparr>offset := offset e + w\<rparr>) (s\<lparr>ramfs := fs\<rparr>)"
    note a = file_fd_after [OF fds(2) w(1,3) s1_def i(1)]
    have pos: "0 < sint w" unfolding full(1) c(3) using count(1) unat_gt_0 [of count] by linarith
    have ne: "unat fd1 \<noteq> unat fd2" using fds(3) word_unat_eq_iff [of fd1 fd2] by simp
    have o2: "offset (fd_of (get_fd_table s1) (unat fd2) s1) = ofs" using a(2,4) ofs(2) ne by simp
    note r = sys_read_file [OF a(1) _ count(1,2) o2 count(3) buf(2) full(2) [folded a(3)], of irq va_pa, unfolded a(2,3), OF w(2)]
    let ?s2 = "upd_fd ?t (unat fd2) (\<lambda>e. e\<lparr>offset := offset e + of_nat (unat count)\<rparr>) (put_user va_pa q ?bs s1)"
    have bs: "?bs \<noteq> []" using count(1) by (simp add: user_bytes_def unat_eq_0)
    have "sys_read irq va_pa fd2 q count s1 = Inr (count, ?s2)" using r bs by simp
    moreover have "user_bytes va_pa q (unat count) ?s2 = ?bs"
      using user_bytes_put_user [of va_pa q ?bs s1] buf(3) by simp
    moreover have "offset (fd_of ?t (unat fd) ?s2) = ofs + ?c" if "fd \<in> {fd1, fd2}" for fd
    proof -
      have len: "length (fd_tables (put_user va_pa q ?bs s1) ?t) = 16"
        using fds(1) by (simp add: s1_def file_fd_def)
      have "of_nat (unat count) = ?c" using c(1) by (metis of_nat_unat ucast_id)
      then show ?thesis using that i len ne a(4) ofs full(1) by (subst fd_of_upd) (auto simp: fd_of_def)
    qed
    ultimately show ?thesis using call pos full(1) c(2) by (auto simp: s1_def)
  qed
qed

section \<open>The end of a pipe\<close>

text \<open>
  A reader never sees the end of a pipe.  Closing the write end only clears the descriptor and
  leaves the pipe as it was, so a read of more bytes than the pipe holds does not return: no call
  marks the writer as gone.
\<close>

theorem closed_pipe_read_spins:
  assumes "get_fd_table s \<noteq> 0" "length (fd_tables s (get_fd_table s)) = 16" "rfd \<noteq> 0" "rfd < 16" "wfd < 16" "rfd \<noteq> wfd"
    and "is_pipe (fd_of (get_fd_table s) (unat rfd) s)" "fpipe (fd_of (get_fd_table s) (unat rfd) s) = a" "a \<noteq> 0"
    and "pipes s a = Some p" "pipe_inv p" "\<not> reader_closed p" "\<not> writer_closed p"
    and "buf \<noteq> 0" "length (pipe_items p) < unat count"
  shows "\<exists>s1. sys_close wfd s = (0, s1) \<and> pipes s1 = pipes s \<and> sys_read irq va_pa rfd buf count s1 = Inl Spin"
proof -
  let ?t = "get_fd_table s"
  let ?s1 = "upd_fd ?t (unat wfd) (\<lambda>e. e\<lparr>node := 0, fpipe := 0, offset := 0, flags := 0, is_pipe := False\<rparr>) s"
  have "pipe_read_loop (unat count) [] p = None"
    using pipe_read_loop_spins [of "unat count" "[]" p] assms(11,13,15) by (cases "pipe_read_loop (unat count) [] p") auto
  then have spin: "pipe_read (unat count) p = None" using assms(12) by (simp add: pipe_read_def)
  have t: "get_fd_table ?s1 = ?t" by (rule get_fd_table_cong) (simp_all add: upd_fd_def)
  have ne: "unat rfd \<noteq> unat wfd" "unat wfd < 16" using assms(5,6) word_unat_eq_iff [of rfd wfd] unat_fd by auto
  have e: "fd_of ?t (unat rfd) ?s1 = fd_of ?t (unat rfd) s" using fd_of_upd [of "unat wfd" s ?t] ne assms(2) by simp
  have "count \<noteq> 0" using assms(15) by auto
  then have "sys_read irq va_pa rfd buf count ?s1 = Inl Spin"
    using assms spin by (simp add: sys_read_def Let_def t e returns_def)
  then show ?thesis using assms(1,5) by (simp add: sys_close_def Let_def linorder_not_le [symmetric])
qed

section \<open>Examples\<close>

text \<open>
  A process at \<open>0x100\<close> with its table at \<open>0x200\<close>, in a system with the given files and
  descriptors.
\<close>

definition ksys_with :: "ramfs_t \<Rightarrow> fd_entry_t list \<Rightarrow> ksys" where
  "ksys_with fs fds = (kdev.extend kdev_boot \<lparr>ramfs = fs, nodes_base = 0x300000\<rparr>)
     \<lparr>phys_mem := (\<lambda>_. 0)(0x400000 := 97), procs := (\<lambda>_. zero_process)(0x100 := zero_process\<lparr>fd_table := 0x200\<rparr>),
      fd_tables := (\<lambda>_. []) (0x200 := fds), current_process := 0x100\<rparr>"

lemma ksys_with_simps [simp]:
  "ramfs (ksys_with fs fds) = fs" "nodes_base (ksys_with fs fds) = 0x300000" "fd_tables (ksys_with fs fds) 0x200 = fds"
  "phys_mem (ksys_with fs fds) = (\<lambda>_. 0)(0x400000 := 97)" "get_fd_table (ksys_with fs fds) = 0x200"
  "fd_of 0x200 i (ksys_with fs fds) = fds ! i" "node_ptr n (ksys_with fs fds) = 0x300000 + 60 * of_nat n"
  by (simp_all add: ksys_with_def kdev.defs get_fd_table_def process_get_current_def fd_of_def node_ptr_def)

definition file_fds :: "fd_entry_t list" where
  "file_fds = (replicate 16 empty_fd)[3 := empty_fd\<lparr>node := 0x3000B4\<rparr>, 4 := empty_fd\<lparr>node := 0x3000B4\<rparr>]"

theorem write_then_read_witness:
  "\<exists>w s1. sys_write (\<lambda>a. a) 3 0x400000 1 (ksys_with one_file file_fds) = Inr (w, s1) \<and> (disk_full (ramfs s1) \<or> w = 1 \<and>
    (\<exists>s2. sys_read (\<lambda>_ s. s) (\<lambda>a. a) 4 0x500000 1 s1 = Inr (1, s2) \<and> phys_mem s2 0x500000 = 97))"
proof -
  let ?s = "ksys_with one_file file_fds"
  have fds: "file_fd ?s 3 3" "file_fd ?s 4 3" using one_file_inv by (simp_all add: file_fd_def file_fds_def empty_fd_def)
  have inj: "inj_on (\<lambda>i. 0x500000 + of_nat i :: u64) {..<unat (1 :: u64)}" by (simp add: inj_on_def)
  have o: "offset (fd_of (get_fd_table ?s) (unat (3 :: u64)) ?s) = 0" "offset (fd_of (get_fd_table ?s) (unat (4 :: u64)) ?s) = 0"
    by (simp_all add: file_fds_def empty_fd_def)
  show ?thesis
    using write_then_read [OF fds, where count = 1 and ofs = 0 and p = "0x400000" and q = "0x500000" and va_pa = "\<lambda>a. a" and irq = "\<lambda>_ s. s"] one_file_inv(1) inj o
    by (auto simp: user_bytes_def)
qed

definition pipe_fds :: "fd_entry_t list" where
  "pipe_fds = (replicate 16 empty_fd)[3 := empty_fd\<lparr>fpipe := 0x600000, is_pipe := True\<rparr>, 4 := empty_fd\<lparr>fpipe := 0x600000, is_pipe := True, flags := 1\<rparr>]"

theorem closed_pipe_read_spins_witness:
  "\<exists>s1. sys_close 4 ((ksys_with one_file pipe_fds)\<lparr>pipes := [0x600000 \<mapsto> empty_pipe]\<rparr>) = (0, s1) \<and>
     sys_read (\<lambda>_ s. s) (\<lambda>a. a) 3 0x500000 1 s1 = Inl Spin"
proof -
  let ?s = "(ksys_with one_file pipe_fds)\<lparr>pipes := [0x600000 \<mapsto> empty_pipe]\<rparr>"
  have t: "get_fd_table ?s = 0x200" using get_fd_table_cong [of ?s "ksys_with one_file pipe_fds"] by simp
  have f: "fd_of 0x200 i ?s = pipe_fds ! i" "fd_tables ?s 0x200 = pipe_fds" for i by (simp_all add: fd_of_def)
  show ?thesis
    using closed_pipe_read_spins [where s = ?s and rfd = 3 and wfd = 4 and a = "0x600000" and p = empty_pipe and buf = "0x500000"
      and count = 1 and irq = "\<lambda>_ s. s" and va_pa = "\<lambda>a. a"] empty_pipe_inv
    unfolding t f by (auto simp: pipe_fds_def empty_pipe_def)
qed


end
