(* ===== verification/Proc_Laws.thy ===== *)
theory Proc_Laws
  imports Proc_Calls Fd_Laws
begin

text \<open>
  What the process system calls of \<open>src/src/kernel/syscall.c\<close> guarantee, and where they fall
  short of what their callers need.
\<close>

section \<open>Decimal numbers\<close>

text \<open>The decimal notation of a number.\<close>

function decimal :: "nat \<Rightarrow> string" where
  "decimal n = (if n < 10 then [char_of (48 + n)] else decimal (n div 10) @ [char_of (48 + n mod 10)])"
  by pat_completeness auto
termination by (relation "measure id") auto

declare decimal.simps [simp del] count_digits.simps [simp del]

fun pad_digits :: "nat \<Rightarrow> u32 \<Rightarrow> string" where
  "pad_digits 0 num = []"
| "pad_digits (Suc j) num = pad_digits j (num div 10) @ [digit_char (num mod 10)]"

lemma fill_digits_pad: "j \<le> length buf \<Longrightarrow> fill_digits j num buf = pad_digits j num @ drop j buf"
proof (induction j arbitrary: num buf)
  case (Suc j)
  then have "drop j (buf[j := digit_char (num mod 10)]) = digit_char (num mod 10) # drop (Suc j) buf"
    by (simp add: drop_update_swap flip: Cons_nth_drop_Suc)
  then show ?case using Suc by simp
qed simp

lemma pad_digits_decimal: "0 < num \<Longrightarrow> pad_digits (count_digits num) num = decimal (unat num)"
proof (induction num rule: count_digits.induct)
  case (1 num)
  have d: "unat (num div 10) = unat num div 10" "unat (num mod 10) = unat num mod 10" by (simp_all add: unat_div unat_mod)
  show ?case
  proof (cases "num div 10 = 0")
    case True
    then have "unat num < 10" using d(1) by (simp add: div_eq_0_iff)
    then show ?thesis using 1 True d
      by (simp add: count_digits.simps [of num] count_digits.simps [of 0] decimal.simps [of "unat num"] digit_char_def)
  next
    case False
    then have "\<not> unat num < 10" using d(1) by (metis div_less unat_eq_0)
    moreover have "0 < num div 10" using False word_neq_0_conv by blast
    ultimately show ?thesis using 1 d
      by (simp add: count_digits.simps [of num] decimal.simps [of "unat num"] digit_char_def)
  qed
qed

lemma count_digits_bound: "unat num < 10 ^ k \<Longrightarrow> count_digits num \<le> k"
proof (induction k arbitrary: num)
  case 0
  then have "num = 0" by (simp add: unat_eq_0)
  then show ?case by (simp add: count_digits.simps)
next
  case (Suc k)
  then have "unat (num div 10) < 10 ^ k" by (simp add: unat_div less_mult_imp_div_less mult.commute)
  then show ?case using Suc.IH [of "num div 10"] by (simp add: count_digits.simps [of num])
qed

lemma digits_not_0: "c \<in> set (pad_digits j num) \<Longrightarrow> c \<noteq> CHR 0x00"
proof (induction j arbitrary: num)
  case (Suc j)
  have "48 + unat (num mod 10) < 256" by (simp add: unat_mod)
  then have "of_char (digit_char (num mod 10)) \<noteq> (of_char (CHR 0x00) :: nat)" by (simp add: digit_char_def)
  then have "digit_char (num mod 10) \<noteq> CHR 0x00" by metis
  then show ?case using Suc by auto
qed simp

text \<open>
  C15: the numbers that the process listing prints are correct.  For every number and every
  buffer of at least 11 characters, the digit loop of \<open>int_to_string\<close> leaves the decimal notation
  of the number, with its terminator, in the buffer, and writes nothing beyond it.
\<close>

theorem int_to_string_decimal:
  assumes "11 \<le> length buf"
  shows "c_str (int_to_string num buf) = decimal (unat num) \<and>
    drop (length (decimal (unat num)) + 1) (int_to_string num buf) = drop (length (decimal (unat num)) + 1) buf"
proof (cases "num = 0")
  case True
  obtain a b xs where "buf = a # b # xs" using assms by (cases buf; cases "tl buf") auto
  then show ?thesis using True by (simp add: int_to_string_def c_str_def decimal.simps char_of_def bit_0)
next
  case False
  let ?n = "count_digits num"
  have pos: "0 < num" using False word_neq_0_conv by blast
  have "unat num < 10 ^ 10" by (rule order_less_trans [OF unat_less_32]) simp
  then have n: "?n \<le> 10" by (rule count_digits_bound)
  have len: "length (pad_digits j k) = j" for j k by (induction j arbitrary: k) simp_all
  have eq: "int_to_string num buf = pad_digits ?n num @ CHR 0x00 # drop (Suc ?n) buf"
    using False n assms fill_digits_pad [of ?n "buf[?n := CHR 0x00]" num]
    by (simp add: int_to_string_def Let_def drop_update_swap flip: Cons_nth_drop_Suc)
  show ?thesis unfolding c_str_def eq pad_digits_decimal [OF pos, symmetric]
    using digits_not_0 len by (subst takeWhile_append2) (auto)
qed

theorem int_to_string_decimal_witness: "c_str (int_to_string 407 (replicate 16 (CHR ''x''))) = ''407''"
  using int_to_string_decimal [of "replicate 16 (CHR ''x'')" 407]
  by (simp add: decimal.simps char_of_def bit_0)

section \<open>The break\<close>

text \<open>Operations on page tables change memory and the frame bitmap only.\<close>

definition mem_frame :: "'a pmm_scheme \<Rightarrow> 'a pmm_scheme \<Rightarrow> bool" where
  "mem_frame s s' \<longleftrightarrow> (\<exists>m b f. s' = s\<lparr>phys_mem := m, pmm_bitmap := b, pmm_free_pages := f\<rparr>)"

lemma mem_frameI:
  "s' = s\<lparr>phys_mem := phys_mem s', pmm_bitmap := pmm_bitmap s', pmm_free_pages := pmm_free_pages s'\<rparr> \<Longrightarrow> mem_frame s s'"
  unfolding mem_frame_def by blast

lemma mem_frame_trans: "mem_frame s s' \<Longrightarrow> mem_frame s' s'' \<Longrightarrow> mem_frame s s''"
  by (fastforce simp: mem_frame_def)

lemma mem_frame_refl: "mem_frame s s"
  by (rule mem_frameI) simp

lemma mem_frame_alloc: "pmm_alloc_page s = (a, s') \<Longrightarrow> mem_frame s s'"
  by (auto simp: pmm_alloc_page_def Let_def mem_frame_refl split: option.splits
      intro!: mem_frameI)

lemma mem_frame_write: "mem_frame s (write_entry t i v (s :: 'a pmm_scheme))"
  by (rule mem_frameI) (simp add: write_entry_def)

lemma mem_frame_free: "pmm_free_page a s = Inr s' \<Longrightarrow> mem_frame s s'"
  by (auto simp: pmm_free_page_def Let_def res_simps split: if_splits intro!: mem_frameI)

lemma mem_frame_table: "vmm_get_or_create_table t i fl s = (a, s') \<Longrightarrow> mem_frame s s'"
  by (cases "pmm_alloc_page s")
    (auto simp: vmm_get_or_create_table_def Let_def mem_frame_refl split: if_splits
      dest: mem_frame_alloc intro: mem_frame_trans mem_frame_write)

lemma mem_frame_map:
  assumes "vmm_map_page t v a fl s = (r, s')"
  shows "mem_frame s s'"
  using assms
  by (cases rule: vmm_map_page_elim) (simp_all, (blast dest: mem_frame_table intro: mem_frame_trans mem_frame_write)+)

lemma mem_frame_fields:
  fixes s s' :: "'a ksys_scheme"
  assumes "mem_frame s s'"
  shows "procs s' = procs s" "current_process s' = current_process s" "idle_process s' = idle_process s"
    "fd_tables s' = fd_tables s" "ready_queue_head s' = ready_queue_head s" "ready_queue_tail s' = ready_queue_tail s"
    "process_table s' = process_table s"
  using assms by (auto simp: mem_frame_def)

lemma user_pages_mapped_union:
  assumes a: "user_pages_mapped I va t s s1" and b: "user_pages_mapped J va t s1 s2"
    and apart: "\<And>i j. i \<in> I \<Longrightarrow> j \<in> J \<Longrightarrow> i \<noteq> j \<and> \<not> same_page (page_va va i) (page_va va j)"
  shows "user_pages_mapped (I \<union> J) va t s s2"
proof -
  obtain f where f: "inj_on f I" "f ` I \<subseteq> free_addrs s - free_addrs s1" "free_addrs s1 \<subseteq> free_addrs s"
      "\<And>i v. i \<in> I \<Longrightarrow> same_page v (page_va va i) \<Longrightarrow> vmm_get_physical t v s1 = f i OR (v AND 0xFFF)"
      "\<And>v. (\<forall>i \<in> I. \<not> same_page v (page_va va i)) \<Longrightarrow> vmm_get_physical t v s1 = vmm_get_physical t v s"
    using a unfolding user_pages_mapped_def by blast
  obtain g where g: "inj_on g J" "g ` J \<subseteq> free_addrs s1 - free_addrs s2" "free_addrs s2 \<subseteq> free_addrs s1"
      "\<And>i v. i \<in> J \<Longrightarrow> same_page v (page_va va i) \<Longrightarrow> vmm_get_physical t v s2 = g i OR (v AND 0xFFF)"
      "\<And>v. (\<forall>i \<in> J. \<not> same_page v (page_va va i)) \<Longrightarrow> vmm_get_physical t v s2 = vmm_get_physical t v s1"
    using b unfolding user_pages_mapped_def by blast
  let ?h = "\<lambda>i. if i \<in> I then f i else g i"
  have img: "i \<in> I \<Longrightarrow> f i \<notin> free_addrs s1" "j \<in> J \<Longrightarrow> g j \<in> free_addrs s1" for i j using f(2) g(2) by auto
  have "inj_on ?h (I \<union> J)"
  proof (rule inj_onI)
    fix i j assume "i \<in> I \<union> J" "j \<in> I \<union> J" "?h i = ?h j"
    then show "i = j" using inj_onD [OF f(1)] inj_onD [OF g(1)] img(1) [of i] img(1) [of j] img(2) [of i] img(2) [of j]
      by (cases "i \<in> I"; cases "j \<in> I") auto
  qed
  moreover have "?h ` (I \<union> J) \<subseteq> free_addrs s - free_addrs s2" using f(2,3) g(2,3) by auto
  moreover have "vmm_get_physical t v s2 = ?h i OR (v AND 0xFFF)" if "i \<in> I \<union> J" "same_page v (page_va va i)" for i v
  proof (cases "i \<in> I")
    case True
    have "\<not> same_page v (page_va va j)" if "j \<in> J" for j
      using apart [OF True that] \<open>same_page v _\<close> by (auto simp: same_page_def)
    then show ?thesis using g(5) [of v] f(4) [OF True that(2)] True by simp
  qed (use that g(4) in auto)
  moreover have "vmm_get_physical t v s2 = vmm_get_physical t v s" if "\<forall>i \<in> I \<union> J. \<not> same_page v (page_va va i)" for v
    using that f(5) [of v] g(5) [of v] by simp
  ultimately show ?thesis unfolding user_pages_mapped_def using f(3) g(3) by blast
qed

lemma sbrk_page:
  fixes s :: "'a ksys_scheme"
  assumes inv: "pmm_inv s" "pt_tree (phys_mem s) (free_addrs s) (page_table p)" and v: "page_va va i < KERNEL_BASE"
  obtains r p' s' where "vmm_alloc_user_pages p (page_va va i) 1 s = Inr (r, p', s')" "mem_frame s s'"
    "pmm_inv s'" "pt_tree (phys_mem s') (free_addrs s') (page_table p)"
    "r = 0 \<and> p' = p\<lparr>pages_allocated := pages_allocated p + 1\<rparr> \<and> user_pages_mapped {i} va (page_table p) s s' \<and>
       card (free_addrs s) \<le> card (free_addrs s') + 4 \<or>
     r = -1 \<and> p' = p \<and> card (free_addrs s) < 4"
proof -
  let ?t = "page_table p" and ?v = "page_va va i"
  have one: "vmm_alloc_user_pages p ?v 1 s = alloc_user_pages_loop [0] ?v p s" using v unfolding linorder_not_le [symmetric] by (simp add: vmm_alloc_user_pages_def)
  obtain a s1 where al: "pmm_alloc_page s = (a, s1)" by (cases "pmm_alloc_page s")
  note f1 = mem_frame_alloc [OF al]
  show thesis
  proof (cases "a = 0")
    case True
    then have "free_addrs s = {}" "s1 = s" using frames.alloc_zero inv(1) al by blast+
    then show thesis using al True inv one by (intro that [of "-1" p s]) (simp_all add: mem_frame_refl)
  next
    case a: False
    obtain r s2 where m: "vmm_map_page ?t ?v a 7 s1 = (r, s2)" by (cases "vmm_map_page ?t ?v a 7 s1")
    note f2 = mem_frame_trans [OF f1 mem_frame_map [OF m]]
    show thesis
    proof (cases "r = 0")
      case False
      obtain s3 where "pmm_free_page a s2 = Inr s3" "pmm_inv s3" "pt_tree (phys_mem s3) (free_addrs s3) ?t" "r = -1" "card (free_addrs s) < 4"
        using alloc_user_page_fails [OF inv al a m False] by blast
      then show thesis using al a m one mem_frame_trans [OF f2 mem_frame_free] by (intro that [of "-1" p s3]) simp_all
    next
      case True
      note m0 = m [unfolded True]
      have s1: "pmm_inv s1" "pt_tree (phys_mem s1) (free_addrs s1) ?t"
        using alloc_keeps_space(1) [OF inv al] by (simp_all add: space_grows_def)
      have s2: "pmm_inv s2" "pt_tree (phys_mem s2) (free_addrs s2) ?t" using vmm_map_page_spec [OF s1 m] by simp_all
      have "user_pages_mapped {i} va ?t s s2"
        using user_pages_mapped_insert [OF inv al a m0, of "{}"] by (simp add: user_pages_mapped_def)
      moreover have "card (free_addrs s) \<le> card (free_addrs s2) + 4"
        using alloc_card [OF inv(1) al] vmm_map_page_card [OF s1(1) m0] by simp
      ultimately show thesis
        using al a m0 one s2 f2 by (intro that [of 0 "p\<lparr>pages_allocated := pages_allocated p + 1\<rparr>" s2]) simp_all
    qed
  qed
qed

text \<open>The control block after the allocation of pages.\<close>

definition only_pages :: "u64 \<Rightarrow> 'a ksys_scheme \<Rightarrow> 'a ksys_scheme \<Rightarrow> bool" where
  "only_pages c s s' \<longleftrightarrow> (\<exists>n. procs s' = (procs s)(c := (procs s c)\<lparr>pages_allocated := n\<rparr>)) \<and>
     current_process s' = current_process s \<and> idle_process s' = idle_process s"

lemma only_pages_refl: "only_pages c s s"
  by (auto simp: only_pages_def intro!: exI [of _ "pages_allocated (procs s c)"])

lemma only_pages_trans: "only_pages c s s' \<Longrightarrow> only_pages c s' s'' \<Longrightarrow> only_pages c s s''"
  by (fastforce simp: only_pages_def)

lemma upd_proc_memory [simp]:
  "pmm_inv (upd_proc c f s) = pmm_inv s" "free_addrs (upd_proc c f s) = free_addrs s" "phys_mem (upd_proc c f s) = phys_mem s"
  "vmm_get_physical t v (upd_proc c f s) = vmm_get_physical t v s"
  by (simp_all add: upd_proc_def pmm_inv_def free_addrs_def free_frames_def vmm_get_physical_def)

lemma user_pages_mapped_upd [simp]:
  "user_pages_mapped I va t s (upd_proc c f s') = user_pages_mapped I va t s s'"
  "user_pages_mapped I va t (upd_proc c f s) s' = user_pages_mapped I va t s s'"
  by (simp_all add: user_pages_mapped_def)

lemma sbrk_pages_spec:
  fixes s :: "'a ksys_scheme"
  assumes "pmm_inv s" "pt_tree (phys_mem s) (free_addrs s) (page_table (procs s c))" "\<forall>i \<in> set is. page_va va i < KERNEL_BASE"
    and "pairwise (\<lambda>i j. \<not> same_page (page_va va i) (page_va va j)) (set is)" "distinct is"
  shows "\<exists>ok s'. sbrk_pages (map (page_va va) is) c s = Inr (ok, s') \<and> pmm_inv s' \<and>
    pt_tree (phys_mem s') (free_addrs s') (page_table (procs s c)) \<and> only_pages c s s' \<and>
    (ok \<and> user_pages_mapped {i \<in> set is. heap_current (procs s c) \<le> page_va va i} va (page_table (procs s c)) s s' \<or>
     \<not> ok \<and> card (free_addrs s) < 4 * length is)"
  using assms
proof (induction "is" arbitrary: s)
  case Nil
  then show ?case using only_pages_refl by (auto simp: user_pages_mapped_def)
next
  case (Cons i "is")
  let ?p = "procs s c" and ?v = "page_va va i"
  let ?I = "{j \<in> set is. heap_current ?p \<le> page_va va j}"
  have rest: "pairwise (\<lambda>i j. \<not> same_page (page_va va i) (page_va va j)) (set is)" "distinct is" "\<forall>i \<in> set is. page_va va i < KERNEL_BASE"
    and apart: "\<And>j. j \<in> set is \<Longrightarrow> i \<noteq> j \<and> \<not> same_page ?v (page_va va j)"
    using Cons.prems by (auto simp: pairwise_insert)
  show ?case
  proof (cases "heap_current ?p \<le> ?v")
    case False
    then have "{j \<in> set (i # is). heap_current ?p \<le> page_va va j} = ?I" "sbrk_pages (map (page_va va) (i # is)) c s = sbrk_pages (map (page_va va) is) c s"
      by auto
    then show ?thesis using Cons.IH [of s, OF Cons.prems(1,2) rest(3,1,2)] by auto
  next
    case True
    then have I: "{j \<in> set (i # is). heap_current ?p \<le> page_va va j} = {i} \<union> ?I" by auto
    obtain r p' s1 where a: "vmm_alloc_user_pages ?p ?v 1 s = Inr (r, p', s1)" "mem_frame s s1" "pmm_inv s1"
        "pt_tree (phys_mem s1) (free_addrs s1) (page_table ?p)"
        "r = 0 \<and> p' = ?p\<lparr>pages_allocated := pages_allocated ?p + 1\<rparr> \<and> user_pages_mapped {i} va (page_table ?p) s s1 \<and>
           card (free_addrs s) \<le> card (free_addrs s1) + 4 \<or> r = -1 \<and> p' = ?p \<and> card (free_addrs s) < 4"
      using sbrk_page [OF Cons.prems(1,2), of va i] Cons.prems(3) by auto
    let ?s2 = "upd_proc c (\<lambda>_. p') s1"
    have o: "only_pages c s ?s2" using a(5) mem_frame_fields [OF a(2)] by (auto simp: only_pages_def upd_proc_def intro: exI [of _ "pages_allocated p'"])
    have p2: "page_table (procs ?s2 c) = page_table ?p" "heap_current (procs ?s2 c) = heap_current ?p" using a(5) by (auto simp: upd_proc_def)
    show ?thesis
    proof (cases "r = 0")
      case False
      then have "sbrk_pages (map (page_va va) (i # is)) c s = Inr (False, ?s2)" "card (free_addrs s) < 4" using True a(1,5) by auto
      then show ?thesis using a(3,4) o by (intro exI [of _ False] exI [of _ ?s2]) simp
    next
      case r: True
      then have step: "sbrk_pages (map (page_va va) (i # is)) c s = sbrk_pages (map (page_va va) is) c ?s2" using True a(1) by simp
      obtain ok s' where s': "sbrk_pages (map (page_va va) is) c ?s2 = Inr (ok, s')" "pmm_inv s'"
          "pt_tree (phys_mem s') (free_addrs s') (page_table ?p)" "only_pages c ?s2 s'"
          "ok \<and> user_pages_mapped ?I va (page_table ?p) s1 s' \<or> \<not> ok \<and> card (free_addrs s1) < 4 * length is"
        using Cons.IH [of ?s2] a(3,4) rest unfolding p2 by auto
      moreover have "user_pages_mapped ({i} \<union> ?I) va (page_table ?p) s s'" if "user_pages_mapped ?I va (page_table ?p) s1 s'"
        using r a(5) that apart by (intro user_pages_mapped_union [of "{i}" _ _ _ s1]) auto
      ultimately show ?thesis using only_pages_trans [OF o s'(4)] r a(5) unfolding step I by auto
    qed
  qed
qed

text \<open>The number of pages that the loop of \<open>sys_sbrk\<close> visits.\<close>

definition sbrk_count :: "process \<Rightarrow> u64 \<Rightarrow> nat" where
  "sbrk_count p increment = (unat (page_base (heap_current p + increment + 4095)) - unat (page_base (heap_current p))) div 4096"

lemma unat_page_base: "unat (page_base a) \<le> unat a"
  by (simp add: page_base_def word_and_le2 flip: word_le_nat_alt)

lemma sbrk_growth:
  fixes s :: "'a ksys_scheme"
  assumes "pmm_inv s" "pt_tree (phys_mem s) (free_addrs s) (page_table (procs s c))"
    and new: "unat (heap_current (procs s c) + increment) \<le> 2 ^ 47"
  shows "\<exists>ok s'. sbrk_pages (page_range (page_base (heap_current (procs s c))) (page_base (heap_current (procs s c) + increment + 4095))) c s = Inr (ok, s') \<and>
    pmm_inv s' \<and> pt_tree (phys_mem s') (free_addrs s') (page_table (procs s c)) \<and> only_pages c s s' \<and>
    (ok \<and> user_pages_mapped {i. i < sbrk_count (procs s c) increment \<and> heap_current (procs s c) \<le> page_va (page_base (heap_current (procs s c))) i}
        (page_base (heap_current (procs s c))) (page_table (procs s c)) s s' \<or>
     \<not> ok \<and> card (free_addrs s) < 4 * sbrk_count (procs s c) increment)"
proof -
  let ?p = "procs s c"
  let ?va = "page_base (heap_current ?p)" and ?new = "heap_current ?p + increment" and ?n = "sbrk_count ?p increment"
  have "unat (?new + 4095) = unat ?new + 4095" using new by (subst unat_add_no_wrap) simp_all
  then have b: "unat (page_base (?new + 4095)) \<le> 2 ^ 47 + 4095" using unat_page_base [of "?new + 4095"] new by simp
  have lim: "unat ?va + 4096 * ?n \<le> 2 ^ 48 \<or> ?n = 0"
    using b div_times_less_eq_dividend [of "unat (page_base (?new + 4095)) - unat ?va" 4096] by (auto simp: sbrk_count_def)
  have below: "page_va ?va i < KERNEL_BASE" if "i < ?n" for i
  proof -
    have l: "unat ?va + 4096 * i < 2 ^ 48" using lim that by auto
    then have "unat (page_va ?va i) = unat ?va + 4096 * i"
      unfolding page_va_def by (subst unat_add_no_wrap) (simp_all add: unat_word_ariths unat_of_nat_64)
    then show ?thesis using l by (simp add: word_less_nat_alt)
  qed
  have "pairwise (\<lambda>i j. \<not> same_page (page_va ?va i) (page_va ?va j)) (set [0..<?n])"
    using lim page_va_distinct by (auto simp: pairwise_def)
  from sbrk_pages_spec [OF assms(1,2) _ this] below
  show ?thesis by (simp add: page_range_def page_va_def sbrk_count_def cong: map_cong)
qed

text \<open>
  C8: the break stays inside the heap of the process.  \<open>sys_sbrk\<close> always returns; the new break is
  between the start of the heap and its limit, and page tables and frame bitmap stay consistent.  On success
  it returns the old break, and after growing, every page from the old break up to the new one is
  mapped to a frame of its own that was free before, while no other translation has changed.  It fails only when
  the new break would leave the heap or frames run out, and then the break has not moved.
\<close>

theorem sys_sbrk_correct:
  fixes s :: "'a ksys_scheme"
  assumes "process_get_current s = c" "c \<noteq> 0" "pmm_inv s" "pt_tree (phys_mem s) (free_addrs s) (page_table (procs s c))"
    and "heap_start (procs s c) \<le> heap_current (procs s c)" "heap_current (procs s c) \<le> heap_max (procs s c)"
    and "unat (heap_max (procs s c)) \<le> 2 ^ 47"
  shows "\<exists>r s'. sys_sbrk increment s = Inr (r, s') \<and> process_get_current s' = c \<and> pmm_inv s' \<and>
    pt_tree (phys_mem s') (free_addrs s') (page_table (procs s c)) \<and>
    heap_start (procs s c) \<le> heap_current (procs s' c) \<and> heap_current (procs s' c) \<le> heap_max (procs s c) \<and>
    (r = heap_current (procs s c) \<and> heap_current (procs s' c) = heap_current (procs s c) + increment \<and>
       (0 < sint increment \<longrightarrow> user_pages_mapped
          {i. i < sbrk_count (procs s c) increment \<and> heap_current (procs s c) \<le> page_va (page_base (heap_current (procs s c))) i}
          (page_base (heap_current (procs s c))) (page_table (procs s c)) s s') \<or>
     r = - 1 \<and> heap_current (procs s' c) = heap_current (procs s c) \<and>
       (heap_max (procs s c) < heap_current (procs s c) + increment \<or> heap_current (procs s c) + increment < heap_start (procs s c) \<or>
        card (free_addrs s) < 4 * sbrk_count (procs s c) increment))"
proof -
  let ?p = "procs s c"
  let ?new = "heap_current ?p + increment"
  consider "increment = 0" | "increment \<noteq> 0" "heap_max ?p < ?new \<or> ?new < heap_start ?p"
    | "increment \<noteq> 0" "\<not> 0 < sint increment" "\<not> heap_max ?p < ?new" "\<not> ?new < heap_start ?p"
    | "increment \<noteq> 0" "0 < sint increment" "\<not> heap_max ?p < ?new" "\<not> ?new < heap_start ?p" by blast
  then show ?thesis
  proof cases
    case 1
    then show ?thesis using assms by (simp add: sys_sbrk_def)
  next
    case 2
    then show ?thesis using assms by (auto simp: sys_sbrk_def Let_def)
  next
    case 3
    then have "sys_sbrk increment s = Inr (heap_current ?p, upd_proc c (\<lambda>p. p\<lparr>heap_current := ?new\<rparr>) s)"
      using assms(1,2) by (simp add: sys_sbrk_def Let_def)
    moreover have "process_get_current (upd_proc c (\<lambda>p. p\<lparr>heap_current := ?new\<rparr>) s) = c"
        "heap_current (procs (upd_proc c (\<lambda>p. p\<lparr>heap_current := ?new\<rparr>) s) c) = ?new"
      using assms(1) by (auto simp: upd_proc_def process_get_current_def)
    ultimately show ?thesis using 3 assms(3,4) by (simp add: linorder_not_less)
  next
    case 4
    have "unat ?new \<le> 2 ^ 47" using 4(3) assms(7) by (simp add: word_less_nat_alt)
    from sbrk_growth [OF assms(3,4) this] obtain ok s1 where g:
      "sbrk_pages (page_range (page_base (heap_current ?p)) (page_base (?new + 4095))) c s = Inr (ok, s1)" "pmm_inv s1"
      "pt_tree (phys_mem s1) (free_addrs s1) (page_table ?p)" "only_pages c s s1"
      "ok \<and> user_pages_mapped {i. i < sbrk_count ?p increment \<and> heap_current ?p \<le> page_va (page_base (heap_current ?p)) i}
         (page_base (heap_current ?p)) (page_table ?p) s s1 \<or> \<not> ok \<and> card (free_addrs s) < 4 * sbrk_count ?p increment" by blast
    let ?s2 = "if ok then upd_proc c (\<lambda>p. p\<lparr>heap_current := ?new\<rparr>) s1 else s1"
    have "sys_sbrk increment s = Inr (if ok then heap_current ?p else - 1, ?s2)"
      using 4 assms(1,2) g(1) by (simp add: sys_sbrk_def Let_def page_base_def add.assoc)
    moreover have "process_get_current ?s2 = c" "heap_current (procs ?s2 c) = (if ok then ?new else heap_current ?p)"
      using g(4) assms(1) by (auto simp: only_pages_def process_get_current_def upd_proc_def)
    ultimately show ?thesis using g(2,3,5) 4 assms(5,6) by (auto simp: linorder_not_less)
  qed
qed

theorem sys_sbrk_correct_witness:
  "\<exists>(s :: ksys) s'. sys_sbrk 0x2000 s = Inr (0x10000, s') \<and> heap_current (procs s' 0x100) = 0x12000 \<and>
     user_pages_mapped {0..<2} 0x10000 0x400000 s s'"
proof -
  obtain s0 s1 :: vmm where s1: "pmm_inv s1" "pt_tree (phys_mem s1) (free_addrs s1) 0x400000" "card (free_addrs s1) = 15359"
    by (rule vmm_boot_space) blast
  let ?p = "zero_process\<lparr>page_table := 0x400000, heap_start := 0x10000, heap_current := 0x10000, heap_max := 0x20000\<rparr>"
  define s where "s = (ksys_with one_file [])\<lparr>phys_mem := phys_mem s1, pmm_bitmap := pmm_bitmap s1, pmm_total_pages := pmm_total_pages s1,
      pmm_free_pages := pmm_free_pages s1, procs := (\<lambda>_. zero_process)(0x100 := ?p)\<rparr>"
  have c: "process_get_current s = 0x100" by (simp add: s_def process_get_current_def ksys_with_def)
  have free: "free_addrs s = free_addrs s1" by (simp add: s_def free_addrs_def free_frames_def)
  have p: "heap_start (procs s 0x100) = 0x10000" "heap_current (procs s 0x100) = 0x10000" "heap_max (procs s 0x100) = 0x20000"
      "page_table (procs s 0x100) = 0x400000" by (simp_all add: s_def)
  have inv: "pmm_inv s" "pt_tree (phys_mem s) (free_addrs s) (page_table (procs s 0x100))"
    unfolding p free using s1(1,2) by (simp_all add: s_def pmm_inv_def free_frames_def)
  have n: "sbrk_count (procs s 0x100) 0x2000 = 2" by (simp add: sbrk_count_def page_base_def p)
  have I: "{i. i < 2 \<and> (0x10000 :: u64) \<le> page_va 0x10000 i} = {0..<2}" by (auto simp: page_va_def less_2_cases_iff)
  have b: "page_base 0x10000 = 0x10000" by (simp add: page_base_def)
  have "(0x100 :: u64) \<noteq> 0" "(0x10000 :: u64) \<le> 0x10000" "(0x10000 :: u64) \<le> 0x20000" "unat (0x20000 :: u64) \<le> 2 ^ 47" by simp_all
  from sys_sbrk_correct [OF c this(1) inv, unfolded p n b I, OF this(2-4), of "0x2000", unfolded p n b I] s1(3)
  show ?thesis unfolding free by auto
qed

section \<open>Waiting\<close>

text \<open>\<open>w\<close> waits for a child: it does not run and is not queued.\<close>

definition asleep :: "u64 \<Rightarrow> 'a kproc_scheme \<Rightarrow> bool" where
  "asleep w s \<longleftrightarrow> scheduler_enabled s \<and> pstate (procs s w) = PROCESS_STATE_WAITING \<and> process_table s ! 0 \<notin> {0, w} \<and>
     process_get_current s \<notin> {0, w} \<and> (\<exists>ps. queue s ps \<and> process_get_current s \<notin> set ps \<and> w \<notin> set ps)"

lemma schedule_asleep:
  assumes en: "scheduler_enabled s" and q: "queue s ps" and c: "process_get_current s = c" "c \<notin> set ps" "c \<noteq> 0"
    and w: "pstate (procs s w) = PROCESS_STATE_WAITING" "w \<notin> set ps" and idle: "process_table s ! 0 \<notin> {0, w}"
  obtains b s' where "schedule s = (b, s')" "asleep w s'" "c = w \<Longrightarrow> b"
    "pstate (procs s c) = PROCESS_STATE_ZOMBIE \<Longrightarrow> pstate (procs s' c) = PROCESS_STATE_ZOMBIE"
proof -
  let ?rs = "ready_list c (pstate (procs s c)) ps"
  let ?nx = "chosen ?rs (process_table s ! 0)"
  have rs: "distinct ?rs" "0 \<notin> set ?rs" "w \<notin> set ?rs" using q c w by (auto simp: queue_def ready_list_def)
  then have nx: "?nx \<noteq> 0" "?nx \<noteq> w" "?nx \<notin> set (tl ?rs)" "w \<notin> set (tl ?rs)"
    using idle by (cases ?rs; auto simp: chosen_def)+
  show thesis
  proof (cases "?nx = c")
    case True
    obtain s' where s': "schedule s = (False, s')" "queue s' (tl ?rs)" "process_get_current s' = c"
        "\<And>p. pstate (procs s' p) = (if p = c then preempted (pstate (procs s c)) else pstate (procs s p))"
        "process_table s' = process_table s" "scheduler_enabled s'"
      by (rule schedule_stays [OF en q c True]) (rule that, assumption+)
    have "asleep w s'" unfolding asleep_def s'(3-5) using s'(2,6) nx True c w idle by auto
    then show thesis using nx(2) True s'(4) by (intro that [OF s'(1)]) (auto simp: preempted_def)
  next
    case False
    obtain s' where s': "schedule s = (True, s')" "queue s' (tl ?rs)" "current_process s' = ?nx"
        "\<And>p. pstate (procs s' p) = (if p = ?nx then PROCESS_STATE_RUNNING else if p = c then preempted (pstate (procs s c)) else pstate (procs s p))"
        "process_table s' = process_table s" "scheduler_enabled s'"
      by (rule schedule_switches [OF en q c refl False]) (rule that, assumption+)
    have "process_get_current s' = ?nx" using s'(3) nx(1) by (simp add: process_get_current_def)
    then have "asleep w s'" unfolding asleep_def s'(4,5) using s'(2,6) nx w idle by (auto simp: preempted_def)
    then show thesis using False s'(4) by (intro that [OF s'(1)]) (auto simp: preempted_def)
  qed
qed

lemma process_get_current_upd [simp]: "process_get_current (upd_proc q f s) = process_get_current s"
  by (simp add: process_get_current_def)

lemma asleep_writestring [simp]: "asleep w (terminal_writestring str s) = asleep w s"
  by (simp add: asleep_def terminal_writestring_eq process_get_current_def queue_def)

text \<open>What other processes do: scheduling decisions, and exits of processes that have a parent.\<close>

inductive others :: "'a ksys_scheme \<Rightarrow> 'a ksys_scheme \<Rightarrow> bool" where
  scheduled: "schedule s = (b, s') \<Longrightarrow> others s s'"
| exits: "parent_pid (procs s (process_get_current s)) \<noteq> 0 \<Longrightarrow> sys_exit status s = Inr (r, s') \<Longrightarrow> others s s'"

lemma exit_asleep:
  assumes "asleep w s" "process_get_current s = c" "parent_pid (procs s c) \<noteq> 0"
  obtains r s' where "sys_exit status s = Inr (r, s')" "asleep w s'" "pstate (procs s' c) = PROCESS_STATE_ZOMBIE"
proof -
  let ?told = "terminal_writestring ''\<newline>'' (terminal_writestring '' exiting with status: ''
             (terminal_writestring (pname (procs s c)) (terminal_writestring ''\<newline>[SYSCALL] Process '' s)))"
  let ?new = "upd_proc c (\<lambda>p. p\<lparr>exit_status := sint (ucast status :: u32), pstate := PROCESS_STATE_ZOMBIE\<rparr>) ?told"
  obtain ps where ps: "queue s ps" "c \<notin> set ps" "w \<notin> set ps" "c \<noteq> 0" "c \<noteq> w" using assms(1,2) by (auto simp: asleep_def)
  have s1: "scheduler_enabled ?told = scheduler_enabled s" "procs ?told = procs s" "process_table ?told = process_table s"
      "process_get_current ?told = process_get_current s" "queue ?told ps = queue s ps"
    by (simp_all add: terminal_writestring_eq process_get_current_def queue_def)
  have q: "scheduler_enabled ?new" "queue ?new ps" "process_get_current ?new = c" "pstate (procs ?new w) = PROCESS_STATE_WAITING"
      "process_table ?new ! 0 \<notin> {0, w}"
    using assms(1,2) ps s1 by (simp_all add: asleep_def)
  from q(1-3) ps(2,4) q(4) ps(3) q(5) obtain b s' where s': "schedule ?new = (b, s')" "asleep w s'" "pstate (procs s' c) = PROCESS_STATE_ZOMBIE"
    by (rule schedule_asleep) simp
  have "sys_exit status s = Inr (if b then None else Some 0, s')"
    using assms(2,3) ps(4) s'(1) s1(2) by (simp add: sys_exit_def Let_def)
  then show thesis using s'(2,3) by (rule that)
qed

lemma others_asleep: "others s s' \<Longrightarrow> asleep w s \<Longrightarrow> asleep w s'"
proof (induction rule: others.induct)
  case (scheduled s b s')
  then obtain ps where "queue s ps" "process_get_current s \<notin> set ps" "w \<notin> set ps" by (auto simp: asleep_def)
  then show ?case using schedule_asleep [of s ps _ w] scheduled by (fastforce simp: asleep_def)
next
  case (exits s status r s')
  then show ?case using exit_asleep [OF exits(3) refl exits(1), of status] by fastforce
qed


definition wait_demo :: ksys where
  "wait_demo = (ksys_with one_file [])\<lparr>scheduler_enabled := True, process_table := 0x9000 # replicate 63 0\<rparr>"


section \<open>Executing a program\<close>

lemma clear_user_space_fields:
  "procs (vmm_clear_user_space t s) = procs s" "cpu (vmm_clear_user_space t s) = cpu s"
  "scheduler_enabled (vmm_clear_user_space t s) = scheduler_enabled s" "process_table (vmm_clear_user_space t s) = process_table s"
  "ready_queue_head (vmm_clear_user_space t s) = ready_queue_head s" "ready_queue_tail (vmm_clear_user_space t s) = ready_queue_tail s"
  "current_process (vmm_clear_user_space t s) = current_process s" "idle_process (vmm_clear_user_space t s) = idle_process s"
proof -
  define g where "g = (\<lambda>i (s :: 'a kproc_scheme). if present (entry (phys_mem s) t i) then write_entry t i 0 s else s)"
  have one: "procs (g i s) = procs s" "cpu (g i s) = cpu s" "scheduler_enabled (g i s) = scheduler_enabled s"
      "process_table (g i s) = process_table s" "ready_queue_head (g i s) = ready_queue_head s"
      "ready_queue_tail (g i s) = ready_queue_tail s" "current_process (g i s) = current_process s"
      "idle_process (g i s) = idle_process s" for i s
    by (simp_all add: g_def write_entry_def)
  have fold: "h (fold g is s) = h s" if "\<And>i s. h (g i s) = h s" for h :: "'a kproc_scheme \<Rightarrow> 'b" and "is" s
    using that by (induction "is" arbitrary: s) auto
  show "procs (vmm_clear_user_space t s) = procs s" "cpu (vmm_clear_user_space t s) = cpu s"
    "scheduler_enabled (vmm_clear_user_space t s) = scheduler_enabled s" "process_table (vmm_clear_user_space t s) = process_table s"
    "ready_queue_head (vmm_clear_user_space t s) = ready_queue_head s" "ready_queue_tail (vmm_clear_user_space t s) = ready_queue_tail s"
    "current_process (vmm_clear_user_space t s) = current_process s" "idle_process (vmm_clear_user_space t s) = idle_process s"
    unfolding vmm_clear_user_space_def g_def [symmetric] by (simp_all add: fold one)
qed

lemma sys_execve_found:
  assumes "user_string va_pa path_ptr s = Inr (map of_char path)" "(path, start, name) \<in> set builtins"
    and "process_get_current s = c" "c \<noteq> 0" "path_ptr \<noteq> 0"
  obtains s1 where "sys_execve code va_pa path_ptr s = Inr (0, s1)" "cpu s1 = cpu s"
    "procs s1 = (procs s)(c := (procs s c)\<lparr>pcontext := (pcontext (procs s c))\<lparr>rip := code start, rsp := USER_STACK_TOP - 16, rflags := 0x202\<rparr>, pname := name\<rparr>)"
    "scheduler_enabled s1 = scheduler_enabled s" "process_table s1 = process_table s" "process_get_current s1 = c"
    "\<And>ps. queue s1 ps = queue s ps"
proof -
  let ?m = "\<lambda>s. terminal_writestring ''\<newline>'' (terminal_writestring name (terminal_writestring ''[EXEC] Loading built-in program: ''
      (terminal_writestring ''\<newline>'' (terminal_writestring path (terminal_writestring ''[EXEC] Executing: '' s)))))"
  let ?new = "upd_proc c (\<lambda>p. p\<lparr>pcontext := (pcontext p)\<lparr>rip := code start, rsp := USER_STACK_TOP - 16, rflags := 0x202\<rparr>, pname := c_strncpy name 31\<rparr>)
      (vmm_clear_user_space (page_table (procs s c)) (?m s))"
  have name: "c_strncpy name 31 = name" and find: "find (\<lambda>(bpath, _, _). bpath = path) builtins = Some (path, start, name)"
    using assms(2) by (auto simp: builtins_def c_strncpy_def)
  have "unat (of_char ch :: u8) = of_char ch" for ch
  proof -
    have "(of_char ch :: nat) < 256" using of_char_mod_256 [of ch] by (metis mod_less_divisor zero_less_numeral)
    then have "unat (of_nat (of_char ch) :: u8) = of_char ch" by (rule unat_of_nat_8)
    then show ?thesis by (simp only: of_nat_of_char)
  qed
  then have p: "map (\<lambda>b. char_of (unat b)) (map of_char path :: u8 list) = path" by (simp add: comp_def map_idI)
  have e: "sys_execve code va_pa path_ptr s = Inr (0, ?new)"
    using assms(4,5) unfolding sys_execve_def Let_def assms(1,3) bind_res_simps p find by (simp add: terminal_writestring_eq)
  have qn: "queue ?new ps = queue s ps" for ps
  proof -
    have "queue ?new ps = queue (vmm_clear_user_space (page_table (procs s c)) (?m s)) ps" by simp
    also have "\<dots> = queue s ps" by (rule queue_cong) (simp_all add: clear_user_space_fields terminal_writestring_eq)
    finally show ?thesis .
  qed
  have cn: "process_get_current ?new = c" using assms(3)
    by (auto simp: clear_user_space_fields terminal_writestring_eq process_get_current_def)
  show thesis
    by (rule that [OF e _ _ _ _ cn qn]) (simp_all add: clear_user_space_fields terminal_writestring_eq name)
qed

text \<open>
  A program that \<open>sys_execve\<close> loads is not run.  The call returns 0 to its caller after it has
  cleared the user address space, named the process after the program and stored the start
  address of the program in the saved context.  The registers of the processor are those of the
  caller, though, and the next switch overwrites the saved context with them.
\<close>

theorem execve_is_forgotten:
  assumes path: "user_string va_pa path_ptr s = Inr (map of_char path)" "(path, start, name) \<in> set builtins" "path_ptr \<noteq> 0"
    and c: "process_get_current s = c" "c \<noteq> 0" "c \<notin> set ps" "pstate (procs s c) = PROCESS_STATE_RUNNING"
    and q: "scheduler_enabled s" "queue s ps" "ps \<noteq> []"
  shows "\<exists>s1 s2. sys_execve code va_pa path_ptr s = Inr (0, s1) \<and> cpu s1 = cpu s \<and> pname (procs s1 c) = name \<and>
    rip (pcontext (procs s1 c)) = code start \<and>
    schedule s1 = (True, s2) \<and> pcontext (procs s2 c) = saved_context s1"
proof -
  obtain s1 where s1: "sys_execve code va_pa path_ptr s = Inr (0, s1)" "cpu s1 = cpu s"
    "procs s1 = (procs s)(c := (procs s c)\<lparr>pcontext := (pcontext (procs s c))\<lparr>rip := code start, rsp := USER_STACK_TOP - 16, rflags := 0x202\<rparr>, pname := name\<rparr>)"
    "scheduler_enabled s1 = scheduler_enabled s" "process_table s1 = process_table s" "process_get_current s1 = c"
    "\<And>ps. queue s1 ps = queue s ps"
    by (rule sys_execve_found [OF path(1,2) c(1,2) path(3), of code]) (rule that, assumption+)
  have st: "pstate (procs s1 c) = PROCESS_STATE_RUNNING" using s1(3) c(4) by simp
  have en: "scheduler_enabled s1" "queue s1 ps" using s1(4,7) q by simp_all
  have nx: "chosen (ready_list c (pstate (procs s1 c)) ps) (process_table s1 ! 0) = hd ps" "hd ps \<noteq> c"
    using q(3) st c(3) by (auto simp: chosen_def ready_list_def)
  obtain s2 where "schedule s1 = (True, s2)" "\<And>p. pcontext (procs s2 p) = (if p = c then saved_context s1 else pcontext (procs s1 p))"
    by (rule schedule_switches [OF en s1(6) c(3,2) nx]) (rule that, assumption+)
  then show ?thesis using s1(1-3) by auto
qed

lemma string_at_bytes:
  "(\<And>i. i < length bs \<Longrightarrow> m (p + of_nat i) = bs ! i \<and> bs ! i \<noteq> 0) \<Longrightarrow> m (p + of_nat (length bs)) = 0 \<Longrightarrow> string_at m p = Some bs"
proof (induction bs arbitrary: p)
  case Nil
  then show ?case by (subst string_at.simps) simp
next
  case (Cons b bs)
  have "string_at m (p + 1) = Some bs"
  proof (rule Cons.IH)
    show "m (p + 1 + of_nat i) = bs ! i \<and> bs ! i \<noteq> 0" if "i < length bs" for i
      using Cons.prems(1) [of "Suc i"] that by (simp add: add.assoc)
    show "m (p + 1 + of_nat (length bs)) = 0" using Cons.prems(2) by (simp add: add.assoc)
  qed
  then show ?case using Cons.prems(1) [of 0] by (subst string_at.simps) simp
qed

definition exec_demo :: ksys where
  "exec_demo = ready_queue_push 0x200 ((ksys_with one_file [])\<lparr>scheduler_enabled := True,
     phys_mem := (\<lambda>a. if a - 0x400000 < 9 then of_char (''/bin/init'' ! unat (a - 0x400000)) else 0),
     procs := (\<lambda>_. zero_process)(0x100 := zero_process\<lparr>pstate := PROCESS_STATE_RUNNING\<rparr>)\<rparr>)"

theorem execve_is_forgotten_witness:
  "\<exists>s1 s2. sys_execve (\<lambda>_. 0x7000) (\<lambda>a. a) 0x400000 exec_demo = Inr (0, s1) \<and> rip (pcontext (procs s1 0x100)) = 0x7000 \<and>
     schedule s1 = (True, s2) \<and> pcontext (procs s2 0x100) = saved_context s1"
proof -
  let ?old = "(ksys_with one_file [])\<lparr>scheduler_enabled := True,
     phys_mem := (\<lambda>a. if a - 0x400000 < 9 then of_char (''/bin/init'' ! unat (a - 0x400000)) else 0),
     procs := (\<lambda>_. zero_process)(0x100 := zero_process\<lparr>pstate := PROCESS_STATE_RUNNING\<rparr>)\<rparr>"
  have "queue ?old []" by (simp add: queue_def ksys_with_def kdev_boot_simps kproc_boot_simps kdev.defs)
  from rq.push_holds [OF this, of "0x200"] have q: "queue exec_demo [0x200]" by (simp add: exec_demo_def)
  have r: "relinked ?old exec_demo" unfolding exec_demo_def by (rule ready_queue_push_relinked)
  have f: "scheduler_enabled exec_demo" "process_get_current exec_demo = 0x100" "pstate (procs exec_demo 0x100) = PROCESS_STATE_RUNNING"
    "phys_mem exec_demo = phys_mem ?old"
    by (simp_all add: relinked_keeps [OF r] relinked_fields [OF r] process_get_current_def ksys_with_def)
  have "string_at (phys_mem exec_demo) 0x400000 = Some (map of_char ''/bin/init'')"
  proof (rule string_at_bytes)
    have nz: "\<forall>ch \<in> set ''/bin/init''. of_char ch \<noteq> (0 :: u8)" by simp
    fix i
    assume "i < length (map of_char ''/bin/init'' :: u8 list)"
    then have i: "i < 9" "i < length ''/bin/init''" by simp_all
    then have "unat (of_nat i :: u64) = i" "of_nat i < (9 :: u64)" by (simp_all add: unat_of_nat_64 word_less_nat_alt)
    then show "phys_mem exec_demo (0x400000 + of_nat i) = map of_char ''/bin/init'' ! i \<and> map of_char ''/bin/init'' ! i \<noteq> (0 :: u8)"
      using bspec [OF nz nth_mem [OF i(2)]] unfolding f(4) nth_map [OF i(2)] by simp
  qed (simp add: f(4))
  then have u: "user_string (\<lambda>a. a) 0x400000 exec_demo = Inr (map of_char ''/bin/init'')" by (simp add: user_string_def returns_def)
  have b: "(''/bin/init'', Init_main, ''init'') \<in> set builtins" by (simp add: builtins_def)
  show ?thesis using execve_is_forgotten [OF u b _ f(2) _ _ f(3,1) q, of "\<lambda>_. 0x7000"] by auto
qed

end
