(* ===== verification/Elf.thy ===== *)
theory Elf
  imports Process
begin

text \<open>
  The loader of executables, \<open>src/lib/elf.c\<close>.  The image is in the kernel's memory at the address
  \<open>elf_data\<close>; the fields of its headers are read from memory at each use, as the code does, and
  their offsets are those of the packed structures of \<open>include/lib/elf.h\<close>.  The copy loops have no
  bound of their own and are partial: a loop that does not end is \<open>Spin\<close>.
\<close>

section \<open>Headers\<close>

definition load16 :: "pmem \<Rightarrow> u64 \<Rightarrow> u16" where
  "load16 m a = ucast (m a) OR push_bit 8 (ucast (m (a + 1)))"

definition load32 :: "pmem \<Rightarrow> u64 \<Rightarrow> u32" where
  "load32 m a = ucast (load64 m a)"

definition e_ident :: "pmem \<Rightarrow> u64 \<Rightarrow> nat \<Rightarrow> u8" where "e_ident m h i = m (h + of_nat i)"
definition e_type :: "pmem \<Rightarrow> u64 \<Rightarrow> u16" where "e_type m h = load16 m (h + 16)"
definition e_machine :: "pmem \<Rightarrow> u64 \<Rightarrow> u16" where "e_machine m h = load16 m (h + 18)"
definition e_entry :: "pmem \<Rightarrow> u64 \<Rightarrow> u64" where "e_entry m h = load64 m (h + 24)"
definition e_phoff :: "pmem \<Rightarrow> u64 \<Rightarrow> u64" where "e_phoff m h = load64 m (h + 32)"
definition e_phnum :: "pmem \<Rightarrow> u64 \<Rightarrow> u16" where "e_phnum m h = load16 m (h + 56)"

definition p_type :: "pmem \<Rightarrow> u64 \<Rightarrow> u32" where "p_type m ph = load32 m ph"
definition p_flags :: "pmem \<Rightarrow> u64 \<Rightarrow> u32" where "p_flags m ph = load32 m (ph + 4)"
definition p_offset :: "pmem \<Rightarrow> u64 \<Rightarrow> u64" where "p_offset m ph = load64 m (ph + 8)"
definition p_vaddr :: "pmem \<Rightarrow> u64 \<Rightarrow> u64" where "p_vaddr m ph = load64 m (ph + 16)"
definition p_filesz :: "pmem \<Rightarrow> u64 \<Rightarrow> u64" where "p_filesz m ph = load64 m (ph + 32)"
definition p_memsz :: "pmem \<Rightarrow> u64 \<Rightarrow> u64" where "p_memsz m ph = load64 m (ph + 40)"

definition elf_validate :: "u64 \<Rightarrow> 'a machine_scheme \<Rightarrow> int \<times> 'a machine_scheme" where
  "elf_validate header s =
     (let m = phys_mem s
      in if e_ident m header 0 \<noteq> 0x7F \<or> e_ident m header 1 \<noteq> 0x45 \<or> e_ident m header 2 \<noteq> 0x4C \<or> e_ident m header 3 \<noteq> 0x46
      then (- 1, terminal_writestring ''ELF: Invalid magic\<newline>'' s)
      else if e_ident m header 4 \<noteq> 2 then (- 1, terminal_writestring ''ELF: Not 64-bit\<newline>'' s)
      else if e_type m header \<noteq> 2 then (- 1, terminal_writestring ''ELF: Not executable\<newline>'' s)
      else if e_machine m header \<noteq> 62 then (- 1, terminal_writestring ''ELF: Wrong architecture\<newline>'' s)
      else (0, s))"

section \<open>Segments\<close>

fun elf_map_pages :: "nat list \<Rightarrow> u64 \<Rightarrow> u64 \<Rightarrow> u64 \<Rightarrow> 'a kproc_scheme \<Rightarrow> (int \<times> 'a kproc_scheme) res" where
  "elf_map_pages [] proc phdr start s = Inr (0, s)"
| "elf_map_pages (j # js) proc phdr start s =
     (let vaddr = start + of_nat j * 4096
      in case pmm_alloc_page s of (paddr, s1) \<Rightarrow>
      if paddr = 0 then Inr (- 1, terminal_writestring ''ELF: Out of memory\<newline>'' s1)
      else let flgs = (PAGE_PRESENT OR PAGE_USER) OR (if p_flags (phys_mem s1) phdr AND 2 \<noteq> 0 then PAGE_WRITABLE else 0)
      in case vmm_map_page (page_table (procs s1 proc)) vaddr paddr flgs s1 of (r, s2) \<Rightarrow>
      if r < 0 then bind_res (pmm_free_page paddr (terminal_writestring ''ELF: Failed to map page\<newline>'' s2)) (\<lambda>s3. Inr (- 1, s3))
      else elf_map_pages js proc phdr start (upd_proc proc (\<lambda>p. p\<lparr>pages_allocated := pages_allocated p + 1\<rparr>) s2))"

partial_function (option) elf_copy :: "u64 \<Rightarrow> u64 \<Rightarrow> u64 \<Rightarrow> u64 \<Rightarrow> 'a kproc_scheme \<Rightarrow> (int \<times> 'a kproc_scheme) option" where
  "elf_copy proc phdr src off s =
     (if \<not> off < p_filesz (phys_mem s) phdr then Some (0, s)
      else let vaddr = p_vaddr (phys_mem s) phdr + off; paddr = vmm_get_physical (page_table (procs s proc)) vaddr s
      in if paddr = 0 then Some (- 1, terminal_writestring ''ELF: Failed to get physical address\<newline>'' s)
      else let page_off = vaddr AND 0xFFF;
               copy_size = (if p_filesz (phys_mem s) phdr < off + (4096 - page_off)
                 then p_filesz (phys_mem s) phdr - off else 4096 - page_off)
      in elf_copy proc phdr src (off + copy_size)
           (s\<lparr>phys_mem := copy_bytes (phys_mem s) (paddr + page_off) (src + off) (unat copy_size)\<rparr>))"

partial_function (option) elf_zero :: "u64 \<Rightarrow> u64 \<Rightarrow> u64 \<Rightarrow> u64 \<Rightarrow> 'a kproc_scheme \<Rightarrow> (int \<times> 'a kproc_scheme) option" where
  "elf_zero proc bss_start bss_size off s =
     (if \<not> off < bss_size then Some (0, s)
      else let vaddr = bss_start + off; paddr = vmm_get_physical (page_table (procs s proc)) vaddr s
      in if paddr = 0 then Some (- 1, terminal_writestring ''ELF: Failed to get physical address for BSS\<newline>'' s)
      else let page_off = vaddr AND 0xFFF;
               zero_size = (if bss_size < off + (4096 - page_off) then bss_size - off else 4096 - page_off)
      in elf_zero proc bss_start bss_size (off + zero_size)
           (s\<lparr>phys_mem := zero_bytes (paddr + page_off) (unat zero_size) (phys_mem s)\<rparr>))"

definition elf_segment :: "u64 \<Rightarrow> u64 \<Rightarrow> u64 \<Rightarrow> 'a kproc_scheme \<Rightarrow> (int \<times> 'a kproc_scheme) res" where
  "elf_segment proc elf_data phdr s =
     (if p_type (phys_mem s) phdr \<noteq> 1 then Inr (0, s)
      else let s1 = terminal_writestring ''\<newline>'' (terminal_writestring ''ELF: Loading segment '' s);
               vaddr = p_vaddr (phys_mem s1) phdr; start = vaddr AND NOT 0xFFF;
               fin = (vaddr + p_memsz (phys_mem s1) phdr + 0xFFF) AND NOT 0xFFF;
               pages = (fin - start) div 4096
      in bind_res (elf_map_pages [0..<unat pages] proc phdr start s1) (\<lambda>(r, s2).
         if r < 0 then Inr (- 1, s2)
         else bind_res (if 0 < p_filesz (phys_mem s2) phdr
             then returns (elf_copy proc phdr (elf_data + p_offset (phys_mem s2) phdr) 0 s2) else Inr (0, s2)) (\<lambda>(r, s3).
         if r < 0 then Inr (- 1, s3)
         else let filesz = p_filesz (phys_mem s3) phdr; memsz = p_memsz (phys_mem s3) phdr
         in if filesz < memsz
            then returns (elf_zero proc (p_vaddr (phys_mem s3) phdr + filesz) (memsz - filesz) 0 s3) else Inr (0, s3))))"

lemma e_phnum_less: "unat (e_phnum m h) < 65536"
  using unsigned_less [of "e_phnum m h"] by simp

function elf_segments :: "nat \<Rightarrow> u64 \<Rightarrow> u64 \<Rightarrow> u64 \<Rightarrow> 'a kproc_scheme \<Rightarrow> (int \<times> 'a kproc_scheme) res" where
  "elf_segments i proc elf_data phdrs s =
     (if \<not> i < unat (e_phnum (phys_mem s) elf_data) then Inr (0, s)
      else bind_res (elf_segment proc elf_data (phdrs + 56 * of_nat i) s) (\<lambda>(r, s1).
        if r < 0 then Inr (- 1, s1) else elf_segments (i + 1) proc elf_data phdrs s1))"
  by pat_completeness auto

termination
  by (relation "measure (\<lambda>(i, _). 65536 - i)") (auto dest!: order.strict_trans [OF _ e_phnum_less])

declare elf_segments.simps [simp del]

section \<open>Executables\<close>

definition elf_load :: "u64 \<Rightarrow> u64 \<Rightarrow> 'a kproc_scheme \<Rightarrow> (int \<times> 'a kproc_scheme) res" where
  "elf_load proc elf_data s =
     (case elf_validate elf_data s of (v, s1) \<Rightarrow>
      if v < 0 then Inr (- 1, s1)
      else let s2 = terminal_writestring ''\<newline>'' (terminal_writestring ''ELF: Loading executable, entry=0x'' s1)
      in bind_res (elf_segments 0 proc elf_data (elf_data + e_phoff (phys_mem s2) elf_data) s2) (\<lambda>(r, s3).
         if r < 0 then Inr (- 1, s3)
         else let start = e_entry (phys_mem s3) elf_data
         in Inr (0, upd_proc proc (\<lambda>p. p\<lparr>pcontext := (pcontext p)\<lparr>rip := start, rsp := USER_STACK_TOP - 16, rflags := 0x202\<rparr>,
              entry_point := start\<rparr>) s3)))"

definition elf_create_process :: "u64 \<Rightarrow> string \<Rightarrow> 'a kproc_scheme \<Rightarrow> (u64 \<times> 'a kproc_scheme) res" where
  "elf_create_process elf_data name s =
     bind_res (process_create name 0x100000 1 s) (\<lambda>(proc, s1).
     if proc = 0 then Inr (0, s1)
     else bind_res (elf_load proc elf_data s1) (\<lambda>(r, s2).
     if r < 0 then bind_res (process_destroy proc s2) (\<lambda>s3. Inr (0, s3))
     else Inr (proc, terminal_writestring (CHR 0x27 # '' created\<newline>'') (terminal_writestring name (terminal_writestring (''ELF: Process '' @ [CHR 0x27]) s2)))))"

section \<open>Pages and what lies outside them\<close>

lemma entry_agree:
  assumes "page_aligned u" "i < 512" "\<And>x. unat (x - u) < 4096 \<Longrightarrow> m' x = m x"
  shows "entry m' u i = entry m u i"
  unfolding entry_def
proof (rule load64_bytes_cong, rule assms(3))
  fix j :: nat assume "j < 8"
  then have "unat (8 * of_nat i + of_nat j :: u64) = 8 * i + j" using assms(2) unat_of_nat_64 [of "8 * i + j"] by simp
  moreover have "u + 8 * of_nat i + of_nat j - u = 8 * of_nat i + of_nat j" by simp
  ultimately show "unat (u + 8 * of_nat i + of_nat j - u) < 4096" using assms(2) \<open>j < 8\<close> by (simp only:)
qed

lemma get_physical_way:
  assumes "page_aligned t" "\<And>u x. u \<in> tables_on_way (phys_mem s) t v \<Longrightarrow> unat (x - u) < 4096 \<Longrightarrow> phys_mem s' x = phys_mem s x"
  shows "vmm_get_physical t v s' = vmm_get_physical t v s"
proof -
  let ?m = "phys_mem s"
  define e4 where "e4 = entry ?m t (PML4_INDEX v)"
  define e3 where "e3 = entry ?m (page_base e4) (PDPT_INDEX v)"
  define e2 where "e2 = entry ?m (page_base e3) (PD_INDEX v)"
  have e: "entry (phys_mem s') u i = entry ?m u i" if "u \<in> tables_on_way ?m t v" "page_aligned u" "i < 512" for u i
    using entry_agree that assms(2) by blast
  have way: "t \<in> tables_on_way ?m t v" "present e4 \<Longrightarrow> page_base e4 \<in> tables_on_way ?m t v"
    "present e4 \<Longrightarrow> present e3 \<Longrightarrow> page_base e3 \<in> tables_on_way ?m t v"
    "present e4 \<Longrightarrow> present e3 \<Longrightarrow> present e2 \<Longrightarrow> page_base e2 \<in> tables_on_way ?m t v"
    by (simp_all add: tables_on_way_def walk.simps e4_def e3_def e2_def)
  have "entry (phys_mem s') t (PML4_INDEX v) = e4" using e [OF way(1)] assms(1) by (simp add: e4_def)
  moreover have "present e4 \<Longrightarrow> entry (phys_mem s') (page_base e4) (PDPT_INDEX v) = e3" using e [OF way(2)] by (simp add: e3_def)
  moreover have "present e4 \<Longrightarrow> present e3 \<Longrightarrow> entry (phys_mem s') (page_base e3) (PD_INDEX v) = e2" using e [OF way(3)] by (simp add: e2_def)
  moreover have "present e4 \<Longrightarrow> present e3 \<Longrightarrow> present e2 \<Longrightarrow> entry (phys_mem s') (page_base e2) (PT_INDEX v) = entry ?m (page_base e2) (PT_INDEX v)"
    using e [OF way(4)] by simp
  ultimately show ?thesis unfolding vmm_get_physical_def Let_def e4_def [symmetric] e3_def [symmetric] e2_def [symmetric]
    by simp
qed

text \<open>An address inside a page translates to the same place inside its frame.\<close>

lemma page_offset:
  assumes "page_aligned w" "unat r < 4096"
  shows "w + r = w OR r" "(w + r) AND 0xFFF = r" "same_page (w + r) w"
proof -
  have low: "\<not> bit w n" if "n < 12" for n using assms(1) that by (simp add: page_aligned_bits)
  have r: "r = take_bit 12 r" using assms(2) by (simp add: word_unat_eq_iff unsigned_take_bit_eq take_bit_nat_eq_self)
  then have high: "\<not> bit r n" if "\<not> n < 12" for n using that by (metis bit_take_bit_iff)
  show a: "w + r = w OR r" using low high by (intro disjunctive_add) blast
  have f: "(0xFFF :: u64) = mask 12" by (simp add: mask_eq_exp_minus_1)
  show "(w + r) AND 0xFFF = r" unfolding a f using low high by (auto intro!: bit_word_eqI simp: bit_simps) blast
  show "same_page (w + r) w" unfolding a same_page_def using high by (auto intro!: bit_word_eqI simp: bit_simps)
qed

lemma get_physical_offset:
  assumes "page_aligned w" "unat r < 4096" "vmm_get_physical t w s \<noteq> 0"
  shows "vmm_get_physical t (w + r) s = vmm_get_physical t w s + r" "page_aligned (vmm_get_physical t w s)"
proof -
  have w0: "w AND 0xFFF = 0" using page_offset(2) [OF assms(1), of 0] by simp
  show p: "page_aligned (vmm_get_physical t w s)"
    using assms(3) by (simp add: vmm_get_physical_pte Let_def w0 split: if_splits)
  have i: "PML4_INDEX (w + r) = PML4_INDEX w" "PDPT_INDEX (w + r) = PDPT_INDEX w" "PD_INDEX (w + r) = PD_INDEX w" "PT_INDEX (w + r) = PT_INDEX w"
    using page_offset(3) [OF assms(1,2)] by (simp_all add: same_page_indices)
  have "vmm_get_physical t (w + r) s = vmm_get_physical t w s OR r"
    using assms(3) unfolding vmm_get_physical_pte i page_offset(2) [OF assms(1,2)] by (simp add: Let_def w0 split: if_splits)
  then show "vmm_get_physical t (w + r) s = vmm_get_physical t w s + r" using page_offset(1) [OF p assms(2)] by simp
qed

section \<open>The copy of a segment\<close>

text \<open>
  A segment whose pages are mapped: the program header at \<open>phdr\<close> gives a page-aligned address and a
  size, each page of that range has a frame of its own, and the frames hold neither a page table on
  the way to the range, nor the program header, nor the \<open>n\<close> bytes of the image at \<open>src\<close>.
\<close>

definition file_pages :: "pmem \<Rightarrow> u64 \<Rightarrow> nat" where
  "file_pages m phdr = (unat (p_filesz m phdr) + 4095) div 4096"

definition frame_of :: "u64 \<Rightarrow> u64 \<Rightarrow> 'a kproc_scheme \<Rightarrow> nat \<Rightarrow> u64" where
  "frame_of proc phdr s i = vmm_get_physical (page_table (procs s proc)) (page_va (p_vaddr (phys_mem s) phdr) i) s"

definition outside :: "(nat \<Rightarrow> u64) \<Rightarrow> nat \<Rightarrow> u64 \<Rightarrow> bool" where
  "outside F k x \<longleftrightarrow> (\<forall>i < k. 4096 \<le> unat (x - F i))"

definition segment_mapped :: "u64 \<Rightarrow> u64 \<Rightarrow> u64 \<Rightarrow> 'a kproc_scheme \<Rightarrow> bool" where
  "segment_mapped proc phdr src s \<longleftrightarrow>
     (let m = phys_mem s; t = page_table (procs s proc); va = p_vaddr m phdr; F = frame_of proc phdr s; k = file_pages m phdr
      in page_aligned t \<and> page_aligned va \<and> unat va + unat (p_filesz m phdr) \<le> 2 ^ 48 \<and>
        (\<forall>i < k. F i \<noteq> 0) \<and> inj_on F {..<k} \<and>
        (\<forall>i < k. \<forall>j < k. F i \<notin> tables_on_way m t (page_va va j)) \<and>
        (\<forall>a < 48. outside F k (phdr + of_nat a)) \<and>
        (\<forall>a < unat (p_filesz m phdr). outside F k (src + of_nat a)))"

lemma page_va_aligned:
  assumes "page_aligned va" "unat va + 4096 * i < 2 ^ 64"
  shows "page_aligned (page_va va i)" "unat (page_va va i) = unat va + 4096 * i"
proof -
  have "unat (of_nat i * 4096 :: u64) = 4096 * i" using assms(2) unat_of_nat_64 [of "4096 * i"] by (simp add: mult.commute)
  then show "unat (page_va va i) = unat va + 4096 * i" using assms(2) by (simp add: page_va_def unat_add_no_wrap)
  then show "page_aligned (page_va va i)" using assms(1) by (simp add: page_aligned_def)
qed

lemma file_pages_less: "i < file_pages m phdr \<longleftrightarrow> 4096 * i < unat (p_filesz m phdr)"
  unfolding file_pages_def by (auto simp: less_eq_Suc_le less_eq_div_iff_mult_less_eq)

lemma segment_agree:
  assumes seg: "segment_mapped proc phdr src s" and m: "\<forall>x. outside (frame_of proc phdr s) (file_pages (phys_mem s) phdr) x \<longrightarrow> m' x = phys_mem s x"
  shows "p_vaddr m' phdr = p_vaddr (phys_mem s) phdr" "p_filesz m' phdr = p_filesz (phys_mem s) phdr"
    and "i < file_pages (phys_mem s) phdr \<Longrightarrow>
      vmm_get_physical (page_table (procs s proc)) (page_va (p_vaddr (phys_mem s) phdr) i) (s\<lparr>phys_mem := m'\<rparr>) = frame_of proc phdr s i"
    and "i < file_pages (phys_mem s) phdr \<Longrightarrow> page_aligned (frame_of proc phdr s i)"
proof -
  let ?k = "file_pages (phys_mem s) phdr" and ?t = "page_table (procs s proc)" and ?va = "p_vaddr (phys_mem s) phdr" and ?F = "frame_of proc phdr s"
  have h: "m' (phdr + of_nat a) = phys_mem s (phdr + of_nat a)" if "a < 48" for a
    using seg that m by (simp add: segment_mapped_def Let_def)
  have "phdr + (16 + of_nat j) = phdr + of_nat (16 + j)" "phdr + (32 + of_nat j) = phdr + of_nat (32 + j)" for j by simp_all
  then show "p_vaddr m' phdr = ?va" "p_filesz m' phdr = p_filesz (phys_mem s) phdr"
    unfolding p_vaddr_def p_filesz_def by (auto intro!: load64_bytes_cong simp: add.assoc h simp del: of_nat_add)
  have al: "page_aligned (?F i)" if i: "i < ?k" for i
  proof -
    have "unat ?va + 4096 * i < 2 ^ 64" "page_aligned ?va" "?F i \<noteq> 0"
      using seg i file_pages_less [of i "phys_mem s" phdr] by (simp_all add: segment_mapped_def Let_def)
    then show ?thesis using get_physical_offset(2) [OF page_va_aligned(1), of ?va i 0] by (simp add: frame_of_def)
  qed
  show "page_aligned (?F i)" if "i < ?k" using al that .
  show "vmm_get_physical ?t (page_va ?va i) (s\<lparr>phys_mem := m'\<rparr>) = ?F i" if i: "i < ?k"
  proof -
    have "m' x = phys_mem s x" if u: "u \<in> tables_on_way (phys_mem s) ?t (page_va ?va i)" "unat (x - u) < 4096" for u x
    proof (rule m [rule_format], unfold outside_def, intro allI impI)
      fix j assume j: "j < ?k"
      have "page_aligned ?t" "?F j \<noteq> u" using seg i j u by (auto simp: segment_mapped_def Let_def)
      moreover have "page_aligned u" using u(1) \<open>page_aligned ?t\<close> walk_aligned [OF \<open>page_aligned ?t\<close>] by (auto simp: tables_on_way_def)
      ultimately show "4096 \<le> unat (x - ?F j)" using page_disjoint [of u "?F j" x] al [OF j] u(2) by simp
    qed
    moreover have "page_aligned ?t" using seg by (simp add: segment_mapped_def Let_def)
    ultimately show ?thesis unfolding frame_of_def by (intro get_physical_way) simp_all
  qed
qed

text \<open>One round of the loop, and the whole loop from page \<open>i\<close> on.\<close>

definition copied :: "u64 \<Rightarrow> u64 \<Rightarrow> u64 \<Rightarrow> 'a kproc_scheme \<Rightarrow> nat \<Rightarrow> pmem \<Rightarrow> bool" where
  "copied proc phdr src s n m' \<longleftrightarrow>
     (\<forall>x. outside (frame_of proc phdr s) (file_pages (phys_mem s) phdr) x \<longrightarrow> m' x = phys_mem s x) \<and>
     (\<forall>a < n. m' (frame_of proc phdr s (a div 4096) + of_nat (a mod 4096)) = phys_mem s (src + of_nat a))"

lemma copied_step:
  assumes seg: "segment_mapped proc phdr src s" and i: "4096 * i < n" "n = unat (p_filesz (phys_mem s) phdr)"
    and m: "copied proc phdr src s (4096 * i) m1" and c: "c = min 4096 (n - 4096 * i)"
  shows "copied proc phdr src s (4096 * i + c) (copy_bytes m1 (frame_of proc phdr s i) (src + of_nat (4096 * i)) c)"
proof -
  let ?F = "frame_of proc phdr s" and ?k = "file_pages (phys_mem s) phdr"
  define o1 :: u64 where "o1 = of_nat (4096 * i)"
  define m2 where "m2 = copy_bytes m1 (?F i) (src + o1) c"
  have cb: "c \<le> 4096" "4096 * i + c \<le> n" using i(1) unfolding c by linarith+
  have ik: "i < ?k" using i by (simp add: file_pages_less)
  have agree: "\<forall>x. outside ?F ?k x \<longrightarrow> m1 x = phys_mem s x" using m by (simp add: copied_def)
  note al = segment_agree(4) [OF seg agree]
  have out: "outside ?F ?k (src + of_nat a)" if "a < n" for a using seg that i(2) by (simp add: segment_mapped_def Let_def)
  have src: "src + o1 + of_nat j = src + of_nat (4096 * i + j)" for j by (simp add: add.assoc o1_def)
  have "?F i + of_nat a \<noteq> src + o1 + of_nat j" if "a < c" "j < c" for a j
  proof
    assume eq: "?F i + of_nat a = src + o1 + of_nat j"
    have "src + of_nat (4096 * i + j) - ?F i = of_nat a" unfolding src [symmetric] eq [symmetric] by simp
    moreover have "4096 * i + j < n" using that(2) cb by linarith
    then have "4096 \<le> unat (src + of_nat (4096 * i + j) - ?F i)" using out [of "4096 * i + j"] ik by (simp add: outside_def)
    ultimately show False using that(1) cb unat_of_nat_64 [of a] by simp
  qed
  then have m2: "m2 x = (if unat (x - ?F i) < c then m1 (src + o1 + (x - ?F i)) else m1 x)" for x
    unfolding m2_def using cb by (intro copy_bytes_apply) simp_all
  show ?thesis unfolding o1_def [symmetric] m2_def [symmetric] copied_def
  proof (intro conjI allI impI)
    fix x assume x: "outside ?F ?k x"
    then have "4096 \<le> unat (x - ?F i)" using ik by (simp add: outside_def)
    then show "m2 x = phys_mem s x" using agree x cb by (simp add: m2)
  next
    fix a assume a: "a < 4096 * i + c"
    have u: "unat (of_nat (a mod 4096) :: u64) = a mod 4096" by (rule unat_of_nat_64) (simp add: less_trans [of _ 4096])
    show "m2 (?F (a div 4096) + of_nat (a mod 4096)) = phys_mem s (src + of_nat a)"
    proof (cases "a < 4096 * i")
      case True
      then have j: "a div 4096 < ?k" "a div 4096 \<noteq> i" using ik by auto
      then have "?F (a div 4096) \<noteq> ?F i" using seg ik by (auto simp: segment_mapped_def Let_def dest: inj_onD)
      then have "4096 \<le> unat (?F (a div 4096) + of_nat (a mod 4096) - ?F i)"
        using page_disjoint [of "?F (a div 4096)" "?F i"] al j(1) ik u by simp
      then show ?thesis using m True cb by (simp add: m2 copied_def)
    next
      case False
      define b where "b = a - 4096 * i"
      have b: "a = 4096 * i + b" "b < c" "b < 4096" using False a cb by (simp_all add: b_def)
      then have "a div 4096 = i" "a mod 4096 = b" by simp_all
      then show ?thesis using u b agree [rule_format, OF out, of a] cb by (simp add: m2 src)
    qed
  qed
qed

lemma elf_copy_loop:
  assumes seg: "segment_mapped proc phdr src s" and n: "n = unat (p_filesz (phys_mem s) phdr)" "i \<le> file_pages (phys_mem s) phdr"
    and m: "copied proc phdr src s (min n (4096 * i)) m1"
  shows "\<exists>m'. elf_copy proc phdr src (of_nat (min n (4096 * i))) (s\<lparr>phys_mem := m1\<rparr>) = Some (0, s\<lparr>phys_mem := m'\<rparr>) \<and> copied proc phdr src s n m'"
  using n(2) m
proof (induction "file_pages (phys_mem s) phdr - i" arbitrary: i m1)
  case 0
  let ?k = "file_pages (phys_mem s) phdr"
  have "\<not> 4096 * i < n" using 0 n(1) file_pages_less [of i "phys_mem s" phdr] by simp
  moreover have "p_filesz m1 phdr = p_filesz (phys_mem s) phdr" using 0 by (intro segment_agree(2) [OF seg]) (simp add: copied_def)
  ultimately show ?case using 0 n(1) by (intro exI [of _ m1], subst elf_copy.simps) (simp add: min_def)
next
  case (Suc d)
  let ?k = "file_pages (phys_mem s) phdr" and ?F = "frame_of proc phdr s" and ?t = "page_table (procs s proc)"
  define off :: u64 where "off = of_nat (4096 * i)"
  let ?s1 = "s\<lparr>phys_mem := m1\<rparr>" and ?fs = "p_filesz (phys_mem s) phdr"
  have "i < ?k" using Suc.hyps(2) by linarith
  then have ik: "i < ?k" "4096 * i < n" using n(1) file_pages_less [of i "phys_mem s" phdr] by simp_all
  then have lo: "min n (4096 * i) = 4096 * i" by simp
  have n48: "n \<le> 2 ^ 48" "page_aligned (p_vaddr (phys_mem s) phdr)" "unat (p_vaddr (phys_mem s) phdr) + n \<le> 2 ^ 48" "?F i \<noteq> 0"
    using seg n(1) ik(1) by (simp_all add: segment_mapped_def Let_def)
  have uo: "unat off = 4096 * i" unfolding off_def using ik(2) n48(1) by (intro unat_of_nat_64) simp
  have agree: "\<forall>x. outside ?F ?k x \<longrightarrow> m1 x = phys_mem s x" using Suc.prems(2) by (simp add: copied_def)
  note a = segment_agree [OF seg agree]
  have va: "p_vaddr (phys_mem s) phdr + off = page_va (p_vaddr (phys_mem s) phdr) i" by (simp add: page_va_def mult.commute off_def)
  have po: "page_va (p_vaddr (phys_mem s) phdr) i AND 0xFFF = 0"
    using page_offset(2) [OF page_va_aligned(1) [OF n48(2)], of i 0] ik(2) n48 by simp
  define c where "c = min 4096 (n - 4096 * i)"
  define cw :: u64 where "cw = (if ?fs < off + 4096 then ?fs - off else 4096)"
  have u4: "unat (off + 4096) = 4096 * i + 4096" using uo ik(2) n48(1) by (subst unat_add_no_wrap) simp_all
  have cw: "unat cw = c" using u4 uo ik(2) n(1) by (auto simp: cw_def c_def word_less_nat_alt unat_sub word_le_nat_alt)
  have end1: "4096 * i + c = min n (4096 * (i + 1))" using ik(2) unfolding c_def min_def by (auto; arith)
  have next1: "off + cw = of_nat (min n (4096 * (i + 1)))"
  proof -
    have "unat (off + cw) = 4096 * i + c" using uo cw ik(2) n48(1) by (subst unat_add_no_wrap) (simp_all add: c_def)
    then show ?thesis unfolding end1 by (metis of_nat_unat ucast_id)
  qed
  define m2 where "m2 = copy_bytes m1 (?F i) (src + off) c"
  have m2: "copied proc phdr src s (min n (4096 * (i + 1))) m2"
    using copied_step [OF seg ik(2) n(1) _ c_def, of m1] Suc.prems(2) unfolding lo end1 m2_def off_def by blast
  have "elf_copy proc phdr src off ?s1 = elf_copy proc phdr src (off + cw) (s\<lparr>phys_mem := m2\<rparr>)"
  proof -
    have "off < ?fs" using ik(2) uo n(1) by (simp add: word_less_nat_alt)
    then show ?thesis using n48(4) a(3) [OF ik(1)] 
      by (subst elf_copy.simps) (simp add: a(1,2) va po Let_def m2_def cw [symmetric] cw_def)
  qed
  moreover have "d = ?k - (i + 1)" "i + 1 \<le> ?k" using Suc.hyps(2) by simp_all
  ultimately show ?case using Suc.hyps(1) [of "i + 1" m2] m2 unfolding lo off_def [symmetric] next1 [symmetric] by simp
qed

text \<open>
  C6: the loader puts the bytes of the file where the program expects them.  For a segment at a page
  boundary whose pages are mapped to frames of their own, the copy loop ends and succeeds; reading the
  address of each byte of the segment through the page tables then gives the byte of the image, and
  no memory outside the frames of the segment has changed.
\<close>

theorem elf_copy_correct:
  assumes "segment_mapped proc phdr src s"
  shows "\<exists>m'. elf_copy proc phdr src 0 s = Some (0, s\<lparr>phys_mem := m'\<rparr>) \<and>
    (\<forall>a < unat (p_filesz (phys_mem s) phdr).
       m' (vmm_get_physical (page_table (procs s proc)) (p_vaddr (phys_mem s) phdr + of_nat a) (s\<lparr>phys_mem := m'\<rparr>)) = phys_mem s (src + of_nat a)) \<and>
    (\<forall>x. outside (frame_of proc phdr s) (file_pages (phys_mem s) phdr) x \<longrightarrow> m' x = phys_mem s x)"
proof -
  let ?n = "unat (p_filesz (phys_mem s) phdr)" and ?va = "p_vaddr (phys_mem s) phdr" and ?F = "frame_of proc phdr s"
  obtain m' where c: "elf_copy proc phdr src 0 s = Some (0, s\<lparr>phys_mem := m'\<rparr>)" "copied proc phdr src s ?n m'"
    using elf_copy_loop [OF assms refl, of 0 "phys_mem s"] by (auto simp: copied_def)
  have "m' (vmm_get_physical (page_table (procs s proc)) (?va + of_nat a) (s\<lparr>phys_mem := m'\<rparr>)) = phys_mem s (src + of_nat a)" if a: "a < ?n" for a
  proof -
    let ?i = "a div 4096" and ?r = "of_nat (a mod 4096) :: u64"
    have i: "?i < file_pages (phys_mem s) phdr" using a by (simp add: file_pages_less)
    have p: "page_aligned ?va" "unat ?va + ?n \<le> 2 ^ 48" "?F ?i \<noteq> 0" using assms i by (simp_all add: segment_mapped_def Let_def)
    have al: "page_aligned (page_va ?va ?i)" using p a by (intro page_va_aligned(1)) simp_all
    have phys: "vmm_get_physical (page_table (procs s proc)) (page_va ?va ?i) (s\<lparr>phys_mem := m'\<rparr>) = ?F ?i"
      using c(2) i by (intro segment_agree(3) [OF assms]) (simp_all add: copied_def)
    have "of_nat a = (of_nat (4096 * ?i) + ?r :: u64)" by (metis mult_div_mod_eq of_nat_add)
    then have "?va + of_nat a = page_va ?va ?i + ?r" by (simp add: page_va_def mult.commute add.assoc)
    moreover have "unat ?r < 4096" by (subst unat_of_nat_64) (simp_all add: less_trans [of _ 4096])
    ultimately have "vmm_get_physical (page_table (procs s proc)) (?va + of_nat a) (s\<lparr>phys_mem := m'\<rparr>) = ?F ?i + ?r"
      using get_physical_offset(1) [OF al, of ?r "page_table (procs s proc)" "s\<lparr>phys_mem := m'\<rparr>"] phys p(3) by simp
    then show ?thesis using c(2) a by (simp add: copied_def)
  qed
  then show ?thesis using c by (auto simp: copied_def)
qed

text \<open>A segment of three bytes at \<open>0x400000\<close>, mapped to the frame \<open>0x8000\<close>.\<close>

definition elf_demo :: kproc where
  "elf_demo = kproc_boot\<lparr>procs := (\<lambda>_. zero_process)(0x100 := zero_process\<lparr>page_table := 0x1000\<rparr>),
     phys_mem := (\<lambda>_. 0)(0x1000 := 3, 0x1001 := 0x20, 0x2000 := 3, 0x2001 := 0x30, 0x3010 := 3, 0x3011 := 0x40,
       0x4000 := 7, 0x4001 := 0x80, 0x10012 := 0x40, 0x10020 := 3, 0x11000 := 0x61, 0x11001 := 0x62, 0x11002 := 0x63)\<rparr>"

lemma elf_demo_entries:
  "entry (phys_mem elf_demo) 0x1000 0 = 0x2003" "entry (phys_mem elf_demo) 0x2000 0 = 0x3003"
  "entry (phys_mem elf_demo) 0x3000 2 = 0x4003" "entry (phys_mem elf_demo) 0x4000 0 = 0x8007"
  "p_vaddr (phys_mem elf_demo) 0x10000 = 0x400000" "p_filesz (phys_mem elf_demo) 0x10000 = 3"
  "page_table (procs elf_demo 0x100) = 0x1000"
  by (simp_all add: elf_demo_def entry_def p_vaddr_def p_filesz_def load64_def push_bit_eq_mult)

lemma elf_demo_mapped: "segment_mapped 0x100 0x10000 0x11000 elf_demo"
proof -
  have ix: "PML4_INDEX 0x400000 = 0" "PDPT_INDEX 0x400000 = 0" "PD_INDEX 0x400000 = 2" "PT_INDEX 0x400000 = 0"
    by (simp_all add: PML4_INDEX_def PDPT_INDEX_def PD_INDEX_def PT_INDEX_def drop_bit_eq_div)
  have b: "present 0x2003" "present 0x3003" "present 0x4003" "present 0x8007" "page_base 0x2003 = 0x2000" "page_base 0x3003 = 0x3000"
      "page_base 0x4003 = 0x4000" "page_base 0x8007 = 0x8000"
    by (simp_all add: present_def page_base_def)
  note e = elf_demo_entries ix b
  have k: "file_pages (phys_mem elf_demo) 0x10000 = 1" by (simp add: file_pages_def e)
  have F: "frame_of 0x100 0x10000 elf_demo 0 = 0x8000" by (simp add: frame_of_def page_va_def e vmm_get_physical_def Let_def)
  have u: "4096 \<le> unat (0x8000 + of_nat a :: u64)" "4096 \<le> unat (0x9000 + of_nat a :: u64)" if "a < 48" for a
    using that by (simp_all add: unat_add_no_wrap unat_of_nat_64)
  show ?thesis unfolding segment_mapped_def Let_def k e
    using u by (simp add: F e outside_def page_aligned_def tables_on_way_def walk.simps page_va_def lessThan_Suc)
qed

theorem elf_copy_correct_witness:
  "\<exists>m'. elf_copy 0x100 0x10000 0x11000 0 elf_demo = Some (0, elf_demo\<lparr>phys_mem := m'\<rparr>) \<and>
     m' (vmm_get_physical 0x1000 0x400001 (elf_demo\<lparr>phys_mem := m'\<rparr>)) = 0x62"
proof -
  have "phys_mem elf_demo 0x11001 = 0x62" by (simp add: elf_demo_def)
  then show ?thesis using elf_copy_correct [OF elf_demo_mapped] unfolding elf_demo_entries by (force dest: spec [of _ 1])
qed

text \<open>
  An image that is not an executable for this machine is refused.  When the magic number, the
  word size, the type or the architecture is wrong, \<open>elf_load\<close> reports failure, and all it has done
  is to print which check failed.
\<close>

theorem elf_load_refuses:
  assumes "\<not> ([e_ident m h 0, e_ident m h 1, e_ident m h 2, e_ident m h 3, e_ident m h 4] = [0x7F, 0x45, 0x4C, 0x46, 2] \<and>
      e_type m h = 2 \<and> e_machine m h = 62)" "m = phys_mem s"
  shows "\<exists>msg \<in> {''ELF: Invalid magic\<newline>'', ''ELF: Not 64-bit\<newline>'', ''ELF: Not executable\<newline>'', ''ELF: Wrong architecture\<newline>''}.
    elf_load proc h s = Inr (- 1, s\<lparr>console := console s @ msg\<rparr>)"
  using assms by (auto simp: elf_load_def elf_validate_def Let_def terminal_writestring_eq)

theorem elf_load_refuses_witness:
  "\<exists>msg. elf_load 0x100 0x11000 elf_demo = Inr (- 1, elf_demo\<lparr>console := console elf_demo @ msg\<rparr>)"
proof -
  have "e_ident (phys_mem elf_demo) 0x11000 0 = 0x61" by (simp add: elf_demo_def e_ident_def)
  then show ?thesis using elf_load_refuses [of "phys_mem elf_demo" "0x11000" elf_demo "0x100"] by auto
qed

end
