(* ===== verification/User_Lib.thy ===== *)
theory User_Lib
  imports Proc_Laws "HOL-Library.Sublist"
begin

text \<open>
  The string routines that the user programs \<open>src/programs/wc.c\<close>, \<open>grep.c\<close>, \<open>shell.c\<close> and
  \<open>shell_v2.c\<close> each carry a copy of.  A \<open>char*\<close> is the list of characters from that address on,
  and the end of the list counts as a terminator; a program that mutates a buffer returns the new
  buffer.
\<close>

section \<open>Routines\<close>

abbreviation (input) NUL :: char where "NUL \<equiv> CHR 0x00"

fun str_len :: "string \<Rightarrow> nat" where
  "str_len [] = 0"
| "str_len (c # s) = (if c = NUL then 0 else Suc (str_len s))"

text \<open>The character at the start of a string, 0 at its end.\<close>

definition first_char :: "string \<Rightarrow> char" where
  "first_char s = (case s of [] \<Rightarrow> NUL | c # _ \<Rightarrow> c)"

fun str_cmp :: "string \<Rightarrow> string \<Rightarrow> int" where
  "str_cmp (c # s1) s2 =
     (if c \<noteq> NUL \<and> c = first_char s2 then str_cmp s1 (tl s2) else of_char c - of_char (first_char s2))"
| "str_cmp [] s2 = - of_char (first_char s2)"

fun str_chr :: "string \<Rightarrow> char \<Rightarrow> string option" where
  "str_chr [] c = None"
| "str_chr (x # s) c = (if x = NUL then None else if x = c then Some (x # s) else str_chr s c)"

text \<open>The inner loop of \<open>str_str\<close>: whether \<open>n\<close> ends before a difference is met.\<close>

fun match_here :: "string \<Rightarrow> string \<Rightarrow> bool" where
  "match_here h [] = True"
| "match_here h (n # ns) = (n = NUL \<or> first_char h \<noteq> NUL \<and> first_char h = n \<and> match_here (tl h) ns)"

fun str_str :: "string \<Rightarrow> string \<Rightarrow> string option" where
  "str_str h needle =
     (if first_char needle = NUL then Some h
      else case h of [] \<Rightarrow> None
        | x # hs \<Rightarrow> if x = NUL then None else if match_here h needle then Some h else str_str hs needle)"

text \<open>The digits of \<open>num\<close> from position \<open>i + j\<close> of the buffer down to position \<open>i\<close>.\<close>

fun fill_str :: "nat \<Rightarrow> nat \<Rightarrow> u32 \<Rightarrow> string \<Rightarrow> string" where
  "fill_str i 0 num buf = buf"
| "fill_str i (Suc j) num buf = fill_str i j (num div 10) (buf[i + j := digit_char (num mod 10)])"

definition int_to_str :: "int \<Rightarrow> string \<Rightarrow> string" where
  "int_to_str num buf =
     (if num = 0 then buf[0 := CHR ''0'', 1 := NUL]
      else let i = (if num < 0 then 1 else 0);
               buf1 = (if num < 0 then buf[0 := CHR ''-''] else buf);
               n = of_int (if num < 0 then - num else num) :: u32;
               digits = count_digits n
      in fill_str i digits n (buf1[i + digits := NUL]))"

text \<open>
  The loop of \<open>parse_command\<close> from position \<open>i\<close>: the rest of the buffer with the ends of the
  tokens overwritten, and the positions stored in \<open>argv\<close>.
\<close>

abbreviation (input) MAX_ARGS :: nat where "MAX_ARGS \<equiv> 16"

definition is_blank :: "char \<Rightarrow> bool" where
  "is_blank c \<longleftrightarrow> c = CHR '' '' \<or> c = CHR 0x09"

fun parse_loop :: "nat \<Rightarrow> string \<Rightarrow> bool \<Rightarrow> nat \<Rightarrow> string \<times> nat list" where
  "parse_loop i [] in_token argc = ([], [])"
| "parse_loop i (c # cmd) in_token argc =
     (if c = NUL \<or> \<not> argc < MAX_ARGS - 1 then (c # cmd, [])
      else if is_blank c then
        (case parse_loop (i + 1) cmd False argc of (r, argv) \<Rightarrow> ((if in_token then NUL else c) # r, argv))
      else if \<not> in_token then
        (case parse_loop (i + 1) cmd True (argc + 1) of (r, argv) \<Rightarrow> (c # r, i # argv))
      else (case parse_loop (i + 1) cmd True argc of (r, argv) \<Rightarrow> (c # r, argv)))"

definition parse_command :: "string \<Rightarrow> string \<times> nat list" where
  "parse_command cmd = parse_loop 0 cmd False 0"

section \<open>Strings\<close>

lemma str_len_c_str [simp]: "str_len s = length (c_str s)"
  by (induction s) (simp_all add: c_str_def)

lemma c_str_append_NUL: "NUL \<notin> set x \<Longrightarrow> c_str (x @ NUL # y) = x"
  unfolding c_str_def by (subst takeWhile_append2) auto

lemma of_char_0: "of_char c = (0 :: int) \<longleftrightarrow> c = NUL"
  using of_char_eq_iff [of c NUL, where 'a = int] by simp

lemma str_cmp_eq_0: "NUL \<notin> set a \<Longrightarrow> NUL \<notin> set b \<Longrightarrow> str_cmp a b = 0 \<longleftrightarrow> a = b"
proof (induction a arbitrary: b)
  case (Cons x a)
  then show ?case by (cases b) (auto simp: first_char_def of_char_0)
qed (auto simp: first_char_def of_char_0 split: list.splits)

lemma str_chr_split:
  assumes "NUL \<notin> set s"
  shows "str_chr s c = (if c \<in> set s then Some (dropWhile (\<lambda>x. x \<noteq> c) s) else None)"
  using assms by (induction s) auto

lemma match_here_prefix: "NUL \<notin> set h \<Longrightarrow> NUL \<notin> set n \<Longrightarrow> match_here h n \<longleftrightarrow> prefix n h"
  by (induction h n rule: match_here.induct) (auto simp: first_char_def prefix_def split: list.splits)

declare str_str.simps [simp del]

lemma str_str_sublist:
  assumes "NUL \<notin> set h" "NUL \<notin> set n"
  shows "str_str h n \<noteq> None \<longleftrightarrow> sublist n h"
  using assms(1)
proof (induction h)
  case Nil
  then show ?case using assms(2) by (cases n) (auto simp: str_str.simps [of "[]"] first_char_def)
next
  case (Cons x h)
  have "prefix n (x # h) \<or> sublist n h \<longleftrightarrow> sublist n (x # h)" by (simp add: sublist_Cons_right)
  then show ?case using Cons assms(2) match_here_prefix [of "x # h" n]
    by (cases n) (auto simp: str_str.simps [of "x # h"] first_char_def)
qed

section \<open>Numbers\<close>

lemma fill_str_digits: "i \<le> length buf \<Longrightarrow> fill_str i j num buf = take i buf @ fill_digits j num (drop i buf)"
  by (induction j arbitrary: num buf) (simp_all add: drop_update_swap)

lemma drop_update_here: "k < length b \<Longrightarrow> drop k (b[k := x]) = x # drop (Suc k) b"
  by (simp add: drop_update_swap flip: Cons_nth_drop_Suc)

definition signed_decimal :: "int \<Rightarrow> string" where
  "signed_decimal n = (if n < 0 then ''-'' else []) @ decimal (nat \<bar>n\<bar>)"

lemma decimal_no_NUL: "NUL \<notin> set (decimal n)"
proof (induction n rule: decimal.induct)
  case (1 n)
  have "NUL \<noteq> char_of (48 + k)" if "k < 10" for k :: nat
  proof
    assume "NUL = char_of (48 + k)"
    then have "(of_char NUL :: nat) = of_char (char_of (48 + k))" by simp
    then show False using that by simp
  qed
  from this [of n] this [of "n mod 10"] show ?case using 1 by (auto simp: decimal.simps [of n])
qed

lemma int_to_str_decimal:
  assumes "12 \<le> length buf" "- (2 ^ 31) < num" "num < 2 ^ 31"
  shows "c_str (int_to_str num buf) = signed_decimal num"
proof (cases "num = 0")
  case True
  obtain a b xs where "buf = a # b # xs" using assms(1) by (cases buf; cases "tl buf") auto
  then show ?thesis using True by (simp add: int_to_str_def c_str_def signed_decimal_def decimal.simps char_of_def bit_0)
next
  case False
  define i :: nat where "i = (if num < 0 then 1 else 0)"
  define b1 where "b1 = (if num < 0 then buf[0 := CHR ''-''] else buf)"
  define n :: u32 where "n = of_int \<bar>num\<bar>"
  let ?d = "count_digits n"
  have "uint n = \<bar>num\<bar>" using assms(2,3) unfolding n_def by (simp add: uint_word_of_int_eq take_bit_int_eq_self)
  then have un: "unat n = nat \<bar>num\<bar>" by (metis nat_uint_eq)
  then have "0 < unat n" using False by simp
  then have pos: "0 < n" by (simp add: word_less_nat_alt)
  have "unat n < 10 ^ 10" by (rule order_less_trans [OF unat_less_32]) simp
  then have d: "?d \<le> 10" by (rule count_digits_bound)
  have e: "int_to_str num buf = fill_str i ?d n (b1[i + ?d := NUL])"
    using False by (simp add: int_to_str_def Let_def i_def b1_def n_def abs_if)
  have l: "length b1 = length buf" "i \<le> 1" by (simp_all add: b1_def i_def)
  have "?d < length (drop i b1)" using d l assms(1) by simp
  then have "fill_digits ?d n ((drop i b1)[?d := NUL]) = decimal (unat n) @ NUL # drop (Suc ?d) (drop i b1)"
    using fill_digits_pad [of ?d "(drop i b1)[?d := NUL]" n] by (simp only: pad_digits_decimal [OF pos] drop_update_here length_list_update less_imp_le)
  moreover have "drop i (b1[i + ?d := NUL]) = (drop i b1)[?d := NUL]" by (simp add: drop_update_swap)
  moreover have "take i (b1[i + ?d := NUL]) = (if num < 0 then ''-'' else [])" using assms(1) by (cases buf) (auto simp: i_def b1_def)
  moreover have "fill_str i ?d n (b1[i + ?d := NUL]) = take i (b1[i + ?d := NUL]) @ fill_digits ?d n (drop i (b1[i + ?d := NUL]))"
    using l assms(1) by (intro fill_str_digits) simp
  ultimately have "int_to_str num buf = signed_decimal num @ NUL # drop (Suc ?d) (drop i b1)"
    by (simp only: e signed_decimal_def un append_assoc)
  moreover have "NUL \<notin> set (signed_decimal num)" using decimal_no_NUL by (simp add: signed_decimal_def)
  ultimately show ?thesis using c_str_append_NUL by metis
qed

section \<open>Command lines\<close>

text \<open>The maximal runs of characters that do not separate.\<close>

function tokens :: "(char \<Rightarrow> bool) \<Rightarrow> string \<Rightarrow> string list" where
  "tokens sep [] = []"
| "tokens sep (c # s) =
     (if sep c then tokens sep s
      else (c # takeWhile (\<lambda>x. \<not> sep x) s) # tokens sep (dropWhile (\<lambda>x. \<not> sep x) s))"
  by pat_completeness auto
termination by (relation "measure (\<lambda>(_, s). length s)") (auto simp: less_Suc_eq_le length_dropWhile_le)

definition arg_at :: "nat \<Rightarrow> string \<Rightarrow> nat \<Rightarrow> string" where
  "arg_at i buf k = c_str (drop (k - i) buf)"

lemma arg_at_Cons:
  assumes "\<forall>k \<in> set ks. Suc i \<le> k"
  shows "map (arg_at i (c # r)) ks = map (arg_at (Suc i) r) ks"
proof (rule map_cong [OF refl])
  fix k assume "k \<in> set ks"
  then have "k - i = Suc (k - Suc i)" using assms by auto
  then show "arg_at i (c # r) k = arg_at (Suc i) r k" by (simp add: arg_at_def)
qed

lemma parse_loop_tokens:
  assumes "NUL \<notin> set s" "parse_loop i (s @ NUL # post) in_token argc = (r, ks)"
    and "argc + length (tokens is_blank (if in_token then dropWhile (\<lambda>x. \<not> is_blank x) s else s)) \<le> 14"
  shows "map (arg_at i r) ks = tokens is_blank (if in_token then dropWhile (\<lambda>x. \<not> is_blank x) s else s) \<and>
    (\<forall>k \<in> set ks. i \<le> k) \<and> (in_token \<longrightarrow> c_str r = takeWhile (\<lambda>x. \<not> is_blank x) s)"
  using assms
proof (induction s arbitrary: i in_token argc r ks)
  case Nil
  then show ?case by (auto simp: c_str_def)
next
  case (Cons c s)
  define t where "t \<longleftrightarrow> \<not> is_blank c"
  define n where "n = (if t \<and> \<not> in_token then argc + 1 else argc)"
  obtain r' ks' where p: "parse_loop (i + 1) (s @ NUL # post) t n = (r', ks')" by fastforce
  have c: "c \<noteq> NUL" "NUL \<notin> set s" using Cons.prems(1) by auto
  have argc: "argc < 15" using Cons.prems(3) by (simp split: if_splits)
  have bound: "n + length (tokens is_blank (if t then dropWhile (\<lambda>x. \<not> is_blank x) s else s)) \<le> 14"
    using Cons.prems(3) by (auto simp: n_def t_def split: if_splits)
  note IH = Cons.IH [OF c(2) p bound]
  have r: "r = (if in_token \<and> is_blank c then NUL else c) # r'" "ks = (if t \<and> \<not> in_token then i # ks' else ks')"
    using Cons.prems(2) p c(1) argc by (auto simp: t_def n_def split: if_splits)
  have m: "map (arg_at i (x # r')) ks' = map (arg_at (Suc i) r') ks'" "\<forall>k \<in> set ks'. i \<le> k" for x
    by (rule arg_at_Cons) (use IH in auto)
  show ?case
  proof (cases "is_blank c")
    case True
    then show ?thesis using IH m unfolding r by (auto simp: t_def c_str_def simp del: map_eq_conv)
  next
    case False
    have a: "arg_at i (c # r') i = c # c_str r'" using c(1) by (simp add: arg_at_def c_str_def)
    show ?thesis using False IH m a c(1) unfolding r by (auto simp: t_def c_str_def simp del: map_eq_conv)
  qed
qed

text \<open>
  A command line is split into its words.  For a line with at most 14 words, \<open>parse_command\<close>
  stores one argument per word; after it has overwritten the separators, the string at each
  argument is that word, in the order of the line.
\<close>

theorem parse_command_words:
  assumes "NUL \<notin> set line" "length (tokens is_blank line) \<le> 14" "parse_command (line @ NUL # post) = (cmd, argv)"
  shows "map (\<lambda>k. c_str (drop k cmd)) argv = tokens is_blank line"
  using parse_loop_tokens [OF assms(1), of 0 post False 0 cmd argv] assms(2,3) by (simp add: parse_command_def arg_at_def [abs_def])

theorem parse_command_words_witness:
  "map (\<lambda>k. c_str (drop k (fst (parse_command (''echo  a bc'' @ [NUL]))))) (snd (parse_command (''echo  a bc'' @ [NUL]))) =
     [''echo'', ''a'', ''bc'']"
  using parse_command_words [of "''echo  a bc''" "[]" "fst (parse_command (''echo  a bc'' @ [NUL]))" "snd (parse_command (''echo  a bc'' @ [NUL]))"]
  by (simp add: is_blank_def)

end
