(* ===== verification/Programs.thy ===== *)
theory Programs
  imports User_Lib
begin

text \<open>
  The filters \<open>src/programs/wc.c\<close> and \<open>src/programs/grep.c\<close>.  What successive reads from standard
  input deliver is an argument; the result is what the program writes.  \<open>int\<close> counters are
  mathematical integers, and the theorem about \<open>wc\<close> asks for an input that they can count.
\<close>

section \<open>Counting words\<close>

record wc_state =
  wc_lines :: int
  wc_words :: int
  wc_chars :: int
  in_word :: bool

definition wc_char :: "char \<Rightarrow> wc_state \<Rightarrow> wc_state" where
  "wc_char c st =
     (let st1 = st\<lparr>wc_chars := wc_chars st + 1\<rparr>;
          st2 = (if c = CHR 0x0A then st1\<lparr>wc_lines := wc_lines st1 + 1\<rparr> else st1)
      in if c = CHR '' '' \<or> c = CHR 0x09 \<or> c = CHR 0x0A
         then if in_word st2 then st2\<lparr>wc_words := wc_words st2 + 1, in_word := False\<rparr> else st2
         else st2\<lparr>in_word := True\<rparr>)"

text \<open>One element of \<open>reads\<close> per call of \<open>sys_read\<close>; an empty one is a result of at most 0.\<close>

fun wc_loop :: "string list \<Rightarrow> wc_state \<Rightarrow> wc_state" where
  "wc_loop [] st = st"
| "wc_loop (buffer # reads) st = (if buffer = [] then st else wc_loop reads (fold wc_char buffer st))"

text \<open>\<open>num_buf\<close> is the array of 32 characters, whatever it holds at first.\<close>

definition wc_main :: "string list \<Rightarrow> string \<Rightarrow> string" where
  "wc_main reads num_buf =
     (let st = wc_loop reads \<lparr>wc_lines = 0, wc_words = 0, wc_chars = 0, in_word = False\<rparr>;
          st1 = (if in_word st then st\<lparr>wc_words := wc_words st + 1\<rparr> else st);
          buf1 = int_to_str (wc_lines st1) num_buf;
          buf2 = int_to_str (wc_words st1) buf1;
          buf3 = int_to_str (wc_chars st1) buf2
      in ''  '' @ take (str_len buf1) buf1 @ ''  '' @ take (str_len buf2) buf2 @ ''  '' @ take (str_len buf3) buf3 @ [CHR 0x0A])"

section \<open>Searching lines\<close>

text \<open>The lines that end in \<open>if (str_str(line, pattern))\<close>.\<close>

definition grep_line :: "string \<Rightarrow> string \<Rightarrow> string" where
  "grep_line pattern line = (if str_str line pattern \<noteq> None then take (str_len line) line @ [CHR 0x0A] else [])"

fun grep_loop :: "string \<Rightarrow> string \<Rightarrow> string \<Rightarrow> string" where
  "grep_loop pattern line [] = (if 0 < length line then grep_line pattern line else [])"
| "grep_loop pattern line (c # input) =
     (if c = CHR 0x0A then grep_line pattern line @ grep_loop pattern [] input
      else if length line < 255 then grep_loop pattern (line @ [c]) input
      else grep_loop pattern line input)"

text \<open>Exit code, standard output and standard error.\<close>

definition grep_main :: "string list \<Rightarrow> string \<Rightarrow> int \<times> string \<times> string" where
  "grep_main argv input =
     (if length argv < 2 then (1, [], ''Usage: grep <pattern>\<newline>'') else (0, grep_loop (argv ! 1) [] input, []))"

section \<open>Counts\<close>

definition wc_blank :: "char \<Rightarrow> bool" where
  "wc_blank c \<longleftrightarrow> c = CHR '' '' \<or> c = CHR 0x09 \<or> c = CHR 0x0A"

lemma wc_fold:
  "wc_lines (fold wc_char s st) = wc_lines st + int (count_list s (CHR 0x0A)) \<and>
   wc_chars (fold wc_char s st) = wc_chars st + int (length s) \<and>
   wc_words (fold wc_char s st) + (if in_word (fold wc_char s st) then 1 else 0) =
     wc_words st + (if in_word st then 1 else 0) + int (length (tokens wc_blank (if in_word st then dropWhile (\<lambda>x. \<not> wc_blank x) s else s)))"
proof (induction s arbitrary: st)
  case (Cons c s)
  show ?case using Cons.IH [of "wc_char c st"] by (auto simp: wc_char_def wc_blank_def Let_def split: if_splits)
qed simp

lemma wc_loop_concat: "wc_loop reads st = fold wc_char (concat (takeWhile (\<lambda>b. b \<noteq> []) reads)) st"
  by (induction reads arbitrary: st) simp_all

lemma take_c_str [simp]: "take (length (c_str b)) b = c_str b"
  by (simp add: c_str_def flip: takeWhile_eq_take)

lemma length_int_to_str [simp]: "length (int_to_str n b) = length b"
proof -
  have "length (fill_str i j k c) = length c" for i j k c by (induction j arbitrary: k c) simp_all
  then show ?thesis by (simp add: int_to_str_def Let_def)
qed

lemma tokens_length: "length (tokens P s) \<le> length s"
proof (induction P s rule: tokens.induct)
  case (2 sep c s)
  then show ?case using length_dropWhile_le [of "\<lambda>x. \<not> sep x" s] by auto
qed simp

text \<open>
  C17: \<open>wc\<close> counts.  For an input of fewer than 2^31 characters, in whatever pieces the reads deliver
  it, the program prints the numbers of newlines, of words (maximal runs without space, tab or
  newline) and of characters in decimal.
\<close>

theorem wc_counts:
  assumes "input = concat (takeWhile (\<lambda>b. b \<noteq> []) reads)" "length input < 2 ^ 31" "length num_buf = 32"
  shows "wc_main reads num_buf = ''  '' @ decimal (count_list input (CHR 0x0A)) @ ''  '' @ decimal (length (tokens wc_blank input)) @
    ''  '' @ decimal (length input) @ [CHR 0x0A]"
proof -
  let ?st = "fold wc_char input \<lparr>wc_lines = 0, wc_words = 0, wc_chars = 0, in_word = False\<rparr>"
  have st: "wc_lines ?st = int (count_list input (CHR 0x0A))" "wc_chars ?st = int (length input)"
      "wc_words ?st + (if in_word ?st then 1 else 0) = int (length (tokens wc_blank input))"
    using wc_fold [of input "\<lparr>wc_lines = 0, wc_words = 0, wc_chars = 0, in_word = False\<rparr>"] by simp_all
  have n: "c_str (int_to_str (int k) b) = decimal k" "take (length (decimal k)) (int_to_str (int k) b) = decimal k"
    if "k \<le> length input" "length b = 32" for k b
    using int_to_str_decimal [of b "int k"] take_c_str [of "int_to_str (int k) b"] that assms(2)
    by (simp_all add: signed_decimal_def del: take_c_str)
  have b: "count_list input (CHR 0x0A) \<le> length input" "length (tokens wc_blank input) \<le> length input"
    by (simp_all add: count_le_length tokens_length)
  show ?thesis
    using st b n assms(3) by (auto simp: wc_main_def Let_def wc_loop_concat assms(1) [symmetric] split: if_splits)
qed

theorem wc_counts_witness:
  "wc_main [''ab c'', ''d\<newline>'', ''''] (replicate 32 (CHR ''x'')) = ''  1  2  6\<newline>''"
  using wc_counts [of "''ab cd\<newline>''" "[''ab c'', ''d\<newline>'', '''']" "replicate 32 (CHR ''x'')"]
  by (simp add: wc_blank_def decimal.simps char_of_def bit_0)

section \<open>Matching lines\<close>

abbreviation (input) not_nl :: "char \<Rightarrow> bool" where "not_nl c \<equiv> c \<noteq> CHR 0x0A"

text \<open>The lines of a text; a last line without newline counts when it is not empty.\<close>

function input_lines :: "string \<Rightarrow> string list" where
  "input_lines [] = []"
| "input_lines (c # s) = takeWhile not_nl (c # s) # input_lines (tl (dropWhile not_nl (c # s)))"
  by pat_completeness auto
termination
  by (relation "measure length") (auto simp: less_Suc_eq_le intro: order_trans [OF diff_le_self length_dropWhile_le])

lemma grep_loop_line:
  assumes "length line \<le> 255"
  shows "grep_loop pattern line input =
    (let l = take 255 (line @ takeWhile not_nl input)
     in if dropWhile not_nl input = [] then if l = [] then [] else grep_line pattern l
        else grep_line pattern l @ grep_loop pattern [] (tl (dropWhile not_nl input)))"
  using assms
proof (induction input arbitrary: line)
  case (Cons c input)
  consider "c = CHR 0x0A" | "c \<noteq> CHR 0x0A" "length line < 255" | "c \<noteq> CHR 0x0A" "length line = 255" using Cons.prems by linarith
  then show ?case
  proof cases
    case 2
    then show ?thesis using Cons.IH [of "line @ [c]"] by (auto simp: Let_def)
  next
    case 3
    then show ?thesis using Cons.IH [of line] by (auto simp: Let_def)
  qed (use Cons.prems in \<open>simp add: Let_def\<close>)
qed (simp add: Let_def)

lemma grep_loop_lines: "grep_loop pattern [] input = concat (map (\<lambda>l. grep_line pattern (take 255 l)) (input_lines input))"
proof (induction input rule: input_lines.induct)
  case (2 c s)
  show ?case
  proof (cases "dropWhile not_nl (c # s) = []")
    case True
    then have t: "takeWhile not_nl (c # s) = c # s" using takeWhile_dropWhile_id [of not_nl "c # s"] by (simp only: append_Nil2)
    have "input_lines (c # s) = [c # s]" by (simp only: input_lines.simps True t list.sel)
    moreover have "grep_loop pattern [] (c # s) = grep_line pattern (take 255 (c # s))"
      by (simp only: grep_loop_line [of "[]" pattern "c # s"] Let_def True t append_Nil list.size) simp
    ultimately show ?thesis by simp
  next
    case False
    then have "grep_loop pattern [] (c # s) =
        grep_line pattern (take 255 (takeWhile not_nl (c # s))) @ grep_loop pattern [] (tl (dropWhile not_nl (c # s)))"
      by (simp only: grep_loop_line [of "[]" pattern "c # s"] Let_def append_Nil list.size) simp
    then show ?thesis using 2 by (simp only: input_lines.simps list.map concat.simps)
  qed
qed simp



end
