(* ===== verification/Shell_V2.thy ===== *)
theory Shell_V2
  imports User_Lib
begin

text \<open>
  The shell \<open>src/programs/shell_v2.c\<close>: its job table, its command history and its line editor.  The
  arrays \<open>history\<close> and \<open>cmd_buffer\<close> are lists of 256 characters; \<open>stdout\<close> is what the shell has
  written to standard output.  The characters that standard input will deliver are an argument of
  \<open>read_line\<close>, which has no result when they end before a newline, since it then waits for more.
\<close>

section \<open>State\<close>

abbreviation (input) MAX_CMD_LEN :: nat where "MAX_CMD_LEN \<equiv> 256"
abbreviation (input) HISTORY_SIZE :: nat where "HISTORY_SIZE \<equiv> 10"
abbreviation (input) MAX_JOBS :: nat where "MAX_JOBS \<equiv> 16"
abbreviation (input) ESC :: char where "ESC \<equiv> CHR 0x1B"

datatype job_state = JOB_STATE_RUNNING | JOB_STATE_STOPPED | JOB_STATE_DONE

record job_t =
  job_id :: int
  job_pid :: int
  job_command :: string
  job_state :: job_state
  job_background :: bool

record shell =
  history :: "string list"
  history_count :: nat
  history_pos :: nat
  cmd_buffer :: string
  cmd_pos :: nat
  cmd_len :: nat
  jobs :: "job_t list"
  next_job_id :: int
  jobs_initialized :: bool
  stdout :: string

definition write_out :: "string \<Rightarrow> shell \<Rightarrow> shell" where
  "write_out t sh = sh\<lparr>stdout := stdout sh @ t\<rparr>"

text \<open>A number as the shell prints it, from an array of 16 characters.\<close>

definition number :: "int \<Rightarrow> string" where
  "number n = (let buf = int_to_str n (replicate 16 NUL) in take (str_len buf) buf)"

section \<open>Jobs\<close>

text \<open>\<open>strncpy(dest, src, n)\<close>: at most \<open>n - 1\<close> characters, the rest of the \<open>n\<close> filled with zeros.\<close>

definition sh_strncpy :: "string \<Rightarrow> string \<Rightarrow> nat \<Rightarrow> string" where
  "sh_strncpy dest src n = (let t = take (n - 1) (c_str src) in t @ replicate (n - length t) NUL @ drop n dest)"

definition jobs_init :: "shell \<Rightarrow> shell" where
  "jobs_init sh = sh\<lparr>jobs := map (\<lambda>j. j\<lparr>job_id := 0, job_pid := 0, job_state := JOB_STATE_DONE\<rparr>) (jobs sh), jobs_initialized := True\<rparr>"

definition jobs_add :: "int \<Rightarrow> string \<Rightarrow> bool \<Rightarrow> shell \<Rightarrow> int \<times> shell" where
  "jobs_add pd command background sh0 =
     (let sh = (if \<not> jobs_initialized sh0 then jobs_init sh0 else sh0)
      in case find (\<lambda>i. job_pid (jobs sh ! i) = 0) [0..<MAX_JOBS] of
        None \<Rightarrow> (- 1, sh)
      | Some i \<Rightarrow>
        let jid = next_job_id sh;
            j = (jobs sh ! i)\<lparr>job_id := jid, job_pid := pd,
              job_command := (sh_strncpy (job_command (jobs sh ! i)) command 255)[255 := NUL],
              job_state := JOB_STATE_RUNNING, job_background := background\<rparr>;
            sh1 = sh\<lparr>next_job_id := next_job_id sh + 1, jobs := (jobs sh)[i := j]\<rparr>
        in (jid, if background then write_out (''['' @ number jid @ ''] '' @ number pd @ [CHR 0x0A]) sh1 else sh1))"

definition job_state_str :: "job_state \<Rightarrow> string" where
  "job_state_str st = (case st of JOB_STATE_STOPPED \<Rightarrow> ''Stopped'' | JOB_STATE_DONE \<Rightarrow> ''Done'' | JOB_STATE_RUNNING \<Rightarrow> ''Running'')"

definition jobs_list :: "shell \<Rightarrow> shell" where
  "jobs_list sh =
     (if \<not> jobs_initialized sh then sh
      else fold (\<lambda>i sh. let j = jobs sh ! i
          in if 0 < job_pid j
             then write_out (''['' @ number (job_id j) @ '']     '' @ number (job_pid j) @ ''     '' @ job_state_str (job_state j) @ ''  '' @
               c_str (job_command j) @ [CHR 0x0A]) sh
             else sh)
        [0..<MAX_JOBS]
        (write_out ''------  -----   -------  --------\<newline>'' (write_out ''Job ID  PID     State    Command\<newline>'' sh)))"

definition jobs_get_by_id :: "int \<Rightarrow> shell \<Rightarrow> nat option" where
  "jobs_get_by_id jid sh =
     (if \<not> jobs_initialized sh then None else find (\<lambda>i. job_id (jobs sh ! i) = jid) [0..<MAX_JOBS])"

definition jobs_remove :: "int \<Rightarrow> shell \<Rightarrow> shell" where
  "jobs_remove pd sh =
     (if \<not> jobs_initialized sh then sh
      else case find (\<lambda>i. job_pid (jobs sh ! i) = pd) [0..<MAX_JOBS] of
        None \<Rightarrow> sh
      | Some i \<Rightarrow> sh\<lparr>jobs := (jobs sh)[i := (jobs sh ! i)\<lparr>job_pid := 0, job_state := JOB_STATE_DONE\<rparr>]\<rparr>)"

section \<open>History\<close>

definition str_cpy :: "string \<Rightarrow> string \<Rightarrow> string" where
  "str_cpy dst src = c_str src @ NUL # drop (Suc (length (c_str src))) dst"

definition add_to_history :: "string \<Rightarrow> shell \<Rightarrow> shell" where
  "add_to_history cmd sh =
     (if str_len cmd = 0 then sh
      else if 0 < history_count sh \<and> str_cmp (history sh ! ((history_count sh - 1) mod HISTORY_SIZE)) cmd = 0 then sh
      else let k = history_count sh mod HISTORY_SIZE
      in sh\<lparr>history := (history sh)[k := str_cpy (history sh ! k) cmd], history_count := history_count sh + 1,
        history_pos := history_count sh + 1\<rparr>)"

section \<open>Pipes and redirections\<close>

text \<open>
  \<open>ParsedCommand\<close>: pointers into the line are positions.  \<open>parse_pipes\<close> is the loop of
  \<open>parse_command_line\<close> from position \<open>i\<close>, given the rest of the line; it returns the rest as
  overwritten, and has no result when it runs past the end of the array.
\<close>

record ParsedCommand =
  pc_commands :: "nat list"
  input_file :: "nat option"
  output_file :: "nat option"
  append_output :: bool
  pc_background :: bool

function parse_pipes :: "nat \<Rightarrow> string \<Rightarrow> ParsedCommand \<Rightarrow> (string \<times> ParsedCommand) option" where
  "parse_pipes i [] p = None"
| "parse_pipes i (c # cs) p =
     (if c = NUL then Some (c # cs, p)
      else if c = CHR ''|'' then
        map_option (\<lambda>(r, p'). (NUL # r, p'))
          (parse_pipes (i + 1) cs (if length (pc_commands p) < MAX_ARGS - 1 then p\<lparr>pc_commands := pc_commands p @ [i + 1]\<rparr> else p))
      else if c = CHR ''>'' then
        (if first_char cs = CHR ''>''
         then Some (NUL # NUL # tl cs, p\<lparr>append_output := True, output_file := Some (i + 2 + length (takeWhile is_blank (tl cs)))\<rparr>)
         else Some (NUL # cs, p\<lparr>output_file := Some (i + 1 + length (takeWhile is_blank cs))\<rparr>))
      else if c = CHR ''<'' then
        (let k = length (takeWhile is_blank cs)
         in case drop k cs of
            [] \<Rightarrow> None
          | x # rest \<Rightarrow> map_option (\<lambda>(r, p'). (NUL # take k cs @ x # r, p')) (parse_pipes (i + k + 2) rest (p\<lparr>input_file := Some (i + 1 + k)\<rparr>)))
      else map_option (\<lambda>(r, p'). (c # r, p')) (parse_pipes (i + 1) cs p))"
  by pat_completeness auto
termination
proof (relation "measure (\<lambda>(_, s, _). length s)", goal_cases)
  case (3 i c cs p k x rest)
  then have "length (drop k cs) = Suc (length rest)" by simp
  then show ?case by simp
qed simp_all

definition parse_command_line :: "string \<Rightarrow> (string \<times> ParsedCommand) option" where
  "parse_command_line cmd =
     (let len = str_len cmd; bg = 0 < len \<and> cmd ! (len - 1) = CHR ''&'';
          cmd1 = (if bg then cmd[len - 1 := NUL] else cmd)
      in parse_pipes 0 cmd1 \<lparr>pc_commands = [0], input_file = None, output_file = None, append_output = False, pc_background = bg\<rparr>)"

section \<open>The line editor\<close>

definition cursor_back :: "nat \<Rightarrow> string" where
  "cursor_back back = [ESC, CHR ''[''] @ number (int back) @ ''D''"

definition redraw_line :: "string \<Rightarrow> shell \<Rightarrow> shell" where
  "redraw_line prompt sh =
     (let sh1 = write_out (take (cmd_len sh) (cmd_buffer sh)) (write_out prompt (write_out [ESC, CHR ''['', CHR ''K''] (write_out [CHR 0x0D] sh)))
      in if cmd_pos sh < cmd_len sh then write_out (cursor_back (cmd_len sh - cmd_pos sh)) sh1 else sh1)"

definition ed_backspace :: "string \<Rightarrow> shell \<Rightarrow> shell" where
  "ed_backspace prompt sh =
     (if 0 < cmd_pos sh
      then redraw_line prompt (sh\<lparr>cmd_buffer := fold (\<lambda>i b. b[i := b ! (i + 1)]) [cmd_pos sh - 1..<cmd_len sh - 1] (cmd_buffer sh),
        cmd_pos := cmd_pos sh - 1, cmd_len := cmd_len sh - 1\<rparr>)
      else sh)"

text \<open>The buffer filled with an entry of the history.\<close>

definition recall :: "nat \<Rightarrow> shell \<Rightarrow> shell" where
  "recall k sh =
     (let b = str_cpy (cmd_buffer sh) (history sh ! (k mod HISTORY_SIZE))
      in sh\<lparr>history_pos := k, cmd_buffer := b, cmd_len := str_len b, cmd_pos := str_len b\<rparr>)"

definition ed_up :: "string \<Rightarrow> shell \<Rightarrow> shell" where
  "ed_up prompt sh =
     (if 0 < history_count sh \<and> 0 < history_pos sh
      then let p = history_pos sh - 1
        in if p < history_count sh then redraw_line prompt (recall p sh) else sh\<lparr>history_pos := p\<rparr>
      else sh)"

definition ed_down :: "string \<Rightarrow> shell \<Rightarrow> shell" where
  "ed_down prompt sh =
     (if int (history_pos sh) < int (history_count sh) - 1 then redraw_line prompt (recall (history_pos sh + 1) sh)
      else if history_pos sh < history_count sh
      then redraw_line prompt (sh\<lparr>history_pos := history_count sh, cmd_buffer := (cmd_buffer sh)[0 := NUL], cmd_len := 0, cmd_pos := 0\<rparr>)
      else sh)"

definition ed_right :: "shell \<Rightarrow> shell" where
  "ed_right sh = (if cmd_pos sh < cmd_len sh then write_out [ESC, CHR ''['', CHR ''C''] (sh\<lparr>cmd_pos := cmd_pos sh + 1\<rparr>) else sh)"

definition ed_left :: "shell \<Rightarrow> shell" where
  "ed_left sh = (if 0 < cmd_pos sh then write_out [ESC, CHR ''['', CHR ''D''] (sh\<lparr>cmd_pos := cmd_pos sh - 1\<rparr>) else sh)"

definition ed_arrow :: "string \<Rightarrow> char \<Rightarrow> shell \<Rightarrow> shell" where
  "ed_arrow prompt c sh =
     (if c = CHR ''A'' then ed_up prompt sh else if c = CHR ''B'' then ed_down prompt sh
      else if c = CHR ''C'' then ed_right sh else if c = CHR ''D'' then ed_left sh else sh)"

definition commands :: "string list" where
  "commands = [''help'', ''ps'', ''echo'', ''fork'', ''stress'', ''ls'', ''cat'', ''kill'', ''wc'', ''grep'', ''clear'', ''exit'', ''history'', ''jobs'', ''fg'']"

text \<open>The loop that goes back from the cursor to the start of the word.\<close>

fun find_word_start :: "nat \<Rightarrow> string \<Rightarrow> nat" where
  "find_word_start 0 b = 0"
| "find_word_start (Suc i) b = (if b ! i \<noteq> CHR '' '' then find_word_start i b else Suc i)"

text \<open>\<open>commands[i]\<close> starts with the first \<open>partial_len\<close> characters of \<open>partial\<close>.\<close>

definition starts_with :: "string \<Rightarrow> string \<Rightarrow> bool" where
  "starts_with command part = list_all (\<lambda>j. (command @ [NUL]) ! j = part ! j) [0..<length part]"

definition ed_tab :: "string \<Rightarrow> shell \<Rightarrow> shell" where
  "ed_tab prompt sh =
     (let ws = find_word_start (cmd_pos sh) (cmd_buffer sh);
          part = map (\<lambda>i. cmd_buffer sh ! (ws + i)) [0..<cmd_pos sh - ws];
          matches = filter (\<lambda>c. starts_with c part) commands
      in if length matches = 1 then
        let m = last matches; to_add = length m - length part
        in if cmd_len sh + to_add < MAX_CMD_LEN - 1 then
            let b1 = fold (\<lambda>i b. b[i + to_add := b ! i]) (rev [cmd_pos sh..<cmd_len sh + 1]) (cmd_buffer sh);
                b2 = fold (\<lambda>i b. b[cmd_pos sh + i := m ! (length part + i)]) [0..<to_add] b1
            in redraw_line prompt (sh\<lparr>cmd_buffer := b2, cmd_pos := cmd_pos sh + to_add, cmd_len := cmd_len sh + to_add\<rparr>)
          else sh
      else if 1 < length matches
        then redraw_line prompt (write_out [CHR 0x0A] (fold (\<lambda>c sh. write_out ''  '' (write_out c sh)) matches (write_out [CHR 0x0A] sh)))
      else sh)"

definition ed_insert :: "char \<Rightarrow> shell \<Rightarrow> shell" where
  "ed_insert c sh =
     (let b1 = fold (\<lambda>i b. b[i := b ! (i - 1)]) (rev [cmd_pos sh + 1..<cmd_len sh + 1]) (cmd_buffer sh);
          p = cmd_pos sh + 1; n = cmd_len sh + 1;
          b2 = b1[cmd_pos sh := c, n := NUL];
          sh1 = write_out (take (n - p + 1) (drop (p - 1) b2)) (sh\<lparr>cmd_buffer := b2, cmd_pos := p, cmd_len := n\<rparr>)
      in if p < n then write_out (cursor_back (n - p)) sh1 else sh1)"

definition printable :: "char \<Rightarrow> bool" where
  "printable c \<longleftrightarrow> 32 \<le> (of_char c :: nat) \<and> (of_char c :: nat) < 127"

fun read_keys :: "string \<Rightarrow> string \<Rightarrow> shell \<Rightarrow> (nat \<times> string \<times> shell) option" where
  "read_keys prompt [] sh = None"
| "read_keys prompt (c # input) sh =
     (if c = CHR 0x0A then Some (cmd_len sh, input, (write_out [CHR 0x0A] sh)\<lparr>cmd_buffer := (cmd_buffer sh)[cmd_len sh := NUL]\<rparr>)
      else if c = CHR 0x08 then read_keys prompt input (ed_backspace prompt sh)
      else if c = ESC then
        (case input of a # b # rest \<Rightarrow> read_keys prompt rest (if a = CHR ''['' then ed_arrow prompt b sh else sh) | _ \<Rightarrow> None)
      else if c = CHR 0x09 then read_keys prompt input (ed_tab prompt sh)
      else if printable c \<and> cmd_len sh < MAX_CMD_LEN - 1 then read_keys prompt input (ed_insert c sh)
      else read_keys prompt input sh)"

definition read_line :: "string \<Rightarrow> string \<Rightarrow> shell \<Rightarrow> (nat \<times> string \<times> shell) option" where
  "read_line prompt input sh =
     read_keys prompt input (write_out prompt (sh\<lparr>cmd_len := 0, cmd_pos := 0, cmd_buffer := (cmd_buffer sh)[0 := NUL]\<rparr>))"

end
