(* ===== verification/Line_Editor.thy ===== *)
theory Line_Editor
  imports Shell_V2
begin

text \<open>
  What the line editor and the job table of the shell \<open>src/programs/shell_v2.c\<close> guarantee.  The
  editor with its 256-character array, its cursor and its shifting loops behaves like an editor
  on two lists: the text before the cursor and the text behind it.
\<close>

section \<open>The shifting loops\<close>

lemma shift_left_nth:
  assumes "n < length b" "j < length b"
  shows "fold (\<lambda>i b. b[i := b ! (i + 1)]) [p..<n] b ! j = (if p \<le> j \<and> j < n then b ! (j + 1) else b ! j)"
    "length (fold (\<lambda>i b. b[i := b ! (i + 1)]) [p..<n] b) = length b"
proof -
  have len: "length (fold (\<lambda>i b. b[i := b ! (i + 1)]) xs b) = length b" for xs and b :: "'a list"
    by (induction xs arbitrary: b) simp_all
  then show "length (fold (\<lambda>i b. b[i := b ! (i + 1)]) [p..<n] b) = length b" .
  show "fold (\<lambda>i b. b[i := b ! (i + 1)]) [p..<n] b ! j = (if p \<le> j \<and> j < n then b ! (j + 1) else b ! j)"
    using assms
  proof (induction n arbitrary: j)
    case (Suc n)
    show ?case
    proof (cases "p \<le> n")
      case True
      then show ?thesis using Suc.IH [of j] Suc.IH [of "n + 1"] Suc.prems len by (auto simp: nth_list_update)
    qed (use Suc.prems in auto)
  qed simp
qed

lemma shift_right_nth:
  assumes "n + a < length b" "j < length b"
  shows "fold (\<lambda>i b. b[i + a := b ! i]) (rev [p..<n + 1]) b ! j = (if p + a \<le> j \<and> j \<le> n + a then b ! (j - a) else b ! j)"
    "length (fold (\<lambda>i b. b[i + a := b ! i]) (rev [p..<n + 1]) b) = length b"
proof -
  have len: "length (fold (\<lambda>i b. b[i + a := b ! i]) xs b) = length b" for xs and b :: "'a list"
    by (induction xs arbitrary: b) simp_all
  then show "length (fold (\<lambda>i b. b[i + a := b ! i]) (rev [p..<n + 1]) b) = length b" .
  show "fold (\<lambda>i b. b[i + a := b ! i]) (rev [p..<n + 1]) b ! j = (if p + a \<le> j \<and> j \<le> n + a then b ! (j - a) else b ! j)"
    using assms
  proof (induction n arbitrary: b)
    case 0
    then show ?case by (cases "p = 0") (auto simp: nth_list_update)
  next
    case (Suc n)
    show ?case
    proof (cases "p \<le> Suc n")
      case True
      then show ?thesis using Suc.IH [of "b[Suc n + a := b ! Suc n]"] Suc.prems by (auto simp: nth_list_update)
    qed (use Suc.prems in auto)
  qed
qed

lemma insert_loop: "fold (\<lambda>i b. b[i := b ! (i - 1)]) (rev [p + 1..<n + 1]) b = fold (\<lambda>i b. b[i + 1 := b ! i]) (rev [p..<n]) b"
proof -
  have "[p + 1..<n + 1] = map Suc [p..<n]" by (simp add: map_Suc_upt)
  then show ?thesis by (simp add: rev_map fold_map comp_def)
qed

lemma fill_loop_nth:
  assumes "p + a \<le> length b" "j < length b"
  shows "fold (\<lambda>i b. b[p + i := f i]) [0..<a] b ! j = (if p \<le> j \<and> j < p + a then f (j - p) else b ! j)"
    "length (fold (\<lambda>i b. b[p + i := f i]) [0..<a] b) = length b"
proof -
  have len: "length (fold (\<lambda>i b. b[p + i := f i]) xs b) = length b" for xs and b :: "'a list"
    by (induction xs arbitrary: b) simp_all
  then show "length (fold (\<lambda>i b. b[p + i := f i]) [0..<a] b) = length b" .
  show "fold (\<lambda>i b. b[p + i := f i]) [0..<a] b ! j = (if p \<le> j \<and> j < p + a then f (j - p) else b ! j)"
    using assms
  proof (induction a)
    case (Suc a)
    then show ?case using len by (auto simp: nth_list_update less_Suc_eq)
  qed auto
qed

section \<open>The editor on two lists\<close>

datatype key = Key_char char | Key_backspace | Key_up | Key_down | Key_left | Key_right | Key_tab

fun keystrokes :: "key \<Rightarrow> string" where
  "keystrokes (Key_char c) = [c]"
| "keystrokes Key_backspace = [CHR 0x08]"
| "keystrokes Key_up = [ESC, CHR ''['', CHR ''A'']"
| "keystrokes Key_down = [ESC, CHR ''['', CHR ''B'']"
| "keystrokes Key_right = [ESC, CHR ''['', CHR ''C'']"
| "keystrokes Key_left = [ESC, CHR ''['', CHR ''D'']"
| "keystrokes Key_tab = [CHR 0x09]"

definition last_word :: "string \<Rightarrow> string" where
  "last_word l = rev (takeWhile (\<lambda>c. c \<noteq> CHR '' '') (rev l))"

text \<open>
  Text before the cursor, text behind it, and position in the history, whose \<open>n\<close> entries are
  \<open>hist 0\<close>, \<dots>, \<open>hist (n - 1)\<close>.
\<close>

fun edit :: "(nat \<Rightarrow> string) \<Rightarrow> nat \<Rightarrow> key \<Rightarrow> string \<times> string \<times> nat \<Rightarrow> string \<times> string \<times> nat" where
  "edit hist n (Key_char c) (l, r, p) = (if length l + length r < 255 then (l @ [c], r, p) else (l, r, p))"
| "edit hist n Key_backspace (l, r, p) = (butlast l, r, p)"
| "edit hist n Key_left (l, r, p) = (if l = [] then (l, r, p) else (butlast l, last l # r, p))"
| "edit hist n Key_right (l, r, p) = (if r = [] then (l, r, p) else (l @ [hd r], tl r, p))"
| "edit hist n Key_up (l, r, p) = (if 0 < p then (hist (p - 1), [], p - 1) else (l, r, p))"
| "edit hist n Key_down (l, r, p) = (if p + 1 < n then (hist (p + 1), [], p + 1) else if p < n then ([], [], n) else (l, r, p))"
| "edit hist n Key_tab (l, r, p) =
     (case filter (prefix (last_word l)) commands of
        [m] \<Rightarrow> if length l + length r + (length m - length (last_word l)) < 255 then (l @ drop (length (last_word l)) m, r, p) else (l, r, p)
      | _ \<Rightarrow> (l, r, p))"

section \<open>Refinement\<close>

definition ed_inv :: "shell \<Rightarrow> bool" where
  "ed_inv sh \<longleftrightarrow> length (cmd_buffer sh) = 256 \<and> cmd_pos sh \<le> cmd_len sh \<and> cmd_len sh \<le> 255 \<and>
     NUL \<notin> set (take (cmd_len sh) (cmd_buffer sh)) \<and> history_pos sh \<le> history_count sh \<and>
     length (history sh) = 10 \<and> (\<forall>h \<in> set (history sh). length h = 256 \<and> NUL \<in> set h)"

definition line_of :: "shell \<Rightarrow> string \<times> string \<times> nat" where
  "line_of sh = (take (cmd_pos sh) (cmd_buffer sh), drop (cmd_pos sh) (take (cmd_len sh) (cmd_buffer sh)), history_pos sh)"

definition hist_of :: "shell \<Rightarrow> nat \<Rightarrow> string" where
  "hist_of sh k = c_str (history sh ! (k mod 10))"

definition same_history :: "shell \<Rightarrow> shell \<Rightarrow> bool" where
  "same_history sh sh' \<longleftrightarrow> history sh' = history sh \<and> history_count sh' = history_count sh"

text \<open>Writing to the screen changes nothing of this.\<close>

lemma write_out_fields [simp]:
  "cmd_buffer (write_out t sh) = cmd_buffer sh" "cmd_pos (write_out t sh) = cmd_pos sh" "cmd_len (write_out t sh) = cmd_len sh"
  "history (write_out t sh) = history sh" "history_count (write_out t sh) = history_count sh" "history_pos (write_out t sh) = history_pos sh"
  by (simp_all add: write_out_def)

lemma redraw_fields [simp]:
  "cmd_buffer (redraw_line t sh) = cmd_buffer sh" "cmd_pos (redraw_line t sh) = cmd_pos sh" "cmd_len (redraw_line t sh) = cmd_len sh"
  "history (redraw_line t sh) = history sh" "history_count (redraw_line t sh) = history_count sh" "history_pos (redraw_line t sh) = history_pos sh"
  by (simp_all add: redraw_line_def Let_def)

lemma screen_only [simp]:
  "ed_inv (write_out t sh) = ed_inv sh" "line_of (write_out t sh) = line_of sh" "same_history sh0 (write_out t sh) = same_history sh0 sh"
  "ed_inv (redraw_line t sh) = ed_inv sh" "line_of (redraw_line t sh) = line_of sh" "same_history sh0 (redraw_line t sh) = same_history sh0 sh"
  by (simp_all add: ed_inv_def line_of_def same_history_def)

text \<open>An operation implements an edit.\<close>

definition implements :: "(shell \<Rightarrow> shell) \<Rightarrow> key \<Rightarrow> bool" where
  "implements f k \<longleftrightarrow> (\<forall>sh. ed_inv sh \<longrightarrow> ed_inv (f sh) \<and> same_history sh (f sh) \<and>
     line_of (f sh) = edit (hist_of sh) (history_count sh) k (line_of sh))"

text \<open>A new buffer and cursor, given the two lists they stand for.\<close>

lemma new_text:
  assumes "ed_inv sh" "length b = 256" "p \<le> n" "n \<le> 255" "take n b = l @ r" "length l = p" "NUL \<notin> set (l @ r)" "q \<le> history_count sh"
  shows "ed_inv (sh\<lparr>cmd_buffer := b, cmd_pos := p, cmd_len := n, history_pos := q\<rparr>)"
    "line_of (sh\<lparr>cmd_buffer := b, cmd_pos := p, cmd_len := n, history_pos := q\<rparr>) = (l, r, q)"
proof -
  have "take p b = take p (take n b)" using assms(3) by (simp add: min_absorb1)
  then show "line_of (sh\<lparr>cmd_buffer := b, cmd_pos := p, cmd_len := n, history_pos := q\<rparr>) = (l, r, q)"
    using assms(5,6) by (simp add: line_of_def)
  show "ed_inv (sh\<lparr>cmd_buffer := b, cmd_pos := p, cmd_len := n, history_pos := q\<rparr>)" using assms by (simp add: ed_inv_def)
qed

lemma line_of_eq:
  assumes "ed_inv sh" "line_of sh = (l, r, p)"
  shows "take (cmd_len sh) (cmd_buffer sh) = l @ r" "length l = cmd_pos sh" "length r = cmd_len sh - cmd_pos sh" "history_pos sh = p"
proof -
  have l: "l = take (cmd_pos sh) (take (cmd_len sh) (cmd_buffer sh))" "r = drop (cmd_pos sh) (take (cmd_len sh) (cmd_buffer sh))"
    using assms by (simp_all add: line_of_def ed_inv_def min_absorb1)
  then show "take (cmd_len sh) (cmd_buffer sh) = l @ r" by (simp only: append_take_drop_id)
  show "length l = cmd_pos sh" "length r = cmd_len sh - cmd_pos sh" "history_pos sh = p" using assms by (auto simp: line_of_def ed_inv_def)
qed

lemma implements_insert: "printable c \<Longrightarrow> implements (\<lambda>sh. if cmd_len sh < 255 then ed_insert c sh else sh) (Key_char c)"
  unfolding implements_def
proof (intro allI impI)
  fix sh assume c: "printable c" and inv: "ed_inv sh"
  obtain l r p where lr: "line_of sh = (l, r, p)" by (cases "line_of sh")
  note L = line_of_eq [OF inv lr]
  let ?b = "cmd_buffer sh" and ?p = "cmd_pos sh" and ?n = "cmd_len sh" and ?f = "\<lambda>sh. if cmd_len sh < 255 then ed_insert c sh else sh"
  have b: "length ?b = 256" "?p \<le> ?n" "?n \<le> 255" using inv by (simp_all add: ed_inv_def)
  show "ed_inv (?f sh) \<and> same_history sh (?f sh) \<and> line_of (?f sh) = edit (hist_of sh) (history_count sh) (Key_char c) (line_of sh)"
  proof (cases "?n < 255")
    case True
    define b1 where "b1 = fold (\<lambda>i b. b[i := b ! (i - 1)]) (rev [?p + 1..<?n + 1]) ?b"
    define b2 where "b2 = b1[?p := c, ?n + 1 := NUL]"
    have b1: "b1 ! j = (if ?p < j \<and> j \<le> ?n then ?b ! (j - 1) else ?b ! j)" "length b1 = 256" if "j < 256" for j
      unfolding b1_def insert_loop
      using shift_right_nth [of "?n - 1" 1 ?b j ?p] that b by (cases "?p < ?n"; cases ?n; force)+
    have t: "take (?n + 1) b2 = (l @ [c]) @ r"
    proof (rule nth_equalityI)
      show "length (take (?n + 1) b2) = length ((l @ [c]) @ r)" using b b1(2) [of 0] L(2,3) by (simp add: b2_def)
      fix j assume "j < length (take (?n + 1) b2)"
      then have j: "j \<le> ?n" by simp
      have n: "?b ! k = (l @ r) ! k" if "k < ?n" for k using L(1) that by (metis nth_take)
      show "take (?n + 1) b2 ! j = ((l @ [c]) @ r) ! j"
        using j b b1 [of j] L(2,3) n [of "j - 1"] n [of j] by (auto simp: b2_def nth_list_update nth_append)
    qed
    define st where "st = sh\<lparr>cmd_buffer := b2, cmd_pos := ?p + 1, cmd_len := ?n + 1, history_pos := history_pos sh\<rparr>"
    have "NUL \<notin> set ((l @ [c]) @ r)" using inv L(1) c by (auto simp: ed_inv_def printable_def)
    moreover have "length b2 = 256" "?p + 1 \<le> ?n + 1" "?n + 1 \<le> 255" "length (l @ [c]) = ?p + 1" "history_pos sh \<le> history_count sh"
      using b b1(2) [of 0] True L(2) inv by (simp_all add: b2_def ed_inv_def)
    ultimately have N: "ed_inv st" "line_of st = (l @ [c], r, history_pos sh)"
      unfolding st_def using new_text [OF inv _ _ _ t] by blast+
    have e: "ed_insert c sh = (if ?p + 1 < ?n + 1 then write_out (cursor_back (?n + 1 - (?p + 1))) else id)
        (write_out (take (?n + 1 - (?p + 1) + 1) (drop ?p b2)) st)"
      by (simp add: ed_insert_def Let_def b1_def [simplified] b2_def st_def)
    have "same_history sh st" by (simp add: st_def same_history_def)
    then show ?thesis using N True L(2-4) b by (simp add: e lr)
  next
    case False
    then show ?thesis using inv L lr b by (simp add: same_history_def)
  qed
qed

lemma implements_backspace: "implements (ed_backspace prompt) Key_backspace"
  unfolding implements_def
proof (intro allI impI)
  fix sh assume inv: "ed_inv sh"
  obtain l r p where lr: "line_of sh = (l, r, p)" by (cases "line_of sh")
  note L = line_of_eq [OF inv lr]
  let ?b = "cmd_buffer sh" and ?p = "cmd_pos sh" and ?n = "cmd_len sh"
  have b: "length ?b = 256" "?p \<le> ?n" "?n \<le> 255" using inv by (simp_all add: ed_inv_def)
  show "ed_inv (ed_backspace prompt sh) \<and> same_history sh (ed_backspace prompt sh) \<and>
    line_of (ed_backspace prompt sh) = edit (hist_of sh) (history_count sh) Key_backspace (line_of sh)"
  proof (cases "0 < ?p")
    case True
    define b1 where "b1 = fold (\<lambda>i b. b[i := b ! (i + 1)]) [?p - 1..<?n - 1] ?b"
    have b1: "b1 ! j = (if ?p - 1 \<le> j \<and> j < ?n - 1 then ?b ! (j + 1) else ?b ! j)" "length b1 = 256" if "j < 256" for j
      unfolding b1_def using shift_left_nth [of "?n - 1" ?b j "?p - 1"] that b by simp_all
    have t: "take (?n - 1) b1 = butlast l @ r"
    proof (rule nth_equalityI)
      show "length (take (?n - 1) b1) = length (butlast l @ r)" using b b1(2) [of 0] L(2,3) True by simp
      fix j assume "j < length (take (?n - 1) b1)"
      then have j: "j < ?n - 1" by simp
      have n: "?b ! k = (l @ r) ! k" if "k < ?n" for k using L(1) that by (metis nth_take)
      show "take (?n - 1) b1 ! j = (butlast l @ r) ! j"
        using j b b1(1) [of j] L(2,3) n [of "j + 1"] n [of j] True by (auto simp: nth_append nth_butlast Suc_diff_le)
    qed
    define st where "st = sh\<lparr>cmd_buffer := b1, cmd_pos := ?p - 1, cmd_len := ?n - 1, history_pos := history_pos sh\<rparr>"
    have "set (butlast l) \<subseteq> set l" by (auto dest: in_set_butlastD)
    then have "NUL \<notin> set (butlast l @ r)" using inv L(1) by (auto simp: ed_inv_def)
    moreover have "length b1 = 256" "?p - 1 \<le> ?n - 1" "?n - 1 \<le> 255" "length (butlast l) = ?p - 1" "history_pos sh \<le> history_count sh"
      using b b1(2) [of 0] L(2) inv by (simp_all add: ed_inv_def)
    ultimately have N: "ed_inv st" "line_of st = (butlast l, r, history_pos sh)"
      unfolding st_def using new_text [OF inv _ _ _ t] by blast+
    have "same_history sh st" by (simp add: st_def same_history_def)
    moreover have "ed_backspace prompt sh = redraw_line prompt st" using True by (simp add: ed_backspace_def b1_def st_def)
    ultimately show ?thesis using N L(4) by (simp add: lr)
  next
    case False
    then show ?thesis using inv L lr by (simp add: same_history_def ed_backspace_def)
  qed
qed

lemma implements_cursor: "implements ed_left Key_left" "implements ed_right Key_right"
proof -
  show "implements ed_left Key_left" unfolding implements_def
  proof (intro allI impI)
    fix sh assume inv: "ed_inv sh"
    obtain l r p where lr: "line_of sh = (l, r, p)" by (cases "line_of sh")
    note L = line_of_eq [OF inv lr]
    show "ed_inv (ed_left sh) \<and> same_history sh (ed_left sh) \<and> line_of (ed_left sh) = edit (hist_of sh) (history_count sh) Key_left (line_of sh)"
    proof (cases l rule: rev_cases)
      case Nil
      then show ?thesis using L(2) inv by (simp add: ed_left_def lr same_history_def)
    next
      case (snoc l' x)
      define st where "st = sh\<lparr>cmd_buffer := cmd_buffer sh, cmd_pos := cmd_pos sh - 1, cmd_len := cmd_len sh, history_pos := history_pos sh\<rparr>"
      have t: "take (cmd_len sh) (cmd_buffer sh) = l' @ (x # r)" using L(1) snoc by simp
      have "length l' = cmd_pos sh - 1" "NUL \<notin> set (l' @ (x # r))" using L(2) snoc inv t by (simp_all add: ed_inv_def del: set_append)
      then have N: "ed_inv st" "line_of st = (l', x # r, history_pos sh)"
        unfolding st_def using new_text [OF inv _ _ _ t] inv unfolding ed_inv_def by (meson diff_le_self le_trans)+
      have "same_history sh st" by (simp add: st_def same_history_def)
      moreover have "ed_left sh = write_out [ESC, CHR ''['', CHR ''D''] st" using L(2) snoc by (simp add: ed_left_def st_def)
      ultimately show ?thesis using N L(4) snoc by (simp add: lr)
    qed
  qed
  show "implements ed_right Key_right" unfolding implements_def
  proof (intro allI impI)
    fix sh assume inv: "ed_inv sh"
    obtain l r p where lr: "line_of sh = (l, r, p)" by (cases "line_of sh")
    note L = line_of_eq [OF inv lr]
    show "ed_inv (ed_right sh) \<and> same_history sh (ed_right sh) \<and> line_of (ed_right sh) = edit (hist_of sh) (history_count sh) Key_right (line_of sh)"
    proof (cases r)
      case Nil
      then show ?thesis using L(3) inv by (simp add: ed_right_def lr same_history_def)
    next
      case (Cons x r')
      define st where "st = sh\<lparr>cmd_buffer := cmd_buffer sh, cmd_pos := cmd_pos sh + 1, cmd_len := cmd_len sh, history_pos := history_pos sh\<rparr>"
      have t: "take (cmd_len sh) (cmd_buffer sh) = (l @ [x]) @ r'" using L(1) Cons by simp
      have pn: "cmd_pos sh + 1 \<le> cmd_len sh" using L(3) Cons by simp
      have "length (l @ [x]) = cmd_pos sh + 1" "NUL \<notin> set ((l @ [x]) @ r')" using L(2) inv t by (simp_all add: ed_inv_def del: set_append)
      then have N: "ed_inv st" "line_of st = (l @ [x], r', history_pos sh)"
        unfolding st_def using new_text [OF inv _ pn _ t] inv unfolding ed_inv_def by meson+
      have "same_history sh st" by (simp add: st_def same_history_def)
      moreover have "ed_right sh = write_out [ESC, CHR ''['', CHR ''C''] st" using pn by (simp add: ed_right_def st_def)
      ultimately show ?thesis using N L(4) Cons by (simp add: lr)
    qed
  qed
qed

lemma recall_text:
  assumes inv: "ed_inv sh" and k: "k < history_count sh"
  shows "ed_inv (recall k sh)" "line_of (recall k sh) = (hist_of sh k, [], k)" "same_history sh (recall k sh)"
proof -
  let ?h = "history sh ! (k mod 10)" and ?b = "str_cpy (cmd_buffer sh) (history sh ! (k mod 10))"
  have h: "length ?h = 256" "NUL \<in> set ?h" using inv by (simp_all add: ed_inv_def)
  have nul: "NUL \<notin> set (c_str ?h)" unfolding c_str_def by (auto dest: set_takeWhileD)
  have "c_str ?h \<noteq> ?h" using h(2) nul by metis
  moreover have "length (c_str ?h) \<le> length ?h" unfolding c_str_def by (rule length_takeWhile_le)
  moreover have "length (c_str ?h) = length ?h \<Longrightarrow> c_str ?h = ?h" unfolding c_str_def by (metis take_all order_refl takeWhile_eq_take)
  ultimately have len: "length (c_str ?h) \<le> 255" using h(1) by linarith
  have b: "length ?b = 256" "c_str ?b = c_str ?h" "take (length (c_str ?h)) ?b = c_str ?h @ []"
    using len inv nul c_str_append_NUL by (simp_all add: str_cpy_def ed_inv_def)
  have "recall k sh = sh\<lparr>cmd_buffer := ?b, cmd_pos := length (c_str ?h), cmd_len := length (c_str ?h), history_pos := k\<rparr>"
    by (simp add: recall_def Let_def b(2))
  then show "ed_inv (recall k sh)" "line_of (recall k sh) = (hist_of sh k, [], k)" "same_history sh (recall k sh)"
    using new_text [OF inv b(1) order_refl len b(3) refl, of k] k nul by (simp_all add: hist_of_def same_history_def)
qed

lemma implements_history: "implements (ed_up prompt) Key_up" "implements (ed_down prompt) Key_down"
proof -
  show "implements (ed_up prompt) Key_up" unfolding implements_def
  proof (intro allI impI)
    fix sh assume inv: "ed_inv sh"
    obtain l r p where lr: "line_of sh = (l, r, p)" by (cases "line_of sh")
    have p: "history_pos sh = p" "p \<le> history_count sh" using inv lr by (auto simp: ed_inv_def line_of_def)
    show "ed_inv (ed_up prompt sh) \<and> same_history sh (ed_up prompt sh) \<and>
        line_of (ed_up prompt sh) = edit (hist_of sh) (history_count sh) Key_up (line_of sh)"
      using recall_text [OF inv, of "p - 1"] p inv by (cases p) (simp_all add: ed_up_def Let_def lr same_history_def)
  qed
  show "implements (ed_down prompt) Key_down" unfolding implements_def
  proof (intro allI impI)
    fix sh assume inv: "ed_inv sh"
    obtain l r p where lr: "line_of sh = (l, r, p)" by (cases "line_of sh")
    have p: "history_pos sh = p" "p \<le> history_count sh" using inv lr by (auto simp: ed_inv_def line_of_def)
    let ?st = "sh\<lparr>cmd_buffer := (cmd_buffer sh)[0 := NUL], cmd_pos := 0, cmd_len := 0, history_pos := history_count sh\<rparr>"
    have st: "ed_inv ?st" "line_of ?st = ([], [], history_count sh)"
      using new_text [OF inv, of "(cmd_buffer sh)[0 := NUL]" 0 0 "[]" "[]" "history_count sh"] inv by (simp_all add: ed_inv_def)
    have eq: "sh\<lparr>history_pos := history_count sh, cmd_buffer := (cmd_buffer sh)[0 := NUL], cmd_len := 0, cmd_pos := 0\<rparr> = ?st"
      by (cases sh) simp
    have down: "ed_down prompt sh = (if p + 1 < history_count sh then redraw_line prompt (recall (p + 1) sh)
        else if p < history_count sh then redraw_line prompt ?st else sh)" unfolding ed_down_def p(1) eq by (simp add: less_diff_conv)
    show "ed_inv (ed_down prompt sh) \<and> same_history sh (ed_down prompt sh) \<and>
        line_of (ed_down prompt sh) = edit (hist_of sh) (history_count sh) Key_down (line_of sh)"
      using recall_text [OF inv, of "p + 1"] st inv unfolding down by (simp add: lr same_history_def)
  qed
qed

text \<open>Completion.\<close>

lemma find_word_start_last_word:
  assumes "p \<le> length b"
  shows "find_word_start p b = p - length (last_word (take p b))" "length (last_word (take p b)) \<le> p"
proof -
  have "find_word_start p b = p - length (last_word (take p b)) \<and> length (last_word (take p b)) \<le> p"
    using assms
  proof (induction p)
    case (Suc p)
    have "take (Suc p) b = take p b @ [b ! p]" using Suc.prems by (simp add: take_Suc_conv_app_nth)
    then have "last_word (take (Suc p) b) = (if b ! p = CHR '' '' then [] else last_word (take p b) @ [b ! p])" by (simp add: last_word_def)
    then show ?case using Suc by auto
  qed (simp add: last_word_def)
  then show "find_word_start p b = p - length (last_word (take p b))" "length (last_word (take p b)) \<le> p" by simp_all
qed

lemma last_word_suffix: "\<exists>l'. l = l' @ last_word l"
  by (metis last_word_def rev_append rev_rev_ident takeWhile_dropWhile_id)

lemma part_eq:
  assumes "p \<le> length b"
  shows "map (\<lambda>i. b ! (find_word_start p b + i)) [0..<p - find_word_start p b] = last_word (take p b)"
proof -
  obtain l' where l': "take p b = l' @ last_word (take p b)" using last_word_suffix by blast
  have len: "length l' = find_word_start p b" "find_word_start p b \<le> p"
    using arg_cong [OF l', of length] find_word_start_last_word [OF assms] assms by simp_all
  show ?thesis
  proof (rule nth_equalityI)
    show "length (map (\<lambda>i. b ! (find_word_start p b + i)) [0..<p - find_word_start p b]) = length (last_word (take p b))"
      using find_word_start_last_word [OF assms] by simp
    fix i assume "i < length (map (\<lambda>i. b ! (find_word_start p b + i)) [0..<p - find_word_start p b])"
    then have i: "i < p - find_word_start p b" "find_word_start p b + i < p" by simp_all
    then have "b ! (find_word_start p b + i) = take p b ! (length l' + i)" using len by simp
    then show "map (\<lambda>i. b ! (find_word_start p b + i)) [0..<p - find_word_start p b] ! i = last_word (take p b) ! i"
      using i by (subst (asm) l') (simp add: nth_append)
  qed
qed

lemma starts_with_prefix: "NUL \<notin> set part \<Longrightarrow> starts_with c part \<longleftrightarrow> prefix part c"
proof
  assume nul: "NUL \<notin> set part" and st: "starts_with c part"
  have e: "(c @ [NUL]) ! j = part ! j" if "j < length part" for j using st that by (simp add: starts_with_def list_all_iff)
  have len: "length part \<le> length c"
  proof (rule ccontr)
    assume "\<not> length part \<le> length c"
    then have "length c < length part" by simp
    then have "part ! length c = NUL" using e [of "length c"] by simp
    then show False using nul \<open>length c < length part\<close> nth_mem by metis
  qed
  have "part = take (length part) c"
    by (rule nth_equalityI) (use len e in \<open>auto simp: nth_append\<close>)
  then show "prefix part c" by (metis take_is_prefix)
next
  assume "prefix part c"
  then show "starts_with c part" by (auto simp: starts_with_def list_all_iff prefix_def nth_append)
qed

lemma completion_text:
  assumes inv: "ed_inv sh" and lr: "line_of sh = (l, r, p)" and n: "cmd_len sh + a < 255"
    and w: "length w = a" "NUL \<notin> set w"
  defines "b1 \<equiv> fold (\<lambda>i b. b[i + a := b ! i]) (rev [cmd_pos sh..<cmd_len sh + 1]) (cmd_buffer sh)"
  defines "b2 \<equiv> fold (\<lambda>i b. b[cmd_pos sh + i := w ! i]) [0..<a] b1"
  shows "ed_inv (sh\<lparr>cmd_buffer := b2, cmd_pos := cmd_pos sh + a, cmd_len := cmd_len sh + a\<rparr>)"
    "line_of (sh\<lparr>cmd_buffer := b2, cmd_pos := cmd_pos sh + a, cmd_len := cmd_len sh + a\<rparr>) = (l @ w, r, p)"
proof -
  note L = line_of_eq [OF inv lr]
  let ?b = "cmd_buffer sh" and ?p = "cmd_pos sh" and ?n = "cmd_len sh"
  have b: "length ?b = 256" "?p \<le> ?n" using inv by (simp_all add: ed_inv_def)
  have b1: "b1 ! j = (if ?p + a \<le> j \<and> j \<le> ?n + a then ?b ! (j - a) else ?b ! j)" "length b1 = 256" if "j < 256" for j
    unfolding b1_def using shift_right_nth [of ?n a ?b j ?p] that b n by simp_all
  have b2: "b2 ! j = (if ?p \<le> j \<and> j < ?p + a then w ! (j - ?p) else b1 ! j)" "length b2 = 256" if "j < 256" for j
    unfolding b2_def using fill_loop_nth [of ?p a b1 j "\<lambda>i. w ! i"] that b n b1(2) [of 0] by simp_all
  have t: "take (?n + a) b2 = (l @ w) @ r"
  proof (rule nth_equalityI)
    show "length (take (?n + a) b2) = length ((l @ w) @ r)" using b n b2(2) [of 0] L(2,3) w(1) by simp
    fix j assume "j < length (take (?n + a) b2)"
    then have j: "j < ?n + a" by simp
    have nn: "?b ! k = (l @ r) ! k" if "k < ?n" for k using L(1) that by (metis nth_take)
    consider "j < ?p" | "?p \<le> j" "j < ?p + a" | "?p + a \<le> j" by linarith
    then show "take (?n + a) b2 ! j = ((l @ w) @ r) ! j"
      using j n b b1(1) [of j] b2(1) [of j] L(2,3) w(1) nn [of j] nn [of "j - a"] by cases (auto simp: nth_append add.commute)
  qed
  have "NUL \<notin> set ((l @ w) @ r)" using inv L(1) w(2) by (auto simp: ed_inv_def)
  moreover have "length b2 = 256" "?p + a \<le> ?n + a" "?n + a \<le> 255" "length (l @ w) = ?p + a" "p \<le> history_count sh"
    using b b2(2) [of 0] n L(2,4) w(1) inv by (simp_all add: ed_inv_def)
  ultimately have "ed_inv (sh\<lparr>cmd_buffer := b2, cmd_pos := ?p + a, cmd_len := ?n + a, history_pos := p\<rparr>)"
    "line_of (sh\<lparr>cmd_buffer := b2, cmd_pos := ?p + a, cmd_len := ?n + a, history_pos := p\<rparr>) = (l @ w, r, p)"
    using new_text [OF inv _ _ _ t] by blast+
  moreover have "sh\<lparr>cmd_buffer := b2, cmd_pos := ?p + a, cmd_len := ?n + a, history_pos := p\<rparr> = sh\<lparr>cmd_buffer := b2, cmd_pos := ?p + a, cmd_len := ?n + a\<rparr>"
    using L(4) by (cases sh) simp
  ultimately show "ed_inv (sh\<lparr>cmd_buffer := b2, cmd_pos := ?p + a, cmd_len := ?n + a\<rparr>)"
    "line_of (sh\<lparr>cmd_buffer := b2, cmd_pos := ?p + a, cmd_len := ?n + a\<rparr>) = (l @ w, r, p)" by simp_all
qed

lemma commands_no_NUL: "list_all (\<lambda>c. NUL \<notin> set c) commands"
  by (simp add: commands_def)

lemma implements_tab: "implements (ed_tab prompt) Key_tab"
  unfolding implements_def
proof (intro allI impI)
  fix sh assume inv: "ed_inv sh"
  obtain l r p where lr: "line_of sh = (l, r, p)" by (cases "line_of sh")
  note L = line_of_eq [OF inv lr]
  have l: "l = take (cmd_pos sh) (cmd_buffer sh)" using lr by (simp add: line_of_def)
  have pb: "cmd_pos sh \<le> length (cmd_buffer sh)" "cmd_pos sh \<le> cmd_len sh" using inv by (simp_all add: ed_inv_def)
  define part where "part = last_word l"
  have "set part \<subseteq> set l" by (auto simp: part_def last_word_def dest: set_takeWhileD)
  then have nul: "NUL \<notin> set part" using inv L(1) by (auto simp: ed_inv_def)
  define ms where "ms = filter (prefix part) commands"
  have m: "filter (\<lambda>c. starts_with c part) commands = ms" using starts_with_prefix [OF nul] by (simp add: ms_def)
  have tab: "ed_tab prompt sh =
     (if length ms = 1 then
        if cmd_len sh + (length (last ms) - length part) < 255 then
          redraw_line prompt (sh\<lparr>cmd_buffer := fold (\<lambda>i b. b[cmd_pos sh + i := last ms ! (length part + i)]) [0..<length (last ms) - length part]
              (fold (\<lambda>i b. b[i + (length (last ms) - length part) := b ! i]) (rev [cmd_pos sh..<cmd_len sh + 1]) (cmd_buffer sh)),
            cmd_pos := cmd_pos sh + (length (last ms) - length part), cmd_len := cmd_len sh + (length (last ms) - length part)\<rparr>)
        else sh
      else if 1 < length ms
        then redraw_line prompt (write_out [CHR 0x0A] (fold (\<lambda>c sh. write_out ''  '' (write_out c sh)) ms (write_out [CHR 0x0A] sh)))
      else sh)"
    unfolding ed_tab_def Let_def part_eq [OF pb(1)] l [symmetric] part_def [symmetric] m by simp
  have out: "ed_inv (fold (\<lambda>c sh. write_out ''  '' (write_out c sh)) xs st) = ed_inv st \<and>
      line_of (fold (\<lambda>c sh. write_out ''  '' (write_out c sh)) xs st) = line_of st \<and>
      same_history sh (fold (\<lambda>c sh. write_out ''  '' (write_out c sh)) xs st) = same_history sh st" for xs st
    by (induction xs arbitrary: st) simp_all
  consider (one) x where "ms = [x]" | (none) "ms = []" | (many) x y zs where "ms = x # y # zs" by (cases ms; cases "tl ms") auto
  then show "ed_inv (ed_tab prompt sh) \<and> same_history sh (ed_tab prompt sh) \<and>
      line_of (ed_tab prompt sh) = edit (hist_of sh) (history_count sh) Key_tab (line_of sh)"
  proof cases
    case one
    then have "x \<in> set (filter (prefix part) commands)" unfolding ms_def by simp
    then have x: "prefix part x" "x \<in> set commands" by simp_all
    have last1: "last ms = x" "length ms = 1" by (simp_all add: one)
    define w where "w = drop (length part) x"
    have a: "length w = length x - length part" "NUL \<notin> set w" "\<And>i. i < length w \<Longrightarrow> w ! i = x ! (length part + i)"
      using x commands_no_NUL by (auto simp: w_def list_all_iff dest: in_set_dropD)
    have len: "length l + length r = cmd_len sh" using L(2,3) pb(2) by simp
    show ?thesis
    proof (cases "cmd_len sh + length w < 255")
      case True
      have "fold (\<lambda>i b. b[cmd_pos sh + i := x ! (length part + i)]) [0..<length w] c = fold (\<lambda>i b. b[cmd_pos sh + i := w ! i]) [0..<length w] c" for c
        using a(3) by (intro fold_cong) simp_all
      then have e: "ed_tab prompt sh = redraw_line prompt (sh\<lparr>cmd_buffer := fold (\<lambda>i b. b[cmd_pos sh + i := w ! i]) [0..<length w]
              (fold (\<lambda>i b. b[i + length w := b ! i]) (rev [cmd_pos sh..<cmd_len sh + 1]) (cmd_buffer sh)),
            cmd_pos := cmd_pos sh + length w, cmd_len := cmd_len sh + length w\<rparr>)"
        using True unfolding tab last1 a(1) [symmetric] by simp
      have "edit (hist_of sh) (history_count sh) Key_tab (l, r, p) = (l @ w, r, p)"
        using True len by (simp add: part_def [symmetric] ms_def [symmetric] one w_def a(1))
      then show ?thesis
        using completion_text [OF inv lr True refl a(2)] unfolding e lr by (simp add: same_history_def)
    next
      case False
      then show ?thesis using inv len unfolding tab last1 a(1) [symmetric]
        by (simp add: lr same_history_def part_def [symmetric] ms_def [symmetric] one a(1))
    qed
  next
    case none
    then show ?thesis using inv by (simp add: tab lr same_history_def part_def [symmetric] ms_def [symmetric])
  next
    case many
    then show ?thesis using inv out by (simp add: tab lr same_history_def part_def [symmetric] ms_def [symmetric])
  qed
qed

section \<open>Reading a line\<close>

fun key_ok :: "key \<Rightarrow> bool" where
  "key_ok (Key_char c) = printable c"
| "key_ok _ = True"

lemma printable_plain: "printable c \<Longrightarrow> c \<noteq> CHR 0x0A \<and> c \<noteq> CHR 0x08 \<and> c \<noteq> ESC \<and> c \<noteq> CHR 0x09"
  by (auto simp: printable_def)

text \<open>Each key leads to one operation, which implements its edit.\<close>

lemma read_keys_key:
  assumes "key_ok k"
  obtains f where "\<And>input sh. read_keys prompt (keystrokes k @ input) sh = read_keys prompt input (f sh)" "implements f k"
proof (cases k)
  case (Key_char c)
  let ?f = "\<lambda>sh. if cmd_len sh < 255 then ed_insert c sh else sh"
  have "read_keys prompt (keystrokes k @ input) sh = read_keys prompt input (?f sh)" for input sh
    using assms Key_char printable_plain [of c] by simp
  then show ?thesis using that [of ?f] implements_insert assms Key_char by simp
next
  case Key_backspace
  then show ?thesis using that [of "ed_backspace prompt"] implements_backspace by simp
next
  case Key_up
  then show ?thesis using that [of "ed_up prompt"] implements_history by (simp add: ed_arrow_def)
next
  case Key_down
  then show ?thesis using that [of "ed_down prompt"] implements_history by (simp add: ed_arrow_def)
next
  case Key_left
  then show ?thesis using that [of ed_left] implements_cursor by (simp add: ed_arrow_def)
next
  case Key_right
  then show ?thesis using that [of ed_right] implements_cursor by (simp add: ed_arrow_def)
next
  case Key_tab
  then show ?thesis using that [of "ed_tab prompt"] implements_tab by simp
qed

lemma read_keys_edits:
  assumes "ed_inv sh" "list_all key_ok ks"
  shows "\<exists>sh'. read_keys prompt (concat (map keystrokes ks) @ CHR 0x0A # rest) sh = Some (length (fst (line_of sh') @ fst (snd (line_of sh'))), rest, sh') \<and>
    same_history sh sh' \<and> c_str (cmd_buffer sh') = fst (line_of sh') @ fst (snd (line_of sh')) \<and>
    line_of sh' = fold (edit (hist_of sh) (history_count sh)) ks (line_of sh)"
  using assms
proof (induction ks arbitrary: sh)
  case Nil
  obtain l r p where lr: "line_of sh = (l, r, p)" by (cases "line_of sh")
  note L = line_of_eq [OF Nil(1) lr]
  let ?st = "(write_out [CHR 0x0A] sh)\<lparr>cmd_buffer := (cmd_buffer sh)[cmd_len sh := NUL]\<rparr>"
  have n: "cmd_len sh < length (cmd_buffer sh)" "cmd_pos sh \<le> cmd_len sh" "NUL \<notin> set (l @ r)"
    using Nil(1) L(1) by (simp_all add: ed_inv_def del: set_append)
  have "(cmd_buffer sh)[cmd_len sh := NUL] = (l @ r) @ NUL # drop (Suc (cmd_len sh)) (cmd_buffer sh)"
    using n(1) L(1) by (simp add: upd_conv_take_nth_drop)
  then have "c_str (cmd_buffer ?st) = l @ r" using c_str_append_NUL [OF n(3)] by simp
  moreover have "line_of ?st = (l, r, p)" using lr n(2) by (simp add: line_of_def)
  ultimately show ?case using L(2,3) n(2) by (intro exI [of _ ?st]) (simp add: lr same_history_def)
next
  case (Cons k ks)
  obtain f where f: "\<And>input sh. read_keys prompt (keystrokes k @ input) sh = read_keys prompt input (f sh)" "implements f k"
    using read_keys_key [of k prompt] Cons.prems(2) by auto
  have i: "ed_inv (f sh)" "same_history sh (f sh)" "line_of (f sh) = edit (hist_of sh) (history_count sh) k (line_of sh)"
    using f(2) Cons.prems(1) by (simp_all add: implements_def)
  have "hist_of (f sh) = hist_of sh" "history_count (f sh) = history_count sh"
    using i(2) by (simp_all add: same_history_def hist_of_def fun_eq_iff)
  then show ?case using Cons.IH [OF i(1)] Cons.prems(2) i(2,3) by (auto simp: f(1) same_history_def)
qed

text \<open>
  C12: the line editor edits.  Whatever keys are typed before the newline (printable characters,
  backspace, the four arrows and tab), \<open>read_line\<close> returns and leaves in its buffer, as a C string
  of the length it returns, the text that an editor on the two lists before and behind the cursor
  makes of these keys: insertion and deletion at the cursor, movement, recall from the history and
  completion of a unique command.  The array is never overrun, and the history is unchanged.
\<close>

theorem read_line_edits:
  assumes "ed_inv sh" "list_all key_ok ks"
  shows "\<exists>l r p sh'. fold (edit (hist_of sh) (history_count sh)) ks ([], [], history_pos sh) = (l, r, p) \<and>
    read_line prompt (concat (map keystrokes ks) @ CHR 0x0A # rest) sh = Some (length (l @ r), rest, sh') \<and>
    c_str (cmd_buffer sh') = l @ r \<and> history sh' = history sh \<and> history_count sh' = history_count sh"
proof -
  define st where "st = write_out prompt (sh\<lparr>cmd_len := 0, cmd_pos := 0, cmd_buffer := (cmd_buffer sh)[0 := NUL]\<rparr>)"
  have "ed_inv st" "line_of st = ([], [], history_pos sh)" using assms(1) by (simp_all add: st_def ed_inv_def line_of_def)
  moreover have "hist_of st = hist_of sh" "history_count st = history_count sh" "history st = history sh"
    by (simp_all add: st_def hist_of_def fun_eq_iff)
  ultimately show ?thesis using read_keys_edits [of st ks prompt rest] assms(2)
    unfolding read_line_def st_def [symmetric] by (cases "fold (edit (hist_of sh) (history_count sh)) ks ([], [], history_pos sh)") (auto simp: same_history_def)
qed

definition shell_demo :: shell where
  "shell_demo = \<lparr>history = (''ps'' @ replicate 254 NUL) # replicate 9 (replicate 256 NUL), history_count = 1, history_pos = 1,
     cmd_buffer = replicate 256 NUL, cmd_pos = 0, cmd_len = 0, jobs = replicate 16 \<lparr>job_id = 0, job_pid = 0, job_command = replicate 256 NUL,
       job_state = JOB_STATE_RUNNING, job_background = False\<rparr>, next_job_id = 1, jobs_initialized = False, stdout = []\<rparr>"

theorem read_line_edits_witness:
  "\<exists>sh'. read_line ''$ '' (''hi'' @ [ESC] @ ''[D'' @ [CHR 0x08] @ ''xy\<newline>'') shell_demo = Some (3, [], sh') \<and> c_str (cmd_buffer sh') = ''xyi''"
proof -
  have i: "ed_inv shell_demo" by (simp add: ed_inv_def shell_demo_def)
  have k: "list_all key_ok [Key_char (CHR ''h''), Key_char (CHR ''i''), Key_left, Key_backspace, Key_char (CHR ''x''), Key_char (CHR ''y'')]"
    by (simp add: printable_def)
  show ?thesis using read_line_edits [OF i k, of "''$ ''" "[]"] by (auto simp: eval_nat_numeral)
qed

section \<open>The job table\<close>

definition jobs_inv :: "shell \<Rightarrow> bool" where
  "jobs_inv sh \<longleftrightarrow> jobs_initialized sh \<and> length (jobs sh) = 16 \<and>
     (\<forall>j \<in> set (jobs sh). job_id j < next_job_id sh \<and> length (job_command j) = 256)"

lemma sh_strncpy_command:
  assumes "length d = 256"
  shows "length ((sh_strncpy d src 255)[255 := NUL]) = 256" "c_str ((sh_strncpy d src 255)[255 := NUL]) = take 254 (c_str src)"
proof -
  let ?t = "take 254 (c_str src)"
  have len: "length ?t \<le> 254" by simp
  have e: "sh_strncpy d src 255 = ?t @ NUL # replicate (254 - length ?t) NUL @ drop 255 d"
    using len replicate_Suc [of "254 - length ?t" NUL] by (simp add: sh_strncpy_def Let_def Suc_diff_le [symmetric])
  then show "length ((sh_strncpy d src 255)[255 := NUL]) = 256" using len assms by simp
  have "NUL \<notin> set ?t" by (auto simp: c_str_def dest!: in_set_takeD set_takeWhileD)
  moreover have "(sh_strncpy d src 255)[255 := NUL] = ?t @ NUL # (replicate (254 - length ?t) NUL @ drop 255 d)[255 - length ?t - 1 := NUL]"
    unfolding e using len by (simp add: list_update_append split: nat.split)
  ultimately show "c_str ((sh_strncpy d src 255)[255 := NUL]) = ?t" using c_str_append_NUL by metis
qed

lemma first_free:
  "find P [0..<n] = Some i \<Longrightarrow> i < n \<and> P i"
  "find P [0..<n] = None \<longleftrightarrow> (\<forall>i < n. \<not> P i)"
  by (auto simp: find_Some_iff find_None_iff)

lemma find_only: "i < n \<Longrightarrow> P i \<Longrightarrow> (\<And>k. k < n \<Longrightarrow> P k \<Longrightarrow> k = i) \<Longrightarrow> find P [0..<n] = Some i"
proof (cases "find P [0..<n]")
  case None
  then show "i < n \<Longrightarrow> P i \<Longrightarrow> ?thesis" by (simp add: first_free(2))
next
  case (Some k)
  then show "i < n \<Longrightarrow> P i \<Longrightarrow> (\<And>k. k < n \<Longrightarrow> P k \<Longrightarrow> k = i) \<Longrightarrow> ?thesis" using first_free(1) by metis
qed

text \<open>
  A background job can be found again.  In a table with a free slot, \<open>jobs_add\<close> hands out a
  job number that no other entry has; looking that number up gives an entry with the process and
  the first 254 characters of the command, all other entries are as before, and the table keeps
  its invariant.  With no free slot it reports -1 and changes nothing.
\<close>

theorem jobs_add_found:
  assumes inv: "jobs_inv sh" and add: "jobs_add pd command background sh = (jid, sh')"
  shows "if \<exists>i < 16. job_pid (jobs sh ! i) = 0
    then jid = next_job_id sh \<and> jobs_inv sh' \<and> (\<exists>i < 16. job_pid (jobs sh ! i) = 0 \<and> jobs_get_by_id jid sh' = Some i \<and>
      job_pid (jobs sh' ! i) = pd \<and> c_str (job_command (jobs sh' ! i)) = take 254 (c_str command) \<and>
      (\<forall>k < 16. k \<noteq> i \<longrightarrow> jobs sh' ! k = jobs sh ! k))
    else jid = - 1 \<and> sh' = sh"
proof (cases "find (\<lambda>i. job_pid (jobs sh ! i) = 0) [0..<16]")
  case None
  then have "\<not> (\<exists>i < 16. job_pid (jobs sh ! i) = 0)" unfolding first_free(2) by blast
  then show ?thesis using None inv add by (auto simp: jobs_add_def jobs_inv_def Let_def)
next
  case (Some i)
  note i = first_free(1) [OF Some]
  define j where "j = (jobs sh ! i)\<lparr>job_id := next_job_id sh, job_pid := pd,
    job_command := (sh_strncpy (job_command (jobs sh ! i)) command 255)[255 := NUL], job_state := JOB_STATE_RUNNING, job_background := background\<rparr>"
  have sh: "jobs_initialized sh" "length (jobs sh) = 16" "length (job_command (jobs sh ! i)) = 256"
    "\<And>k. k < 16 \<Longrightarrow> job_id (jobs sh ! k) < next_job_id sh"
    using inv i by (simp_all add: jobs_inv_def)
  have r: "jid = next_job_id sh" "jobs sh' = (jobs sh)[i := j]" "next_job_id sh' = next_job_id sh + 1" "jobs_initialized sh'"
    using add Some sh(1) by (auto simp: jobs_add_def Let_def j_def write_out_def split: if_splits)
  note c = sh_strncpy_command [OF sh(3), of command]
  have "job_id (jobs sh' ! k) = jid \<longleftrightarrow> k = i" if "k < 16" for k
    using that sh(2) sh(4) [OF that] i by (auto simp: r j_def nth_list_update)
  then have "jobs_get_by_id jid sh' = Some i" using find_only [of i 16 "\<lambda>i. job_id (jobs sh' ! i) = jid"] i r(4) by (simp add: jobs_get_by_id_def)
  moreover have "jobs_inv sh'"
    using inv c(1) sh(2) r by (auto simp: jobs_inv_def j_def dest!: subsetD [OF set_update_subset_insert])
  ultimately show ?thesis using i sh(2) c(2) r by (auto simp: j_def intro!: exI [of _ i])
qed

theorem jobs_add_found_witness:
  "\<exists>i < 16. jobs_get_by_id 1 (snd (jobs_add 42 ''wc'' True (jobs_init shell_demo))) = Some i \<and>
     job_pid (jobs (snd (jobs_add 42 ''wc'' True (jobs_init shell_demo))) ! i) = 42"
proof -
  have i: "jobs_inv (jobs_init shell_demo)" "next_job_id (jobs_init shell_demo) = 1" "job_pid (jobs (jobs_init shell_demo) ! 0) = 0"
    by (simp_all add: jobs_inv_def jobs_init_def shell_demo_def)
  from i(3) have "\<exists>i < 16. job_pid (jobs (jobs_init shell_demo) ! i) = 0" by (intro exI [of _ 0]) simp
  then show ?thesis using jobs_add_found [OF i(1) surjective_pairing, of 42 "''wc''" True] i(2) by auto
qed

end
