(* ===== verification/Shell_Parse.thy ===== *)
theory Shell_Parse
  imports Shell_V2
begin

text \<open>
  What the command line parser of \<open>src/programs/shell_v2.c\<close> guarantees: pipelines are cut at the
  bars, and a redirection gives the name of its file.
\<close>

fun split_on :: "char \<Rightarrow> string \<Rightarrow> string list" where
  "split_on c [] = [[]]"
| "split_on c (x # s) = (if x = c then [] # split_on c s else (x # hd (split_on c s)) # tl (split_on c s))"

lemma split_on_neq [simp]: "split_on c s \<noteq> []"
  by (cases s) auto

definition plain :: "char \<Rightarrow> bool" where
  "plain c \<longleftrightarrow> c \<noteq> NUL \<and> c \<noteq> CHR ''>'' \<and> c \<noteq> CHR ''<''"

lemma parse_pipes_split:
  assumes "list_all plain s" "length (pc_commands p) + length (split_on (CHR ''|'') s) \<le> 16"
  shows "\<exists>r ks. parse_pipes i (s @ NUL # post) p = Some (r, p\<lparr>pc_commands := pc_commands p @ ks\<rparr>) \<and>
    c_str r # map (arg_at i r) ks = split_on (CHR ''|'') s \<and> (\<forall>k \<in> set ks. i < k)"
  using assms
proof (induction s arbitrary: i p)
  case Nil
  then show ?case by (simp add: c_str_def)
next
  case (Cons c s)
  have c: "plain c" "list_all plain s" using Cons.prems(1) by auto
  have m: "map (arg_at i (x # r)) ks = map (arg_at (Suc i) r) ks" if "\<forall>k \<in> set ks. Suc i < k" for x r ks
    using that by (intro arg_at_Cons) auto
  show ?case
  proof (cases "c = CHR ''|''")
    case True
    let ?p = "p\<lparr>pc_commands := pc_commands p @ [Suc i]\<rparr>"
    have "length (pc_commands ?p) + length (split_on (CHR ''|'') s) \<le> 16" using Cons.prems(2) True by simp
    then obtain r ks where r: "parse_pipes (Suc i) (s @ NUL # post) ?p = Some (r, ?p\<lparr>pc_commands := pc_commands ?p @ ks\<rparr>)"
      "c_str r # map (arg_at (Suc i) r) ks = split_on (CHR ''|'') s" "\<forall>k \<in> set ks. Suc i < k"
      using Cons.IH [OF c(2), of ?p "Suc i"] by auto
    have "0 < length (split_on (CHR ''|'') s)" by simp
    then have "length (pc_commands p) < 15" using Cons.prems(2) True by (simp del: split_on_neq length_greater_0_conv)
    then have "parse_pipes i ((c # s) @ NUL # post) p = Some (NUL # r, p\<lparr>pc_commands := pc_commands p @ (Suc i # ks)\<rparr>)"
      using True r(1) by simp
    moreover have "arg_at i (NUL # r) (Suc i) = c_str r" by (simp add: arg_at_def)
    ultimately show ?thesis using True r(2,3) m [OF r(3), of NUL r] by (intro exI [of _ "NUL # r"] exI [of _ "Suc i # ks"]) (auto simp: c_str_def [of "NUL # r"] simp del: map_eq_conv)
  next
    case False
    have "length (pc_commands p) + length (split_on (CHR ''|'') s) \<le> 16" using Cons.prems(2) False by (simp add: Suc_le_eq)
    then obtain r ks where r: "parse_pipes (Suc i) (s @ NUL # post) p = Some (r, p\<lparr>pc_commands := pc_commands p @ ks\<rparr>)"
      "c_str r # map (arg_at (Suc i) r) ks = split_on (CHR ''|'') s" "\<forall>k \<in> set ks. Suc i < k"
      using Cons.IH [OF c(2), of p "Suc i"] by auto
    have "parse_pipes i ((c # s) @ NUL # post) p = Some (c # r, p\<lparr>pc_commands := pc_commands p @ ks\<rparr>)"
      using False c(1) r(1) by (simp add: plain_def)
    moreover have "c_str (c # r) = c # c_str r" using c(1) by (simp add: c_str_def plain_def)
    ultimately show ?thesis using False m [OF r(3), of c r] r(3) by (intro exI [of _ "c # r"] exI [of _ ks]) (auto simp del: map_eq_conv simp flip: r(2))
  qed
qed

text \<open>
  C39: a pipeline is cut into its commands.  A line of at most 15 commands without redirection that
  does not end in an ampersand is split at its bars: the parser returns one position per command,
  and the string there is that command.
\<close>

theorem parse_command_line_pipes:
  assumes "list_all plain line" "length (split_on (CHR ''|'') line) \<le> 15" "line = [] \<or> last line \<noteq> CHR ''&''"
  shows "\<exists>cmd parsed. parse_command_line (line @ NUL # post) = Some (cmd, parsed) \<and>
    map (\<lambda>k. c_str (drop k cmd)) (pc_commands parsed) = split_on (CHR ''|'') line \<and>
    input_file parsed = None \<and> output_file parsed = None \<and> \<not> pc_background parsed"
proof -
  let ?p = "\<lparr>pc_commands = [0], input_file = None, output_file = None, append_output = False, pc_background = False\<rparr>"
  have "NUL \<notin> set line" using assms(1) by (auto simp: list_all_iff plain_def)
  then have len: "str_len (line @ NUL # post) = length line" by (simp add: c_str_append_NUL)
  have "line \<noteq> [] \<Longrightarrow> (line @ NUL # post) ! (length line - 1) = last line" by (simp add: nth_append last_conv_nth)
  then have "parse_command_line (line @ NUL # post) = parse_pipes 0 (line @ NUL # post) ?p"
    using assms(3) unfolding parse_command_line_def len Let_def by auto
  moreover obtain r ks where "parse_pipes 0 (line @ NUL # post) ?p = Some (r, ?p\<lparr>pc_commands := [0] @ ks\<rparr>)"
      "c_str r # map (arg_at 0 r) ks = split_on (CHR ''|'') line"
    using parse_pipes_split [OF assms(1), of ?p 0 post] assms(2) by auto
  ultimately show ?thesis by (auto simp: arg_at_def [abs_def])
qed

theorem parse_command_line_pipes_witness:
  "\<exists>cmd parsed. parse_command_line (''ps | wc'' @ [NUL]) = Some (cmd, parsed) \<and>
     map (\<lambda>k. c_str (drop k cmd)) (pc_commands parsed) = [''ps '', '' wc'']"
  using parse_command_line_pipes [of "''ps | wc''" "[]"] by (auto simp: plain_def)

end
