(* ===== verification/Shell_Exec.thy ===== *)
theory Shell_Exec
  imports Shell_V2
begin

text \<open>
  Running the commands of the shell (\<open>src/programs/shell_v2.c\<close>, from \<open>execute_command_bg\<close> to
  \<open>shell_v2_main\<close>).  A process sees the kernel through the answers to its system calls: a \<open>task\<close> has
  the memory of the shell, the characters standard input will deliver, the answers still to come
  and the calls made so far.  Text written to standard output is collected in \<open>stdout\<close>; the
  answers to these writes are never looked at.  A task that has no answer left waits.  The child
  of \<open>fork\<close> is the task in which the call has returned 0; \<open>sys_exit\<close> is a call like the others, and
  what follows it in the text is run if it is answered.
\<close>

section \<open>Tasks\<close>

datatype request =
    Call_read int int | Call_fork | Call_wait | Call_exit int | Call_execve string "string list" | Call_sleep int | Call_getpid
  | Call_ps | Call_open string int | Call_close int | Call_dup2 int int | Call_pipe | Call_kill int int | Call_readdir int

text \<open>The result of a call, the bytes and the integers it has stored through its pointer arguments.\<close>

record answer =
  ret :: int
  stored :: string
  word0 :: int
  word1 :: int

record task =
  sh :: shell
  stdin :: string
  answers :: "answer list"
  calls :: "request list"

text \<open>A result, a call that has not returned, or an access beyond the end of an array.\<close>

datatype 'a progress = Value 'a | Waiting | Overrun

type_synonym 'a act = "task \<Rightarrow> 'a progress \<times> task"

definition give :: "'a \<Rightarrow> 'a act" where
  "give x t = (Value x, t)"

definition seq :: "'a act \<Rightarrow> ('a \<Rightarrow> 'b act) \<Rightarrow> 'b act" where
  "seq m f t = (case m t of (Value x, t') \<Rightarrow> f x t' | (Waiting, t') \<Rightarrow> (Waiting, t') | (Overrun, t') \<Rightarrow> (Overrun, t'))"

fun seqs :: "unit act list \<Rightarrow> unit act" where
  "seqs [] = give ()"
| "seqs (m # ms) = seq m (\<lambda>_. seqs ms)"

definition call :: "request \<Rightarrow> answer act" where
  "call r t =
     (let t1 = t\<lparr>calls := calls t @ [r]\<rparr>
      in case answers t of [] \<Rightarrow> (Waiting, t1) | a # as \<Rightarrow> (Value a, t1\<lparr>answers := as\<rparr>))"

definition on_shell :: "(shell \<Rightarrow> shell) \<Rightarrow> unit act" where
  "on_shell f t = (Value (), t\<lparr>sh := f (sh t)\<rparr>)"

definition say :: "string \<Rightarrow> unit act" where
  "say text = on_shell (write_out text)"

section \<open>Built-in commands\<close>

abbreviation (input) lf :: string where "lf \<equiv> [CHR 0x0A]"

definition help_text :: "unit act" where
  "help_text = seqs [say (''Commands:'' @ lf), say (''  help     - Show this help'' @ lf), say (''  ps       - List processes'' @ lf),
     say (''  echo     - Print arguments'' @ lf), say (''  fork     - Test fork'' @ lf), say (''  stress   - Stress test'' @ lf),
     say (''  clear    - Clear screen'' @ lf), say (''  history  - Show command history'' @ lf), say (''  exit     - Exit shell'' @ lf),
     say (lf @ ''Features:'' @ lf), say (''  - Use UP/DOWN arrows for history'' @ lf), say (''  - Commands can be piped: cmd1 | cmd2'' @ lf),
     say (''  - Redirections: cmd > file, cmd < file'' @ lf), say (''  - Background: cmd &'' @ lf)]"

text \<open>The digits of a string as a number; other characters are skipped.\<close>

definition atoi :: "string \<Rightarrow> int" where
  "atoi text = fold (\<lambda>c n. if 48 \<le> (of_char c :: int) \<and> (of_char c :: int) \<le> 57 then n * 10 + (of_char c - 48) else n) text 0"

function fg_wait :: "int \<Rightarrow> unit act" where
  "fg_wait pd t =
     (case call Call_wait t of
        (Value a, t') \<Rightarrow> if ret a \<noteq> pd \<and> 0 < ret a then fg_wait pd t' else (Value (), t')
      | (Waiting, t') \<Rightarrow> (Waiting, t')
      | (Overrun, t') \<Rightarrow> (Overrun, t'))"
  by pat_completeness auto
termination
  by (relation "measure (\<lambda>(_, t). length (answers t))") (auto simp: call_def Let_def split: list.splits)

definition fg :: "string list \<Rightarrow> unit act" where
  "fg args =
     (if length args < 2 then say (''Usage: fg <job_id>'' @ lf)
      else (\<lambda>t. case jobs_get_by_id (atoi (args ! 1)) (sh t) of
          None \<Rightarrow> say (''fg: no such job'' @ lf) t
        | Some i \<Rightarrow> let pd = job_pid (jobs (sh t) ! i)
            in seq (fg_wait pd) (\<lambda>_. on_shell (jobs_remove pd)) t))"

definition echo :: "string list \<Rightarrow> unit act" where
  "echo args = seqs (concat (map (\<lambda>i. say (args ! i) # (if i < length args - 1 then [say '' ''] else [])) [1..<length args]) @ [say lf])"

definition show_history :: "unit act" where
  "show_history t =
     (let n = history_count (sh t); start = (if HISTORY_SIZE < n then n - HISTORY_SIZE else 0)
      in seqs (concat (map (\<lambda>i. [say ''  '', say (number (int i + 1)), say ''  '', say (c_str (history (sh t) ! (i mod HISTORY_SIZE))), say lf])
           [start..<n])) t)"

definition fork_test :: "unit act" where
  "fork_test =
     seq (call Call_fork) (\<lambda>a.
       if ret a = 0 then seqs [say (''Child process running!'' @ lf), seq (call (Call_sleep 2000)) (\<lambda>_. give ()),
         say (''Child exiting'' @ lf), seq (call (Call_exit 0)) (\<lambda>_. give ())]
       else if 0 < ret a then seqs [say ''Created child PID '', say (number (ret a)), say lf, seq (call Call_wait) (\<lambda>_. give ()),
         say (''Child finished'' @ lf)]
       else say (''Fork failed!'' @ lf))"

definition worker :: "nat \<Rightarrow> unit act" where
  "worker i =
     seq (call Call_fork) (\<lambda>a.
       if ret a = 0 then
         seq (say ''Worker '') (\<lambda>_. seq (call Call_getpid) (\<lambda>p. seqs [say (number (ret p)), say ('' running'' @ lf),
           seq (call (Call_sleep (1000 + int i * 500))) (\<lambda>_. give ()), seq (call (Call_exit (int i))) (\<lambda>_. give ())]))
       else give ())"

definition reap :: "unit act" where
  "reap = seq (call Call_wait) (\<lambda>a. seqs [say ''Child '', say (number (ret a)), say ('' exited'' @ lf)])"

definition stress :: "unit act" where
  "stress = seqs ([say (''Starting stress test...'' @ lf)] @ map worker [0..<3] @ [reap, reap, reap] @ [say (''Stress test complete!'' @ lf)])"

section \<open>Commands\<close>

text \<open>
  \<open>parse_command\<close> on the string at position \<open>p\<close> of the line: it overwrites the line and returns the
  arguments.
\<close>

definition parse_at :: "nat \<Rightarrow> string list act" where
  "parse_at p t =
     (case parse_command (drop p (cmd_buffer (sh t))) of (r, argv) \<Rightarrow>
        (Value (map (\<lambda>k. c_str (drop k r)) argv), t\<lparr>sh := (sh t)\<lparr>cmd_buffer := take p (cmd_buffer (sh t)) @ r\<rparr>\<rparr>))"

definition external :: "nat \<Rightarrow> string list \<Rightarrow> bool \<Rightarrow> int act" where
  "external p args background =
     seq (call Call_fork) (\<lambda>a.
       if ret a = 0 then
         seq (call (Call_execve (args ! 0) args)) (\<lambda>_.
           seq (seqs [say ''Command not found: '', say (args ! 0), say lf, seq (call (Call_exit 1)) (\<lambda>_. give ())]) (\<lambda>_. give (- 1)))
       else if 0 < ret a then
         (if background
          then seq (\<lambda>t. (Value (), t\<lparr>sh := snd (jobs_add (ret a) (drop p (cmd_buffer (sh t))) True (sh t))\<rparr>)) (\<lambda>_. give (- 1))
          else seq (call Call_wait) (\<lambda>w. give (word0 w)))
       else give (- 1))"

definition execute_command_bg :: "nat \<Rightarrow> bool \<Rightarrow> int act" where
  "execute_command_bg p background =
     seq (parse_at p) (\<lambda>args.
       if args = [] then give 0
       else let is_cmd = (\<lambda>name. str_cmp (args ! 0) name = 0); done = (\<lambda>m. seq m (\<lambda>_. give 0))
       in if is_cmd ''help'' then done help_text
       else if is_cmd ''jobs'' then done (on_shell jobs_list)
       else if is_cmd ''fg'' then done (fg args)
       else if is_cmd ''ps'' then done (seq (call Call_ps) (\<lambda>_. give ()))
       else if is_cmd ''echo'' then done (echo args)
       else if is_cmd ''history'' then done show_history
       else if is_cmd ''clear'' then done (say [ESC, CHR ''['', CHR ''2'', CHR ''J'', ESC, CHR ''['', CHR ''H''])
       else if is_cmd ''exit'' then
         seq (say (''Goodbye!'' @ lf)) (\<lambda>_. seq (call (Call_exit 0)) (\<lambda>_. external p args background))
       else if is_cmd ''fork'' then done fork_test
       else if is_cmd ''stress'' then done stress
       else external p args background)"

definition execute_command :: "nat \<Rightarrow> int act" where
  "execute_command p = execute_command_bg p False"

section \<open>Pipes and redirections\<close>

definition close_fd :: "int \<Rightarrow> unit act" where
  "close_fd fd = seq (call (Call_close fd)) (\<lambda>_. give ())"

definition dup2_fd :: "int \<Rightarrow> int \<Rightarrow> unit act" where
  "dup2_fd old new = seq (call (Call_dup2 old new)) (\<lambda>_. give ())"

definition execute_pipe :: "nat \<Rightarrow> nat \<Rightarrow> int act" where
  "execute_pipe cmd1 cmd2 =
     seq (call Call_pipe) (\<lambda>p.
       if ret p < 0 then seq (say (''Failed to create pipe'' @ lf)) (\<lambda>_. give (- 1))
       else let r = word0 p; w = word1 p in
         seq (seq (call Call_fork) (\<lambda>a.
           if ret a = 0 then
             seqs [close_fd r,
               seq (parse_at cmd1) (\<lambda>argv1. if argv1 \<noteq> [] then seqs [dup2_fd w 1, close_fd w, seq (execute_command cmd1) (\<lambda>_. give ())] else give ()),
               close_fd w, seq (call (Call_exit 0)) (\<lambda>_. give ())]
           else give ())) (\<lambda>_.
         seq (seq (call Call_fork) (\<lambda>a.
           if ret a = 0 then
             seqs [close_fd w, dup2_fd r 0, close_fd r, seq (execute_command cmd2) (\<lambda>_. give ()),
               seq (call (Call_exit 0)) (\<lambda>_. give ()), seq (call (Call_exit 0)) (\<lambda>_. give ())]
           else give ())) (\<lambda>_.
         seq (seqs [close_fd r, close_fd w, seq (call Call_wait) (\<lambda>_. give ()), seq (call Call_wait) (\<lambda>_. give ())]) (\<lambda>_. give 0))))"

text \<open>The string at position \<open>k\<close> of the line.\<close>

definition line_at :: "nat \<Rightarrow> task \<Rightarrow> string" where
  "line_at k t = c_str (drop k (cmd_buffer (sh t)))"

text \<open>One command with its redirections.\<close>

definition run_redirected :: "ParsedCommand \<Rightarrow> unit act" where
  "run_redirected parsed =
     (let run = (\<lambda>saved_stdin saved_stdout.
            seqs [seq (execute_command_bg (pc_commands parsed ! 0) (pc_background parsed)) (\<lambda>_. give ()),
              if 0 \<le> saved_stdin then close_fd saved_stdin else give (),
              if 0 \<le> saved_stdout then close_fd saved_stdout else give ()]);
          redirect_out = (\<lambda>saved_stdin.
            case output_file parsed of
              None \<Rightarrow> run saved_stdin (- 1)
            | Some k \<Rightarrow> (\<lambda>t. seq (call (Call_open (line_at k t) 1)) (\<lambda>a.
                if ret a < 0 then seqs [say ''Failed to open output file: '', say (line_at k t), say lf,
                  if 0 \<le> saved_stdin then close_fd saved_stdin else give ()]
                else seqs [dup2_fd (ret a) 1, run saved_stdin (ret a)]) t))
      in case input_file parsed of
           None \<Rightarrow> redirect_out (- 1)
         | Some k \<Rightarrow> (\<lambda>t. seq (call (Call_open (line_at k t) 0)) (\<lambda>a.
             if ret a < 0 then seqs [say ''Failed to open input file: '', say (line_at k t), say lf]
             else seqs [dup2_fd (ret a) 0, redirect_out (ret a)]) t))"

section \<open>The main loop\<close>

definition read_command :: "int act" where
  "read_command t =
     (case read_line ''$ '' (stdin t) ((sh t)\<lparr>history_pos := history_count (sh t)\<rparr>) of
        None \<Rightarrow> (Waiting, t)
      | Some (n, rest, sh') \<Rightarrow> (Value (int n), t\<lparr>sh := sh', stdin := rest\<rparr>))"

definition parse_line :: "ParsedCommand act" where
  "parse_line t =
     (case parse_command_line (cmd_buffer (sh t)) of
        None \<Rightarrow> (Overrun, t)
      | Some (buf, parsed) \<Rightarrow> (Value parsed, t\<lparr>sh := (sh t)\<lparr>cmd_buffer := buf\<rparr>\<rparr>))"

definition shell_step :: "unit act" where
  "shell_step =
     seq read_command (\<lambda>n.
       if n \<le> 0 then give ()
       else seq (on_shell (\<lambda>s. add_to_history (cmd_buffer s) s)) (\<lambda>_.
         seq parse_line (\<lambda>parsed.
           seq (on_shell (\<lambda>s. if jobs_initialized s then s else jobs_init s)) (\<lambda>_.
             if length (pc_commands parsed) = 2
             then seq (execute_pipe (pc_commands parsed ! 0) (pc_commands parsed ! 1)) (\<lambda>_. give ())
             else if length (pc_commands parsed) = 1 then run_redirected parsed
             else say (''Complex pipes/redirections not yet supported'' @ lf)))))"

text \<open>The endless loop is run \<open>n\<close> times.\<close>

definition shell_v2_main :: "nat \<Rightarrow> unit act" where
  "shell_v2_main n = seqs ([say (lf @ ''=== SimpleOS Shell v2 ==='' @ lf), say (''Enhanced with history and line editing'' @ lf),
     say (''Type ''@ [CHR 0x27] @ ''help'' @ [CHR 0x27] @ '' for commands'' @ lf @ lf)] @ replicate n shell_step)"

end
