(* ===== verification/Shell_Run.thy ===== *)
theory Shell_Run
  imports Shell_Exec
begin

text \<open>
  What running a command line does (\<open>src/programs/shell_v2.c\<close>): the text the built-in commands write
  and the system calls a command, a background command and a pipeline make, in order.
\<close>

section \<open>Sequences\<close>

lemma seq_value [simp]: "m t = (Value x, t') \<Longrightarrow> seq m f t = f x t'"
  by (simp add: seq_def)

lemma seq_waiting [simp]: "m t = (Waiting, t') \<Longrightarrow> seq m f t = (Waiting, t')"
  by (simp add: seq_def)

lemma give_eq [simp]: "give x t = (Value x, t)"
  by (simp add: give_def)

lemma say_eq [simp]: "say text t = (Value (), t\<lparr>sh := (sh t)\<lparr>stdout := stdout (sh t) @ text\<rparr>\<rparr>)"
  by (simp add: say_def on_shell_def write_out_def)

lemma call_eq [simp]:
  "answers t = a # as \<Longrightarrow> call r t = (Value a, t\<lparr>calls := calls t @ [r], answers := as\<rparr>)"
  "answers t = [] \<Longrightarrow> call r t = (Waiting, t\<lparr>calls := calls t @ [r]\<rparr>)"
  by (simp_all add: call_def)

lemma seqs_say: "seqs (map say ts @ ms) t = seqs ms (t\<lparr>sh := (sh t)\<lparr>stdout := stdout (sh t) @ concat ts\<rparr>\<rparr>)"
  by (induction ts arbitrary: t) simp_all

section \<open>Arguments\<close>

lemma tokens_neq: "w \<in> set (tokens sep s) \<Longrightarrow> w \<noteq> [] \<and> set w \<subseteq> set s \<and> (\<forall>c \<in> set w. \<not> sep c)"
proof (induction sep s rule: tokens.induct)
  case (2 sep c s)
  show ?case
  proof (cases "sep c")
    case True
    then have "w \<in> set (tokens sep s)" using 2(3) by (simp only: tokens.simps if_True)
    then show ?thesis using 2(1) [OF True] by (simp add: subset_insertI2)
  next
    case False
    have "set (dropWhile (\<lambda>x. \<not> sep x) s) \<subseteq> set s" using set_dropWhileD by fastforce
    moreover have "set (takeWhile (\<lambda>x. \<not> sep x) s) \<subseteq> set s" "\<forall>x \<in> set (takeWhile (\<lambda>x. \<not> sep x) s). \<not> sep x"
      by (auto dest: set_takeWhileD)
    ultimately show ?thesis
    proof (cases "w = c # takeWhile (\<lambda>x. \<not> sep x) s")
      case w: False
      then have "w \<in> set (tokens sep (dropWhile (\<lambda>x. \<not> sep x) s))" using 2(3) False by simp
      from 2(2) [OF False this] \<open>set (dropWhile (\<lambda>x. \<not> sep x) s) \<subseteq> set s\<close> show ?thesis by (meson list.set_intros(2) subset_iff)
    qed (use False in auto)
  qed
qed simp

lemma parse_loop_keeps_end: "NUL \<in> set cmd \<Longrightarrow> NUL \<in> set (fst (parse_loop i cmd in_token argc))"
  by (induction i cmd in_token argc rule: parse_loop.induct) (auto split: prod.splits if_splits)

lemma parse_loop_length: "length (fst (parse_loop i cmd in_token argc)) = length cmd"
  by (induction i cmd in_token argc rule: parse_loop.induct) (auto split: prod.splits if_splits)

text \<open>What is left of the line as a string: the blanks before the first word, and that word.\<close>

lemma parse_loop_first:
  assumes "NUL \<notin> set s" "tokens is_blank s = w # ws" "argc + length (w # ws) \<le> 14"
  shows "c_str (fst (parse_loop i (s @ NUL # post) False argc)) = takeWhile is_blank s @ w"
  using assms
proof (induction s arbitrary: i)
  case (Cons c s)
  have c: "c \<noteq> NUL" "NUL \<notin> set s" "argc < 15" using Cons.prems by auto
  show ?case
  proof (cases "is_blank c")
    case True
    then have "c_str (fst (parse_loop (i + 1) (s @ NUL # post) False argc)) = takeWhile is_blank s @ w" using Cons by simp
    then show ?thesis using True c by (cases "parse_loop (i + 1) (s @ NUL # post) False argc") (simp add: c_str_def)
  next
    case False
    obtain r ks where p: "parse_loop (i + 1) (s @ NUL # post) True (argc + 1) = (r, ks)" by fastforce
    have w: "w = c # takeWhile (\<lambda>x. \<not> is_blank x) s" "ws = tokens is_blank (dropWhile (\<lambda>x. \<not> is_blank x) s)"
      using Cons.prems(2) False by auto
    have "c_str r = takeWhile (\<lambda>x. \<not> is_blank x) s"
      using parse_loop_tokens [OF c(2) p] Cons.prems(3) w(2) by simp
    then show ?thesis using False c p w(1) by (simp add: c_str_def)
  qed
qed simp

text \<open>A line of at most 14 words at position \<open>p\<close> of the buffer.\<close>

definition line_words :: "nat \<Rightarrow> task \<Rightarrow> string list \<Rightarrow> bool" where
  "line_words p t ws \<longleftrightarrow> (\<exists>line post. p \<le> length (cmd_buffer (sh t)) \<and> drop p (cmd_buffer (sh t)) = line @ NUL # post \<and> NUL \<notin> set line \<and>
     tokens is_blank line = ws \<and> length ws \<le> 14)"

lemma tokens_single:
  assumes "\<forall>c \<in> set bs. sep c" "w \<noteq> []" "\<forall>c \<in> set w. \<not> sep c"
  shows "tokens sep (bs @ w) = [w]"
  using assms(1)
proof (induction bs)
  case Nil
  obtain c w' where w: "w = c # w'" using assms(2) by (cases w) auto
  have "takeWhile (\<lambda>x. \<not> sep x) w' = w'" "dropWhile (\<lambda>x. \<not> sep x) w' = []"
    using assms(3) unfolding w by (auto simp: takeWhile_eq_all_conv dropWhile_eq_Nil_conv)
  then show ?case using assms(3) unfolding w by (simp only: tokens.simps append_Nil) simp
qed simp

lemma parse_at_words:
  assumes "line_words p t (w # ws')"
  obtains b where "parse_at p t = (Value (w # ws'), t\<lparr>sh := (sh t)\<lparr>cmd_buffer := b\<rparr>\<rparr>)"
    "line_words p (t\<lparr>sh := (sh t)\<lparr>cmd_buffer := b\<rparr>\<rparr>) [w]"
proof -
  obtain line post where l: "p \<le> length (cmd_buffer (sh t))" "drop p (cmd_buffer (sh t)) = line @ NUL # post" "NUL \<notin> set line"
    "tokens is_blank line = w # ws'" "length (w # ws') \<le> 14" using assms unfolding line_words_def by blast
  obtain r ks where r: "parse_command (line @ NUL # post) = (r, ks)" by fastforce
  let ?b = "take p (cmd_buffer (sh t)) @ r"
  have p: "parse_loop 0 (line @ NUL # post) False 0 = (r, ks)" using r by (simp add: parse_command_def)
  have "map (\<lambda>k. c_str (drop k r)) ks = w # ws'"
    using parse_loop_tokens [OF l(3) p] l(4,5) by (simp add: arg_at_def [abs_def])
  then have "parse_at p t = (Value (w # ws'), t\<lparr>sh := (sh t)\<lparr>cmd_buffer := ?b\<rparr>\<rparr>)" by (simp add: parse_at_def l(2) r)
  moreover have "line_words p (t\<lparr>sh := (sh t)\<lparr>cmd_buffer := ?b\<rparr>\<rparr>) [w]"
  proof -
    have "NUL \<in> set r" using parse_loop_keeps_end [of "line @ NUL # post" 0 False 0] p by simp
    then obtain a post' where post': "r = a @ NUL # post'" "NUL \<notin> set a" using split_list_first [of NUL r] by blast
    have a: "a = takeWhile is_blank line @ w"
      using parse_loop_first [OF l(3), of w ws' 0 0 post] l(4,5) p c_str_append_NUL [OF post'(2)] unfolding post'(1) by simp
    have "w \<noteq> []" "\<forall>c \<in> set w. \<not> is_blank c" using tokens_neq [of w is_blank line] l(4) by auto
    then have "tokens is_blank a = [w]" unfolding a by (intro tokens_single) (auto dest: set_takeWhileD)
    then show ?thesis unfolding line_words_def using post' l(1) by (intro exI [of _ a] exI [of _ post']) simp
  qed
  ultimately show ?thesis by (rule that)
qed

lemma line_words_NUL:
  assumes "line_words p t ws" "w \<in> set ws"
  shows "NUL \<notin> set w"
  using assms tokens_neq unfolding line_words_def by blast

section \<open>The echo command\<close>

fun unwords :: "string list \<Rightarrow> string" where
  "unwords [] = []"
| "unwords [w] = w"
| "unwords (w # v # ws) = w @ '' '' @ unwords (v # ws)"

lemma echo_words:
  "concat (concat (map (\<lambda>i. ws ! i # (if Suc i < length ws then ['' ''] else [])) [0..<length ws])) = unwords ws"
proof (induction ws rule: unwords.induct)
  case (3 w v ws)
  have u: "[0..<length (w # v # ws)] = 0 # map Suc [0..<length (v # ws)]" by (simp add: map_Suc_upt upt_conv_Cons del: upt_Suc)
  show ?case unfolding u list.map map_map comp_def using 3 by (simp del: upt_Suc)
qed simp_all

lemma echo_eq: "echo (x # ws) t = (Value (), t\<lparr>sh := (sh t)\<lparr>stdout := stdout (sh t) @ unwords ws @ lf\<rparr>\<rparr>)"
proof -
  let ?f = "\<lambda>i. ws ! i # (if Suc i < length ws then ['' ''] else [])"
  have u: "[1..<length (x # ws)] = map Suc [0..<length ws]" by (simp add: map_Suc_upt)
  have "echo (x # ws) = seqs (map say (concat (map ?f [0..<length ws]) @ [lf]))"
    unfolding echo_def u map_map comp_def by (simp add: map_concat comp_def if_distrib [of "map say"] cong: if_cong)
  then show ?thesis using seqs_say [of "concat (map ?f [0..<length ws]) @ [lf]" "[]" t] echo_words [of ws] by simp
qed

text \<open>
  C1: \<open>echo\<close> prints its arguments.  The words of the line after the first are written with one
  blank between them and a newline at the end, whatever the blanks in the line; no system call
  other than the writes is made.
\<close>

theorem echo_prints_words:
  assumes "line_words p t (''echo'' # ws)"
  shows "\<exists>b. execute_command_bg p bg t =
    (Value 0, t\<lparr>sh := (sh t)\<lparr>cmd_buffer := b, stdout := stdout (sh t) @ unwords ws @ lf\<rparr>\<rparr>)"
proof -
  obtain b where b: "parse_at p t = (Value (''echo'' # ws), t\<lparr>sh := (sh t)\<lparr>cmd_buffer := b\<rparr>\<rparr>)"
    by (rule parse_at_words [OF assms])
  then show ?thesis by (intro exI [of _ b]) (simp add: execute_command_bg_def Let_def echo_eq first_char_def)
qed

section \<open>Programs\<close>

definition shell_builtins :: "string list" where
  "shell_builtins = [''help'', ''jobs'', ''fg'', ''ps'', ''echo'', ''history'', ''clear'', ''exit'', ''fork'', ''stress'']"

lemma execute_external:
  assumes "line_words p t (w # ws)" "w \<notin> set shell_builtins"
  obtains b where "execute_command_bg p bg t = external p (w # ws) bg (t\<lparr>sh := (sh t)\<lparr>cmd_buffer := b\<rparr>\<rparr>)"
    "line_words p (t\<lparr>sh := (sh t)\<lparr>cmd_buffer := b\<rparr>\<rparr>) [w]"
proof -
  obtain b where b: "parse_at p t = (Value (w # ws), t\<lparr>sh := (sh t)\<lparr>cmd_buffer := b\<rparr>\<rparr>)" "line_words p (t\<lparr>sh := (sh t)\<lparr>cmd_buffer := b\<rparr>\<rparr>) [w]"
    by (rule parse_at_words [OF assms(1)])
  have "NUL \<notin> set w" using line_words_NUL [OF assms(1)] by simp
  then have "str_cmp w x \<noteq> 0" if "x \<in> set shell_builtins" for x
    using str_cmp_eq_0 [of w x] that assms(2) by (auto simp: shell_builtins_def)
  then have "execute_command_bg p bg t = external p (w # ws) bg (t\<lparr>sh := (sh t)\<lparr>cmd_buffer := b\<rparr>\<rparr>)"
    using b(1) by (simp add: execute_command_bg_def Let_def shell_builtins_def)
  then show ?thesis using b(2) by (rule that)
qed

text \<open>
  C14: the calls an external command makes.  The shell forks once.  The child asks for the program
  with all arguments, and reports and ends when that returns.  The parent waits for a child and
  returns its status, unless the command is in the background or the fork has failed.
\<close>

theorem external_command_calls:
  assumes "line_words p t (w # ws)" "w \<notin> set shell_builtins" "answers t = a # as"
  shows "case execute_command_bg p bg t of (r, t') \<Rightarrow>
    calls t' = calls t @ Call_fork # (if ret a = 0 then Call_execve w (w # ws) # (if as = [] then [] else [Call_exit 1])
      else if 0 < ret a \<and> \<not> bg then [Call_wait] else []) \<and>
    r = (if ret a = 0 then (if length as \<le> 1 then Waiting else Value (- 1))
      else if 0 < ret a \<and> \<not> bg then (case as of [] \<Rightarrow> Waiting | x # _ \<Rightarrow> Value (word0 x)) else Value (- 1)) \<and>
    (ret a = 0 \<and> as \<noteq> [] \<longrightarrow> stdout (sh t') = stdout (sh t) @ ''Command not found: '' @ w @ lf)"
proof -
  obtain b where "execute_command_bg p bg t = external p (w # ws) bg (t\<lparr>sh := (sh t)\<lparr>cmd_buffer := b\<rparr>\<rparr>)"
    by (rule execute_external [OF assms(1,2)])
  then show ?thesis using assms(3)
    by (cases as; cases "tl as") (auto simp: external_def)
qed

section \<open>Pipelines\<close>

lemmas pipe_simps = execute_pipe_def Let_def close_fd_def dup2_fd_def

lemma pipeline_cases:
  assumes "line_words c1 t (v # vs)" "v \<notin> set shell_builtins" "line_words c2 t (w # ws)" "w \<notin> set shell_builtins"
    and "answers t = p # a # as" "0 \<le> ret p"
  shows "\<lbrakk>ret a \<noteq> 0; as = b # cs; ret b \<noteq> 0; 4 \<le> length cs\<rbrakk> \<Longrightarrow> execute_pipe c1 c2 t = (Value 0, t\<lparr>answers := drop 4 cs,
      calls := calls t @ [Call_pipe, Call_fork, Call_fork, Call_close (word0 p), Call_close (word1 p), Call_wait, Call_wait]\<rparr>)"
    and "\<lbrakk>ret a \<noteq> 0; as = [b, x, y, z, e]; ret b = 0; ret e = 0\<rbrakk> \<Longrightarrow> calls (snd (execute_pipe c1 c2 t)) =
      calls t @ [Call_pipe, Call_fork, Call_fork, Call_close (word1 p), Call_dup2 (word0 p) 0, Call_close (word0 p), Call_fork, Call_execve w (w # ws)]"
    and "\<lbrakk>ret a = 0; as = [x, y, z, e]; ret e = 0\<rbrakk> \<Longrightarrow> calls (snd (execute_pipe c1 c2 t)) =
      calls t @ [Call_pipe, Call_fork, Call_close (word0 p), Call_dup2 (word1 p) 1, Call_close (word1 p), Call_fork, Call_execve v [v]]"
proof -
  assume "ret a \<noteq> 0" "as = b # cs" "ret b \<noteq> 0" "4 \<le> length cs"
  moreover then obtain c d e f cs' where "cs = c # d # e # f # cs'" by (auto simp: numeral_eq_Suc Suc_le_length_iff)
  ultimately show "execute_pipe c1 c2 t = (Value 0, t\<lparr>answers := drop 4 cs,
      calls := calls t @ [Call_pipe, Call_fork, Call_fork, Call_close (word0 p), Call_close (word1 p), Call_wait, Call_wait]\<rparr>)"
    using assms(5,6) by (simp add: pipe_simps)
next
  let ?t = "t\<lparr>calls := calls t @ [Call_pipe, Call_fork, Call_fork, Call_close (word1 p), Call_dup2 (word0 p) 0, Call_close (word0 p)], answers := [e]\<rparr>"
  assume h: "ret a \<noteq> 0" "as = [b, x, y, z, e]" "ret b = 0" "ret e = 0"
  have "line_words c2 ?t (w # ws)" using assms(3) by (simp add: line_words_def)
  from this assms(4) obtain b' where "execute_command c2 ?t = external c2 (w # ws) False (?t\<lparr>sh := (sh ?t)\<lparr>cmd_buffer := b'\<rparr>\<rparr>)"
    unfolding execute_command_def by (rule execute_external)
  then show "calls (snd (execute_pipe c1 c2 t)) =
      calls t @ [Call_pipe, Call_fork, Call_fork, Call_close (word1 p), Call_dup2 (word0 p) 0, Call_close (word0 p), Call_fork, Call_execve w (w # ws)]"
    using assms(5,6) h by (simp add: pipe_simps external_def)
next
  assume h: "ret a = 0" "as = [x, y, z, e]" "ret e = 0"
  let ?t1 = "t\<lparr>calls := calls t @ [Call_pipe, Call_fork, Call_close (word0 p)], answers := [y, z, e]\<rparr>"
  have "line_words c1 ?t1 (v # vs)" using assms(1) by (simp add: line_words_def)
  then obtain b' where b': "parse_at c1 ?t1 = (Value (v # vs), ?t1\<lparr>sh := (sh ?t1)\<lparr>cmd_buffer := b'\<rparr>\<rparr>)"
    "line_words c1 (?t1\<lparr>sh := (sh ?t1)\<lparr>cmd_buffer := b'\<rparr>\<rparr>) [v]" by (rule parse_at_words)
  let ?t2 = "?t1\<lparr>sh := (sh t)\<lparr>cmd_buffer := b'\<rparr>, calls := calls ?t1 @ [Call_dup2 (word1 p) 1, Call_close (word1 p)], answers := [e]\<rparr>"
  have "line_words c1 ?t2 [v]" using b'(2) by (simp add: line_words_def)
  from this assms(2) obtain b'' where "execute_command c1 ?t2 = external c1 [v] False (?t2\<lparr>sh := (sh ?t2)\<lparr>cmd_buffer := b''\<rparr>\<rparr>)"
    unfolding execute_command_def by (rule execute_external)
  then show "calls (snd (execute_pipe c1 c2 t)) =
      calls t @ [Call_pipe, Call_fork, Call_close (word0 p), Call_dup2 (word1 p) 1, Call_close (word1 p), Call_fork, Call_execve v [v]]"
    using assms(5,6) h b'(1) by (simp add: pipe_simps external_def)
qed


section \<open>Redirections\<close>


section \<open>Examples\<close>

definition shell_zero :: shell where
  "shell_zero = \<lparr>history = replicate 10 (replicate 256 NUL), history_count = 0, history_pos = 0, cmd_buffer = replicate 256 NUL, cmd_pos = 0,
     cmd_len = 0, jobs = [], next_job_id = 1, jobs_initialized = False, stdout = []\<rparr>"

definition task_with :: "string \<Rightarrow> int list \<Rightarrow> task" where
  "task_with line rets = \<lparr>sh = shell_zero\<lparr>cmd_buffer := line\<rparr>, stdin = [], answers = map (\<lambda>r. \<lparr>ret = r, stored = [], word0 = 3, word1 = 4\<rparr>) rets, calls = []\<rparr>"

lemma task_with_simps [simp]:
  "cmd_buffer (sh (task_with line rets)) = line" "stdout (sh (task_with line rets)) = []" "calls (task_with line rets) = []"
  "answers (task_with line rets) = map (\<lambda>r. \<lparr>ret = r, stored = [], word0 = 3, word1 = 4\<rparr>) rets"
  by (simp_all add: task_with_def shell_zero_def)

theorem echo_prints_words_witness:
  "stdout (sh (snd (execute_command_bg 0 False (task_with (''echo  a   bc '' @ [NUL]) [])))) = ''a bc'' @ lf"
proof -
  have "line_words 0 (task_with (''echo  a   bc '' @ [NUL]) []) [''echo'', ''a'', ''bc'']"
    unfolding line_words_def by (intro exI [of _ "''echo  a   bc ''"] exI [of _ "[]"]) (simp add: is_blank_def)
  then show ?thesis using echo_prints_words [of 0 "task_with (''echo  a   bc '' @ [NUL]) []" "[''a'', ''bc'']" False] by auto
qed

theorem external_command_calls_witness:
  "calls (snd (execute_command_bg 0 False (task_with (''ls  x'' @ [NUL]) [0]))) = [Call_fork, Call_execve ''ls'' [''ls'', ''x'']] \<and>
   calls (snd (execute_command_bg 0 False (task_with (''ls  x'' @ [NUL]) [7, 7]))) = [Call_fork, Call_wait]"
proof -
  have l: "line_words 0 (task_with (''ls  x'' @ [NUL]) rs) [''ls'', ''x'']" for rs
    unfolding line_words_def by (intro exI [of _ "''ls  x''"] exI [of _ "[]"]) (simp add: is_blank_def)
  show ?thesis
    using external_command_calls [OF l [of "[0]"], where bg = False] external_command_calls [OF l [of "[7, 7]"], where bg = False]
    by (simp add: shell_builtins_def case_prod_unfold)
qed



end
