(* ===== verification/Init.thy ===== *)
theory Init
  imports Shell_Run
begin

text \<open>
  The init process \<open>src/programs/init.c\<close>, as a task that makes system calls (theory \<open>Shell_Exec\<close>; of the
  memory of the task only the text written is used).  Five of its messages are written with a
  length that is one too large and so end with the terminating zero byte.
\<close>

section \<open>The program\<close>

definition exec_shell :: "unit act" where
  "exec_shell = seq (call (Call_execve ''/bin/shell'' [''/bin/shell''])) (\<lambda>_. give ())"

text \<open>Up to the main loop; the result is \<open>shell_pid\<close>.\<close>

definition init_start :: "int act" where
  "init_start =
     seq (say (''[init] Starting SimpleOS init process...'' @ lf)) (\<lambda>_.
     seq (call Call_fork) (\<lambda>a.
     seq (if ret a = 0 then seqs [exec_shell, say (''[init] Failed to exec shell!'' @ lf @ [NUL]), seq (call (Call_exit 1)) (\<lambda>_. give ())]
          else if 0 < ret a then seqs [say (''[init] Shell started with PID '' @ [NUL]), say (number (ret a)), say lf]
          else say (''[init] Failed to fork shell!'' @ lf @ [NUL])) (\<lambda>_.
     seq (say (''[init] Entering main loop - reaping children'' @ lf @ [NUL])) (\<lambda>_. give (ret a)))))"

text \<open>One round of the main loop, from the old value of \<open>shell_pid\<close> to the new one.\<close>

definition init_round :: "int \<Rightarrow> int act" where
  "init_round spid =
     seq (call Call_wait) (\<lambda>a.
       if 0 < ret a then
         seq (seqs [say ''[init] Reaped child PID '', say (number (ret a)), say '' with status '', say (number (word0 a)), say lf]) (\<lambda>_.
           if ret a = spid then
             seq (say (''[init] Shell died! Restarting...'' @ lf @ [NUL])) (\<lambda>_.
               seq (call Call_fork) (\<lambda>f.
                 seq (if ret f = 0 then seqs [exec_shell, seq (call (Call_exit 1)) (\<lambda>_. give ())] else give ()) (\<lambda>_. give (ret f))))
           else give spid)
       else seq (call (Call_sleep 100)) (\<lambda>_. give spid))"

fun init_rounds :: "nat \<Rightarrow> int \<Rightarrow> int act" where
  "init_rounds 0 spid = give spid"
| "init_rounds (Suc n) spid = seq (init_round spid) (init_rounds n)"

definition init_main :: "nat \<Rightarrow> int act" where
  "init_main n = seq init_start (init_rounds n)"

section \<open>Restarting the shell\<close>

text \<open>The calls of one round of the parent, and the process it takes for the shell afterwards.\<close>

fun round_calls :: "int \<Rightarrow> answer list \<Rightarrow> request list" where
  "round_calls p (a # as) = Call_wait # (if ret a \<le> 0 then [Call_sleep 100] else if ret a = p then [Call_fork] else [])"
| "round_calls p [] = [Call_wait]"

definition round_pid :: "int \<Rightarrow> answer \<Rightarrow> answer \<Rightarrow> int" where
  "round_pid p a f = (if 0 < ret a \<and> ret a = p then ret f else p)"

theorem init_restarts_shell:
  assumes "answers t = a # f # as" "ret f \<noteq> 0"
  shows "\<exists>t'. init_round p t = (Value (round_pid p a f), t') \<and> calls t' = calls t @ round_calls p (answers t)"
  using assms by (auto simp: init_round_def round_pid_def)

text \<open>
  The weak point: when the restart fails, init remembers the result -1 as the shell.  No process
  that ends later has this number, so no further attempt is made, whatever the calls return.
\<close>

lemma init_round_negative:
  assumes "p < 0" "init_round p t = (r, t')"
  shows "(r = Waiting \<or> r = Value p) \<and> (calls t' = calls t @ [Call_wait] \<or> calls t' = calls t @ [Call_wait, Call_sleep 100])"
proof (cases "answers t")
  case Nil
  then show ?thesis using assms(2) by (auto simp: init_round_def)
next
  case (Cons a as)
  show ?thesis
  proof (cases "0 < ret a")
    case True
    then have "ret a \<noteq> p" using assms(1) by simp
    then show ?thesis using True Cons assms(2) by (auto simp: init_round_def)
  next
    case False
    then show ?thesis using Cons assms(2) by (cases as) (auto simp: init_round_def)
  qed
qed

theorem init_gives_up:
  assumes "p < 0" "init_rounds n p t = (r, t')"
  shows "\<exists>cs. calls t' = calls t @ cs \<and> Call_fork \<notin> set cs"
  using assms(2)
proof (induction n arbitrary: t)
  case (Suc n)
  obtain x u where x: "init_round p t = (x, u)" by fastforce
  obtain cs where cs: "x = Waiting \<or> x = Value p" "calls u = calls t @ cs" "set cs \<subseteq> {Call_wait, Call_sleep 100}"
    using init_round_negative [OF assms(1) x] by (metis empty_set list.simps(15) order_refl subset_insertI insert_mono empty_subsetI)
  show ?case
  proof (cases "x = Waiting")
    case True
    then show ?thesis using Suc.prems x cs by auto
  next
    case False
    then have "init_rounds n p u = (r, t')" using Suc.prems x cs(1) by simp
    then obtain ds where "calls t' = calls u @ ds" "Call_fork \<notin> set ds" using Suc.IH by blast
    then show ?thesis using cs(2,3) by (intro exI [of _ "cs @ ds"]) auto
  qed
qed auto

theorem init_gives_up_witness:
  "\<exists>cs. calls (snd (init_rounds 3 (- 1) (task_with [] [5, 7, - 1, 0]))) = cs \<and> Call_fork \<notin> set cs"
proof -
  obtain r t' where "init_rounds 3 (- 1) (task_with [] [5, 7, - 1, 0]) = (r, t')" by fastforce
  then show ?thesis using init_gives_up [of "- 1" 3 "task_with [] [5, 7, - 1, 0]" r t'] by simp
qed

end
