(* ===== verification/Spec2Isabelle.thy ===== *)
theory Spec2Isabelle
  imports Boot User_Mode Proc_Laws Elf Programs Line_Editor Shell_Parse Init
begin

text \<open>
  SimpleOS is a small operating system for x86-64: physical and virtual memory, a kernel heap,
  processes with a round-robin scheduler, pipes and signals, a RAM file system, drivers for timer,
  keyboard and text screen, system calls by \<open>int 0x80\<close>, an ELF loader, and a few user programs.  This
  library is a shallow embedding of its sources (the repository is under \<open>src/\<close>) with the theorems
  that make them correct.  Each operation of the C code is one function
  on an explicit state; where the code does not do what it means to do, the theorem says what it does.

  \<^bold>\<open>State.\<close>  The kernel's global variables are the fields of one extensible record, built up in the
  order of the components: \<open>machine\<close> (bytes of physical memory, text written so far), \<open>pmm\<close>, \<open>vmm\<close>,
  \<open>kheap\<close>, \<open>kpipes\<close>, \<open>kproc\<close>, \<open>kdev\<close>, \<open>ksys\<close>, \<open>kcalls\<close>.  An operation takes the smallest record it needs
  and works on every extension.  Heap objects the C code reaches through typed pointers (control
  blocks, descriptor tables, pipes) are maps from addresses to records; page tables, heap headers
  and ELF images are bytes of \<open>phys_mem\<close>.  Integers keep their width as words.  A panic, an access
  outside of an array and a wait that never ends are values of type \<open>fault\<close>.

  \<^bold>\<open>Memory.\<close>  \<open>Prelude\<close>, \<open>Phys_Mem\<close> and \<open>Machine\<close> hold shared lemmas, the byte memory and the console.
  \<open>Pmm\<close> (\<open>src/src/mm/pmm.c\<close>): the frame bitmap; allocation returns the lowest free frame or run, cleared;
  release panics on bad addresses.  Its contract is the locale \<open>frame_allocator\<close>.  \<open>Vmm\<close>
  (\<open>src/src/mm/vmm.c\<close>): page tables as a tree in memory; mapping changes exactly one page, keeps the tree
  and leaves other address spaces alone; a new address space shares the kernel half only.
  \<open>Kmalloc\<close> (\<open>src/src/mm/kmalloc.c\<close>): the block list in memory refines a list of sizes, \<open>kmalloc\<close> is first
  fit, \<open>kfree\<close> merges neighbours.  \<open>Heap_Objects\<close> turns this into the contract \<open>object_allocator\<close>
  (fresh, disjoint objects whose contents stay) for the clients of the heap.

  \<^bold>\<open>Processes.\<close>  \<open>Process_Defs\<close>, \<open>Ready_Queue\<close>, \<open>Scheduler\<close>, \<open>Process\<close> and \<open>Signal\<close> (\<open>src/src/kernel/process.c\<close>,
  \<open>src/src/kernel/scheduler.c\<close>, \<open>src/src/arch/x86_64/context_switch.s\<close>, \<open>src/src/arch/x86_64/tss.c\<close>,
  \<open>src/src/ipc/signal.c\<close>): the doubly linked ready queue refines a list (locale \<open>object_queue\<close> of
  \<open>Queue_Contract\<close>); a scheduling decision runs the head and queues the running process; with two or
  more runnable processes the turns are fair; new control blocks are fresh and get new numbers.

  \<^bold>\<open>Devices.\<close>  \<open>Byte_Queue\<close> states the contract of a bounded byte queue; \<open>Pipe\<close> (\<open>src/src/ipc/pipe.c\<close>) and
  \<open>Keyboard\<close> (\<open>src/src/drivers/keyboard.c\<close>) interpret it.  \<open>Pipe\<close> also interleaves the single steps of a
  reader and a writer.  \<open>Devices\<close> (\<open>src/src/drivers/timer.c\<close>, \<open>src/src/drivers/ports.c\<close>): timer and sleeping.
  \<open>Terminal\<close> (\<open>src/src/drivers/terminal.c\<close>, \<open>src/src/drivers/vt.c\<close>): the screen shows the last 25 rows of an
  endless tape.

  \<^bold>\<open>Files and system calls.\<close>  \<open>Ramfs\<close>, \<open>Ramfs_Files\<close>, \<open>Ramfs_Dirs\<close> (\<open>src/src/fs/fs.c\<close>): chains of blocks
  refine lists of bytes, created files are found.  \<open>Fd_Calls\<close> and \<open>Proc_Calls\<close> model the system calls of
  \<open>src/src/kernel/syscall.c\<close>; \<open>Fd_Laws\<close> and \<open>Proc_Laws\<close> show that descriptors never dangle, that what is
  written is read back, that \<open>sbrk\<close> keeps the address space consistent, and that a parent that has
  to wait is never woken.  \<open>Syscall\<close>, \<open>Exceptions\<close>, \<open>Descriptors\<close>, \<open>Interrupt\<close> (\<open>src/src/kernel/panic.c\<close>,
  \<open>src/src/boot/exceptions.c\<close>, \<open>src/src/kernel/kernel.c\<close>, \<open>src/src/arch/x86_64/asm_functions.s\<close>) follow an interrupt
  through its gate, the assembly stub and the dispatcher and back: \<open>int 0x80\<close> runs the call with the
  number in \<open>rax\<close> and restores all other registers, and every exception that
  has a stub halts with a full report.  \<open>Boot\<close> is
  \<open>kernel_main\<close> up to the point where interrupts are enabled, apart from the calls that set up the display
  (they are in \<open>Terminal\<close>); \<open>User_Mode\<close>
  (\<open>src/src/arch/x86_64/usermode.c\<close>) the step to privilege 3; \<open>Elf\<close> (\<open>src/src/lib/elf.c\<close>) the loader.

  \<^bold>\<open>User programs.\<close>  \<open>User_Lib\<close> has the string and number routines; \<open>Programs\<close> is \<open>src/src/programs/wc.c\<close> and
  \<open>src/src/programs/grep.c\<close> with what they compute from their whole input.  The shell
  \<open>src/src/programs/shell_v2.c\<close> is in \<open>Shell_V2\<close> (state, jobs, history, line editor, parser) and
  \<open>Shell_Exec\<close> (running commands); \<open>Line_Editor\<close> shows that the editor refines a text with a cursor,
  \<open>Shell_Parse\<close> that pipelines are cut at the bars, \<open>Shell_Run\<close> which system calls a command, a pipeline
  and redirections make.  \<open>Init\<close> is \<open>src/src/programs/init.c\<close>.

  \<^bold>\<open>Parameters.\<close>  What the sources do not contain is an argument: the address translation in force during a
  call, the effect of interrupts that arrive while a call waits, the course of the clock, the
  addresses the linker assigns, the scan codes and characters that arrive, and, for user programs,
  the answers of the kernel.  \<open>process_find_by_pid\<close> is called but not defined in the repository and is
  an argument as well.

  \<^bold>\<open>Loops.\<close>  Loops over data are structural or have a termination proof.  Loops that wait
  (pipes, sleeping, standard input, \<open>sys_wait\<close>), walks along the block list of the heap, the copy
  loops of the loader and the reading of C strings are partial functions into \<open>option\<close>, so that not
  returning is a value.  The endless loops of the shell and of init are run a given
  number of times; a user program that has used up the answers of the kernel is \<open>Waiting\<close>.

  \<^bold>\<open>Not modelled.\<close>  Page faults: the kernel reads and writes physical memory directly, whatever the
  tables in force map.  This matters at the start, where \<open>init_paging\<close> maps the first 2 MB only and
  leaves the kernel heap without a translation (\<open>init_paging_identity\<close>): the processor would fault at
  the first access to the heap, and the statements about the kernel after that describe it as if its
  memory were mapped.  Caches and the TLB, and interrupts inside kernel code other than at the
  waiting loops.  The multiboot header and stack
  set-up in \<open>src/src/arch/x86_64/boot.s\<close>, link scripts and build files, which compute nothing.  The test processes and key
  commands of \<open>src/src/kernel/kernel.c\<close>, the sample programs in \<open>src/src/kernel/syscall.c\<close>, \<open>user_mode_test\<close> and \<open>src/userspace/\<close>, which are
  demonstrations made of messages and system calls.  The older shell \<open>src/src/programs/shell.c\<close>, which calls
  \<open>str_chr\<close> without any declaration of it.
\<close>

end
